theory Spec2Isabelle
  imports Main "HOL-Library.Word"
begin

unbundle bit_operations_syntax

section \<open>Machine integers and C macros\<close>

type_synonym u8 = "8 word"
type_synonym u16 = "16 word"
type_synonym u64 = "64 word"

text \<open>
  The macros \<open>MIN\<close> and \<open>MAX\<close> of the C sources, on \<open>uint64_t\<close>:
  \<^verbatim>\<open>#define MIN(a, b) ((a) < (b) ? (a) : (b))\<close>,
  \<^verbatim>\<open>#define MAX(a, b) ((a) < (b) ? (b) : (a))\<close>.
\<close>

definition MIN_u64 :: "u64 \<Rightarrow> u64 \<Rightarrow> u64" where
  "MIN_u64 a b = (if a < b then a else b)"

definition MAX_u64 :: "u64 \<Rightarrow> u64 \<Rightarrow> u64" where
  "MAX_u64 a b = (if a < b then b else a)"

text \<open>The largest value of an \<open>int\<close> (32 bits).\<close>

definition INT_MAX :: nat where
  "INT_MAX = 2147483647"

section \<open>Data model\<close>

text \<open>
  Error values. The first six are the errno values the dRAID code returns. The others
  are not errno values. Six of them mark the places where the C code has no defined
  result: a read or write past the end of an array, a division by zero, a null or dangling
  pointer, a shift by 64 bits or more, an \<open>int\<close> counter incremented past \<open>INT_MAX\<close>, a
  number read by \<open>sscanf\<close> that does not fit its type. \<open>PANIC\<close> is a failed \<open>VERIFY\<close>.
\<close>

datatype error = EINVAL | ECKSUM | ENOENT | ENXIO | EIO | ENOTSUP
  | OUT_OF_BOUNDS | DIV_BY_ZERO | BAD_POINTER | BAD_SHIFT | INT_OVERFLOW | OUT_OF_RANGE | PANIC

text \<open>\<open>draid_map_t\<close>: the permutation array is the flat byte array \<open>dm_perms\<close>.\<close>

record draid_map =
  dm_children :: u64
  dm_nperms :: u64
  dm_seed :: u64
  dm_checksum :: u64
  dm_perms :: "u8 list"

text \<open>\<open>vdev_draid_config_t\<close>.\<close>

record vdev_draid_config =
  vdc_ndata :: u64
  vdc_nparity :: u64
  vdc_nspares :: u64
  vdc_children :: u64
  vdc_ngroups :: u64
  vdc_map :: draid_map
  vdc_groupwidth :: u64
  vdc_ndisks :: u64
  vdc_groupsz :: u64
  vdc_devslicesz :: u64

text \<open>
  Virtual devices live in a store and refer to each other by pointer: a distributed
  spare points to its top-level dRAID vdev, whose child array may point back to the spare.
\<close>

type_synonym vdev_ptr = nat

text \<open>\<open>vdev_draid_spare_t\<close>.\<close>

record vdev_draid_spare =
  vds_draid_vdev :: vdev_ptr
  vds_spare_id :: u64

text \<open>The operation vectors a vdev can carry, compared by address in the C code.\<close>

datatype vdev_ops_t = VDEV_DRAID_OPS | VDEV_DRAID_SPARE_OPS | VDEV_REPLACING_OPS
  | VDEV_SPARE_OPS | VDEV_OTHER_OPS

text \<open>\<open>vd->vdev_tsd\<close>: \<open>NULL\<close>, a dRAID configuration or a distributed-spare state.\<close>

datatype vdev_tsd_t = TSD_NULL | TSD_DRAID vdev_draid_config | TSD_SPARE vdev_draid_spare

datatype vdev_aux_t = VDEV_AUX_NONE | VDEV_AUX_BAD_LABEL | VDEV_AUX_NO_REPLICAS

text \<open>
  The fields of \<open>vdev_t\<close> that the dRAID code reads or writes. \<open>vdev_child\<close> is the
  child array; \<open>vd->vdev_children\<close> is its length.
\<close>

record vdev =
  vdev_ops :: vdev_ops_t
  vdev_child :: "vdev_ptr list"
  vdev_tsd :: vdev_tsd_t
  vdev_asize :: u64
  vdev_max_asize :: u64
  vdev_ashift :: u64
  vdev_psize :: u64
  vdev_nparity :: u64
  vdev_ndata :: u64
  vdev_nspares :: u64
  vdev_ngroups :: u64
  vdev_open_error :: int
  vdev_reopening :: bool
  vdev_has_trim :: bool
  vs_aux :: vdev_aux_t

type_synonym vdev_store = "vdev_ptr \<Rightarrow> vdev option"

definition vdev_children :: "vdev \<Rightarrow> u64" where
  "vdev_children vd = of_nat (length (vdev_child vd))"

text \<open>The vdevs \<open>vd->vdev_child[0 .. vdev_children - 1]\<close>, when every pointer is valid.\<close>

definition vdev_child_list :: "vdev_store \<Rightarrow> vdev \<Rightarrow> vdev list option" where
  "vdev_child_list st vd = those (map st (vdev_child vd))"

section \<open>Capacity of a top-level dRAID vdev\<close>

text \<open>
  \<open>vdev_draid_calculate_asize\<close>: the loop over the children, with the three
  accumulators \<open>asize\<close>, \<open>max_asize\<close> and \<open>ashift\<close>, all starting at 0.
\<close>

fun vdev_draid_calculate_asize_loop ::
  "vdev list \<Rightarrow> u64 \<times> u64 \<times> u64 \<Rightarrow> u64 \<times> u64 \<times> u64" where
  "vdev_draid_calculate_asize_loop [] acc = acc"
| "vdev_draid_calculate_asize_loop (cvd # cvds) (asize, max_asize, ashift) =
     vdev_draid_calculate_asize_loop cvds
       (if vdev_ops cvd \<noteq> VDEV_DRAID_SPARE_OPS
        then (MIN_u64 (asize - 1) (vdev_asize cvd - 1) + 1,
              MIN_u64 (max_asize - 1) (vdev_max_asize cvd - 1) + 1,
              MAX_u64 ashift (vdev_ashift cvd))
        else (asize, max_asize, ashift))"

definition vdev_draid_calculate_asize :: "vdev_store \<Rightarrow> vdev \<Rightarrow> error + u64 \<times> u64 \<times> u64" where
  "vdev_draid_calculate_asize st vd =
     (case vdev_child_list st vd of
        None \<Rightarrow> Inl BAD_POINTER
      | Some cvds \<Rightarrow> Inr (vdev_draid_calculate_asize_loop cvds (0, 0, 0)))"

text \<open>The children that the loop does not skip.\<close>

definition non_spare :: "vdev list \<Rightarrow> vdev list" where
  "non_spare cvds = filter (\<lambda>cvd. vdev_ops cvd \<noteq> VDEV_DRAID_SPARE_OPS) cvds"

text \<open>The least non-zero value of a list, 0 when there is none.\<close>

definition least_nonzero :: "u64 list \<Rightarrow> u64" where
  "least_nonzero xs =
     (let ys = filter (\<lambda>x. x \<noteq> 0) xs in if ys = [] then 0 else Min (set ys))"

section \<open>Example devices\<close>

text \<open>A freshly allocated (zero-filled) \<open>vdev_t\<close> of a leaf device.\<close>

definition vdev_zero :: vdev where
  "vdev_zero = \<lparr>vdev_ops = VDEV_OTHER_OPS, vdev_child = [], vdev_tsd = TSD_NULL,
     vdev_asize = 0, vdev_max_asize = 0, vdev_ashift = 0, vdev_psize = 0,
     vdev_nparity = 0, vdev_ndata = 0, vdev_nspares = 0, vdev_ngroups = 0,
     vdev_open_error = 0, vdev_reopening = False, vdev_has_trim = False,
     vs_aux = VDEV_AUX_NONE\<rparr>"

text \<open>A disk that opened with 1 GiB of space, and one whose open failed (its sizes are still 0).\<close>

definition disk_1g :: vdev where
  "disk_1g = vdev_zero\<lparr>vdev_asize := 1073741824, vdev_max_asize := 2147483648,
     vdev_ashift := 12, vdev_psize := 1073741824\<rparr>"

definition disk_failed :: vdev where
  "disk_failed = vdev_zero\<lparr>vdev_open_error := 6\<rparr>"

text \<open>A top-level vdev with three children at the addresses 1, 2 and 3.\<close>

definition top_3 :: vdev where
  "top_3 = vdev_zero\<lparr>vdev_ops := VDEV_DRAID_OPS, vdev_child := [1, 2, 3], vdev_nparity := 1\<rparr>"

definition store_one_failed :: vdev_store where
  "store_one_failed = (\<lambda>p. if p = 0 then Some top_3 else if p = 1 then Some disk_failed
     else if p = 2 \<or> p = 3 then Some disk_1g else None)"

definition store_healthy :: vdev_store where
  "store_healthy = (\<lambda>p. if p = 0 then Some top_3
     else if p = 1 \<or> p = 2 \<or> p = 3 then Some disk_1g else None)"

section \<open>Allocated and physical sizes\<close>

text \<open>
  \<open>vdev_draid_asize\<close>. The configuration is \<open>vd->vdev_tsd\<close> and the shift is
  \<open>vd->vdev_ashift\<close>. The three \<open>ASSERT\<close>s on the result (\<open>asize != 0\<close>,
  \<open>asize < vdc_groupsz\<close>, \<open>asize % groupwidth == 0\<close>) are compiled out of production
  builds and are not part of the model.
\<close>

definition vdev_draid_asize :: "vdev \<Rightarrow> u64 \<Rightarrow> error + u64" where
  "vdev_draid_asize vd psize =
     (case vdev_tsd vd of
        TSD_DRAID vdc \<Rightarrow>
          (let ashift = vdev_ashift vd in
           if 64 \<le> ashift then Inl BAD_SHIFT
           else if push_bit (unat ashift) (vdc_ndata vdc) = 0 then Inl DIV_BY_ZERO
           else
             (let rows = ((psize - 1) div (push_bit (unat ashift) (vdc_ndata vdc))) + 1;
                  asize = push_bit (unat ashift) (rows * vdc_groupwidth vdc)
              in Inr asize))
      | _ \<Rightarrow> Inl BAD_POINTER)"

text \<open>\<open>vdev_draid_asize_to_psize\<close>; its \<open>ASSERT0(asize % groupwidth)\<close> is not modelled.\<close>

definition vdev_draid_asize_to_psize :: "vdev \<Rightarrow> u64 \<Rightarrow> error + u64" where
  "vdev_draid_asize_to_psize vd asize =
     (case vdev_tsd vd of
        TSD_DRAID vdc \<Rightarrow>
          (if vdc_groupwidth vdc = 0 then Inl DIV_BY_ZERO
           else Inr ((asize div vdc_groupwidth vdc) * vdc_ndata vdc))
      | _ \<Rightarrow> Inl BAD_POINTER)"

text \<open>
  The dRAID of the layout picture in the source: 14 children, groups of 8 data and 1
  parity column, 2 distributed spares, 4 groups per slice, 4 KiB sectors. Its
  permutation map has the two rows "device map 0" and "device map 1" of that picture.
\<close>

definition map_14 :: draid_map where
  "map_14 = \<lparr>dm_children = 14, dm_nperms = 2, dm_seed = 1, dm_checksum = 0,
     dm_perms = [2, 6, 1, 11, 4, 0, 7, 10, 8, 9, 13, 5, 12, 3,
                 9, 11, 12, 2, 4, 1, 3, 0, 10, 13, 8, 5, 6, 7]\<rparr>"

definition vdc_14 :: vdev_draid_config where
  "vdc_14 = \<lparr>vdc_ndata = 8, vdc_nparity = 1, vdc_nspares = 2, vdc_children = 14,
     vdc_ngroups = 4, vdc_map = map_14, vdc_groupwidth = 9, vdc_ndisks = 12,
     vdc_groupsz = 150994944, vdc_devslicesz = 50331648\<rparr>"

definition draid_14 :: vdev where
  "draid_14 = vdev_zero\<lparr>vdev_ops := VDEV_DRAID_OPS, vdev_child := [1 ..< 15],
     vdev_tsd := TSD_DRAID vdc_14, vdev_ashift := 12, vdev_nparity := 1, vdev_ndata := 8,
     vdev_nspares := 2, vdev_ngroups := 4\<rparr>"

section \<open>The table of permutation maps\<close>

definition VDEV_DRAID_MAX_MAPS :: nat where
  "VDEV_DRAID_MAX_MAPS = 254"

text \<open>
  One entry of the static table \<open>draid_maps\<close>: children, number of rows, seed and
  checksum. The initialiser leaves \<open>dm_perms\<close> null.
\<close>

definition dm :: "u64 \<Rightarrow> u64 \<Rightarrow> u64 \<Rightarrow> u64 \<Rightarrow> draid_map" where
  "dm children nperms seed checksum =
     \<lparr>dm_children = children, dm_nperms = nperms, dm_seed = seed, dm_checksum = checksum,
      dm_perms = []\<rparr>"

text \<open>\<open>static draid_map_t draid_maps[VDEV_DRAID_MAX_MAPS]\<close>, in the order of the source.\<close>

definition draid_maps :: "draid_map list" where
  "draid_maps =
    [dm 2 256 0xd27b123486e72fe2 0x000000003848433d, dm 3 256 0x625f944e90fc7b1f 0x00000000a8bfd5c4,
     dm 4 256 0xc9ea9ec82340c885 0x00000001819d7c69, dm 5 256 0xf46733b7f4d47dfd 0x00000002a1648d74,
     dm 6 256 0x88c3c62d8585b362 0x00000003d3b0c2c4, dm 7 256 0xb60bf1766a5ae0bd 0x0000000532571d69,
     dm 8 256 0xe98930e3c5d2e90a 0x00000006edfb0329, dm 9 256 0x5a5430036b982ccb 0x00000008ceaf6934,
     dm 10 256 0x835aa99465b2144e 0x0000000b5e2e3164, dm 11 256 0x74ccebf1dcf3ae80 0x0000000dd691358c,
     dm 12 256 0x1066c9233dd86924 0x000000108eb93aaf, dm 13 256 0x7481b56debf0e637 0x0000001424121fe4,
     dm 14 256 0x559b8c44065f8967 0x00000016ab2ff079, dm 15 256 0x34c49545a2ee7f01 0x0000001a6028efd6,
     dm 16 256 0x4ebc50d1ac2e964f 0x0000001db337b2bd, dm 17 256 0xb25b240b051dcfe0 0x000000219d7efc4e,
     dm 18 256 0x79606dfe4b053b1f 0x0000002680164399, dm 19 256 0x892e343f2f31d690 0x00000029eb392835,
     dm 20 256 0x7a98ffad8a39b449 0x0000002fe8fe2087, dm 21 256 0x4b3cbabf9cfb1d0f 0x00000036363a2408,
     dm 22 256 0xf45c77abb4f035d4 0x00000038dd0f3e84, dm 23 256 0x541b50c5ff1b281b 0x0000003f6a371b02,
     dm 24 256 0xab0666c148ed3a60 0x0000004583a52f77, dm 25 256 0xd82c5eaad94c5e5b 0x0000004c40869188,
     dm 26 256 0x3a42dfda4eb880f7 0x000000522c719bba, dm 27 256 0xd200d2fc6b54bf60 0x0000005760b4fdf5,
     dm 28 256 0xaf07d893ffd1986e 0x0000005e0dc49ab0, dm 29 256 0xc761779e63cd762f 0x00000067be3cd85c,
     dm 30 256 0xca577b1e07f85ca5 0x0000006f5517f3e4, dm 31 256 0xfd50a593c518b3d4 0x0000007370e7778f,
     dm 32 256 0x220c7a6cb145fd23 0x0000007d9d9fa78f, dm 33 256 0xeebbb3d6d40970a5 0x00000083a14e3e60,
     dm 34 256 0xc94fe19955410228 0x0000008f63355eac, dm 35 256 0xb3657369900a545c 0x00000095a7c566eb,
     dm 36 256 0x1d1fa86e430aed40 0x0000009cff7669fb, dm 37 256 0x41d4567a236661cb 0x000000a7d66b278b,
     dm 38 256 0x72876b9ff093b21c 0x000000ae9bc47f33, dm 39 256 0xf5a7e1ea513951c2 0x000000bcb616da83,
     dm 40 256 0x1f86f0f407867aad 0x000000c30e0445f3, dm 41 256 0xc70c00ed99f77eae 0x000000cd23b394fd,
     dm 42 256 0x47597ce12c6de3f5 0x000000d7a3ac5add, dm 43 256 0x7257467388cb31e6 0x000000e266068ab0,
     dm 44 256 0xe36feeacae79ea7a 0x000000eeac6dc5e6, dm 45 256 0x57f3441d83fb9eb9 0x000000f5f65de1b5,
     dm 46 256 0xcb89e7b41fcfede7 0x000001032761176b, dm 47 256 0x1d893b5b937e5aea 0x00000117017c4b5c,
     dm 48 256 0x2878979d4c91c493 0x000001183c88612d, dm 49 256 0x63f19c2ce78edeee 0x000001296ed0ee44,
     dm 50 256 0x1e1d40408bc716aa 0x00000134cff620b1, dm 51 256 0x2fcb046eeb1f207b 0x0000013f67caf09c,
     dm 52 256 0x51d9ee3ca622717f 0x0000014c447c9d87, dm 53 256 0x35e35cb929826075 0x0000015ba72c76c0,
     dm 54 256 0x3a9ec2b0829222c9 0x00000168979646be, dm 55 256 0xd955efca98a311df 0x000001789b9cce52,
     dm 56 256 0x445d2f84ade3469f 0x0000018564732e7d, dm 57 256 0x26b57da7b1e97273 0x0000019531d42382,
     dm 58 256 0xdf7a90179e22dd3f 0x0000019e491ef47f, dm 59 256 0xe032972b59b70972 0x000001acac08341f,
     dm 60 256 0xb343e4cd3d287ddc 0x000001bb444b5e46, dm 61 256 0xd8d4e54c3df7e3a7 0x000001c58fcda563,
     dm 62 256 0x44334cc530fb29ba 0x000001dc18d75844, dm 63 256 0x65ad35d57c47f507 0x000001ecae361bba,
     dm 64 256 0x2a3825f8c282e99f 0x000001f84a07afec, dm 65 256 0x834c9d0d3597a504 0x0000020bfd6d436c,
     dm 66 256 0x1d9e7b06f6c07a10 0x0000021ea362bb87, dm 67 256 0x6cc1b2e96739fa55 0x000002265cdb7cce,
     dm 68 256 0xcfe89dfa4292bc17 0x00000233104ac39b, dm 69 256 0x438becb1fd00d4c2 0x000002505926acb4,
     dm 70 256 0xf5b7e58a298b866c 0x0000025bbc74fbed, dm 71 256 0x0f43ba704002fc93 0x000002736934b7f3,
     dm 72 256 0xf21c038144492c6f 0x0000027ccabc9669, dm 73 256 0xe3ab5428b9f7df94 0x00000292e4ee9451,
     dm 74 256 0x2b81da6ec6a9963d 0x000002a3e4435d6c, dm 75 256 0xf40420342b450c83 0x000002c30448b817,
     dm 76 256 0x7ce590e7e8817733 0x000002cdfca4e1d9, dm 77 256 0x663670846e05bb4b 0x000002dfec572132,
     dm 78 256 0xa19572c41899d080 0x000002ed12dd46a0, dm 79 256 0x5e07613ecf057f41 0x0000030aed6e6447,
     dm 80 256 0xf4595de38313a5d3 0x000003159f7397a1, dm 81 256 0xc54089d7d084125a 0x0000033234b59ff5,
     dm 82 256 0xf908340da38c477b 0x00000339d35d1583, dm 83 256 0xcfcded7072046406 0x000003504c96061c,
     dm 84 256 0x2af7e558a7e0f844 0x000003705d412574, dm 85 256 0x37eb43e6bf49f751 0x0000037f68370ad3,
     dm 86 256 0x99de847b1bb599b0 0x0000039721fa3c62, dm 87 256 0x23688c8037026ffd 0x000003af9d3e8d8f,
     dm 88 256 0x3eb1120addbc60c1 0x000003c441d3ee37, dm 89 256 0x7e9a8a06b63f9603 0x000003d7ab303470,
     dm 90 256 0xd6f6f1850d1119c6 0x000003e87888f4d2, dm 91 256 0x16946b638e95845b 0x000004091e6b0f69,
     dm 92 256 0x2bc491717f9cd131 0x0000042146e172aa, dm 93 256 0x054affaef1562f3b 0x0000042f674b14cc,
     dm 94 256 0x54375dde674a6684 0x0000044c0df12ea6, dm 95 256 0xa052855253694818 0x000004664c08a41f,
     dm 96 256 0xfc0849afa9f3604a 0x00000479b7cefede, dm 97 256 0x2908de4f98003934 0x0000048c02c0806e,
     dm 98 256 0xf8be7e271d7e53b5 0x0000049e9e828659, dm 99 256 0x1b9435fdab22a5dd 0x000004c6070139f9,
     dm 100 256 0x2a17c2b63f3943e1 0x000004da13183b24, dm 101 256 0x8ae2ee0facdb9938 0x000004ec59eb8413,
     dm 102 256 0x583c2f6cded9d3a9 0x0000050d25afb497, dm 103 256 0x93a173e7214e3dfa 0x0000051ad37854d9,
     dm 104 256 0x78af3e86fccdbc29 0x0000053f32a84d94, dm 105 256 0x03367c2f007f7dac 0x00000552d02bff16,
     dm 106 256 0x6fbce373324789ec 0x00000577c4e9b8ee, dm 107 256 0x93e4e36a6e6e1902 0x0000058f22ad9b3d,
     dm 108 256 0xbad08bd583345655 0x000005a22c650669, dm 109 256 0xc3e137ae1dbe8f41 0x000005d1e236f82c,
     dm 110 256 0x0f55a3fe5723ea92 0x000005d7e3592444, dm 111 256 0xa55f7f8bdf9a66cf 0x000005f1c8b42e4e,
     dm 112 256 0xa42b5f8c23f7a65c 0x00000614209d4444, dm 113 256 0xe04327a36da3c095 0x000006409793dc82,
     dm 114 256 0x5e1c0cafcaff22c5 0x0000063cb330ca51, dm 115 256 0x947eeebeaa418c7b 0x0000067de838040c,
     dm 116 256 0x827a7e53c45fd591 0x00000691654028c2, dm 117 256 0xee6c6422508b8081 0x000006c73cd1f5ca,
     dm 118 256 0x8d10f85f77136c9b 0x000006b780c28a86, dm 119 256 0x3ac37b68ece309f7 0x000006dc2a3372d5,
     dm 120 256 0xfac222ae91b52d75 0x000006fa4da340cd, dm 121 256 0x63f33b583c0f2798 0x0000071d247c5f54,
     dm 122 256 0x615c622935825616 0x000007430c7176b3, dm 123 256 0xc69189d76872af9a 0x0000075925c749d5,
     dm 124 256 0xf4050a2ff3986a42 0x000007760b16d276, dm 125 256 0xcff6bf9171a277cb 0x000007abf7457004,
     dm 126 256 0xa13c261de2a975d7 0x000007b4edf43211, dm 127 256 0xc5f4031a6cec6b01 0x000007deec966f87,
     dm 128 256 0x698d21f61befa7d4 0x000007e95cbcb124, dm 129 256 0x2be63bbe59df8854 0x0000081eba81b449,
     dm 130 256 0x2180fdc70ba19fbe 0x00000840a86f275a, dm 131 256 0x3c7b47190d7bca47 0x0000085843c4ec0f,
     dm 132 256 0xd06a2656c2b16a2d 0x00000878dce5cdd6, dm 133 256 0x89dc1fb8baa12726 0x00000894d45cfe9f,
     dm 134 256 0x6615e50866192f13 0x000008b110406a7d, dm 135 256 0xa609c9f54b9dbf7f 0x000008f64bbfa0cd,
     dm 136 256 0x8fb485f7b8431419 0x000008fc79ddf5ad, dm 137 256 0x40988bde38cfae15 0x0000090e944fe9a3,
     dm 138 256 0x76f1fb825f1b5f3b 0x000009393a6b2604, dm 139 256 0xb1768315ba1ef1c1 0x00000977ee6bb60b,
     dm 140 256 0x947aebd113c16275 0x000009995197900c, dm 141 256 0xebd7e73fcbfbd250 0x000009941f7d6a10,
     dm 142 256 0xc7c62d687efa04ba 0x000009f1e7320726, dm 143 256 0x2b97bc1ac9bfc727 0x000009dda86e488a,
     dm 144 256 0x71a4c7a0d1b93bca 0x00000a0ff5c6206a, dm 145 256 0x3db0fd9a2889f2d3 0x00000a3d5f8029a0,
     dm 146 256 0x5e16a0936e6ebb4f 0x00000a61cfc44f33, dm 147 256 0x48d86513d51d5ab3 0x00000a7a917df789,
     dm 148 256 0x0e2707c29c7c80f7 0x00000ab8b21b090f, dm 149 256 0xeef6b90b2873078e 0x00000ad819b5f793,
     dm 150 256 0x5c74901930f42aa5 0x00000b04bc34b61c, dm 151 256 0x6780b9b7ef3d1571 0x00000b13f0ac119c,
     dm 152 256 0x5f9f45931955b101 0x00000b3752cb069a, dm 153 256 0x3988cd9403516c78 0x00000b672b9f93c8,
     dm 154 256 0x6e3215639bb8405c 0x00000b9567de82c9, dm 155 256 0x45056fbc5e5f8730 0x00000bc2ba15e24d,
     dm 156 256 0x46049b760054472d 0x00000bcdec26b3c9, dm 157 256 0xbef6de70a79f0a75 0x00000c2bd37f93e7,
     dm 158 256 0xb3c5c3db7c9794d0 0x00000c3e23f9ed4e, dm 159 256 0x352d2822beba6d5c 0x00000c610d231c88,
     dm 160 256 0xf30ee19ddd4afa2e 0x00000c6a6b246e6d, dm 161 256 0xce68dd4ab2dcd278 0x00000caeba617e2d,
     dm 162 256 0x613c9e78805e41cb 0x00000cbc2b0c61c2, dm 163 256 0xeeab63f6eaebae4d 0x00000cfcb0895d26,
     dm 164 256 0x8bb8428ee5865272 0x00000d2f9a8768a3, dm 165 256 0xfe06cfee48df11fa 0x00000d5f4bc2b0e3,
     dm 166 256 0xcfd6e29926b59b14 0x00000d6393bc05ee, dm 167 256 0x4ffb773628a1e28d 0x00000da911be9d37,
     dm 168 256 0x54505b3532af3810 0x00000db8492201d0, dm 169 256 0x81cabcc02e8336f1 0x00000e0420e97916,
     dm 170 256 0x7303ecfd5788a7b0 0x00000e0934cfca6f, dm 171 256 0xd6d187fcca63bc41 0x00000e526875d3ed,
     dm 172 256 0x12b3d6b7cf93198e 0x00000e5cc7e5dfb3, dm 173 256 0x68b87e58537cb3ed 0x00000e9322810a09,
     dm 174 256 0xe592972360b1f188 0x00000ec9c33a5ed1, dm 175 256 0x42226d7740fd95d5 0x00000ede204b3329,
     dm 176 256 0x85e79ec390f0c4ce 0x00000f1174074484, dm 177 256 0xfa0f8f8c35fcc819 0x00000f3f1ad39a3e,
     dm 178 256 0x990fc6d5576461c7 0x00000f87974caba0, dm 179 256 0x356eb43b1804de5f 0x00000f9f2474d35e,
     dm 180 256 0x38aa9000d7aae573 0x00000fd5b6addd06, dm 181 256 0x0b1763e2e5eebd1d 0x00000ffb76ce2b66,
     dm 182 256 0xaed65bed47dedd57 0x0000101ac344590c, dm 183 256 0x77e4fbca8c7fd444 0x0000105d9c2a52c7,
     dm 184 256 0x9bcd3c6860f00181 0x00001097462ff6f1, dm 185 256 0x5b7f5b92a8f38b96 0x00001097827236eb,
     dm 186 256 0x4ec22016d2d85110 0x000010f77854adf5, dm 187 256 0x8d4cfc15d3f88d91 0x000010f75120b900,
     dm 188 256 0x52f131b1250220e8 0x00001158dfe4a41c, dm 189 256 0xfa5dc1ee85fdebd7 0x00001149e3d8e4af,
     dm 190 256 0xcc6e84d8c990a8a9 0x00001198c52212c5, dm 191 256 0xaece605d95d3a751 0x000011bced5821f2,
     dm 192 256 0x936556ede86f0b85 0x000011fb9c0b240f, dm 193 256 0x22d3eb1a6eca886f 0x00001231dbd85c54,
     dm 194 256 0x0d64a83435ee5147 0x0000126ae7594a62, dm 195 256 0x603fc435f11781d7 0x0000129d389a1f8b,
     dm 196 256 0x5d25211ece491c0c 0x000012c86c7bdc51, dm 197 256 0x316ae4dd498cdb99 0x0000130c14089adf,
     dm 198 256 0x0689348fe03cffe5 0x0000130705e0bac0, dm 199 256 0xb547ad5221c59950 0x0000135046838094,
     dm 200 256 0x0d7c80c5dda4b4cb 0x000013a3e7132632, dm 201 256 0x05d55e7d70bad126 0x000013bff4c42026,
     dm 202 256 0x5b6b3399dbd2bcbd 0x000013f7b202914b, dm 203 256 0xdf46f56c41ea861d 0x0000142091c0ba26,
     dm 204 256 0x6ab8a044718a698b 0x00001469b02bb128, dm 205 256 0xfb2b742d05f54096 0x0000146789357a4b,
     dm 206 256 0x5879587e83e5dfcb 0x000014c437258b0d, dm 207 256 0x61b65616dd4d9288 0x000014d43b401a1e,
     dm 208 256 0x8c3722ddabd63083 0x0000150ec78643b7, dm 209 256 0x75a0df47f4d66fd8 0x00001539a49cd0dc,
     dm 210 256 0x4160fa0f875155e9 0x00001570785bcbe9, dm 211 256 0xabe7e685cbc9ce5c 0x0000159de43925eb,
     dm 212 256 0x8689a65aaa3c99c0 0x000015fc66ccb6b9, dm 213 256 0xa802e731e8320896 0x00001621628872f5,
     dm 214 256 0x9c2c6beb7a7b25bb 0x00001655fe9367fa, dm 215 256 0x6c2bff4eecf7e523 0x000016a67633f2dd,
     dm 216 256 0x633da96e9ccb7220 0x000016c1857ad660, dm 217 256 0xed34dcf8d4fdc37d 0x0000171ae5c143cb,
     dm 218 256 0xce9e0e8470219fb9 0x0000175c46f535dc, dm 219 256 0x48e419f13839522f 0x000017511618b253,
     dm 220 256 0xe83ce578a61a3e92 0x0000178efe345d42, dm 221 256 0x792501128b8e7562 0x000017f6395d7838,
     dm 222 256 0x3d3b033300746ffd 0x000017f9dede6cf7, dm 223 256 0xaa42b54bd79b9b39 0x00001835031bc4e1,
     dm 224 256 0xbe8d8bfee659c4ff 0x0000186ecee4caec, dm 225 256 0x0e4fd33344959bf5 0x0000188b770105b1,
     dm 226 256 0xa6318818535bd977 0x000018bf36dba228, dm 227 256 0x09a58d6ef4cd24a4 0x00001946e00c3d0e,
     dm 228 256 0xd5df92c1210a61e1 0x00001955f284187d, dm 229 256 0x2f9dad47ecbfb07f 0x000019b445a00aa2,
     dm 230 256 0x50d1653470eb8009 0x000019e275ecc423, dm 231 256 0x859b561d9909f1f5 0x00001a0985e6b6e6,
     dm 232 256 0x6e4495e95ba570a6 0x00001a4c9ec980c5, dm 233 256 0x104a5ae2c742cd87 0x00001a9a1f4de4f7,
     dm 234 256 0xbf6e8f617885bb29 0x00001adc9d0df84d, dm 235 256 0xba9db9112d231b48 0x00001b05370c313e,
     dm 236 256 0xcc430d194996378a 0x00001b5f09eb6ae4, dm 237 256 0x8a37e532dcb37264 0x00001ba88015fa57,
     dm 238 256 0x137fc0b403b6691f 0x00001bc98a59844c, dm 239 256 0x4b52fd61f556ebf1 0x00001bb4446eae57,
     dm 240 256 0xe151761a61bed245 0x00001bfc708585e4, dm 241 256 0x18ad79678dcc175b 0x00001c497759b280,
     dm 242 256 0x70d604fcd9499c33 0x00001ca489da0135, dm 243 256 0x584678bd5bec7e6b 0x00001cce5fb12f23,
     dm 244 256 0x3df107aa54b635b3 0x00001d013be32dd7, dm 245 256 0xcc8377b324aa1922 0x00001d33f9a376d2,
     dm 246 256 0xc189e45cb4aca673 0x00001d609af1a280, dm 247 256 0xa2bf7a007477f3c5 0x00001d9fefa22ca8,
     dm 248 256 0x8a9e55e3586eb6ab 0x00001de182ca01ce, dm 249 256 0x6d6feba1dcae9397 0x00001e37f9906fc5,
     dm 250 256 0x889f6848d4489d14 0x00001ea6fc12e456, dm 251 256 0x2126c3b4ee836dde 0x00001ea151a0e96e,
     dm 252 256 0xceec65ee5be40279 0x00001f08192ed5c1, dm 253 256 0x6d69532520419418 0x00001f3c8e9b0b72,
     dm 254 256 0x8c93161db4f0fd85 0x00001f79c5d08c45, dm 255 256 0xacd9a3be765cb85d 0x00001fc35c2b6a2b]"

text \<open>
  \<open>vdev_draid_lookup_map\<close>: the loop \<open>for (i = 0; i <= VDEV_DRAID_MAX_MAPS; i++)\<close>. An
  index past the end of the table is a read outside the array.
\<close>

function vdev_draid_lookup_map_loop :: "u64 \<Rightarrow> nat \<Rightarrow> error + u64 \<times> u64 \<times> u64" where
  "vdev_draid_lookup_map_loop children i =
     (if i \<le> VDEV_DRAID_MAX_MAPS then
        (if i < length draid_maps then
           (if dm_children (draid_maps ! i) = children
            then Inr (dm_seed (draid_maps ! i), dm_checksum (draid_maps ! i),
                      dm_nperms (draid_maps ! i))
            else vdev_draid_lookup_map_loop children (i + 1))
         else Inl OUT_OF_BOUNDS)
      else Inl ENOENT)"
  by pat_completeness auto
termination
  by (relation "measure (\<lambda>(children, i). Suc VDEV_DRAID_MAX_MAPS - i)") auto

text \<open>The result is \<open>(map_seed, map_checksum, map_nperms)\<close>.\<close>

definition vdev_draid_lookup_map :: "u64 \<Rightarrow> error + u64 \<times> u64 \<times> u64" where
  "vdev_draid_lookup_map children = vdev_draid_lookup_map_loop children 0"

section \<open>Permutation lookup\<close>

text \<open>
  \<open>vdev_draid_get_perm\<close>. The pointer \<open>base\<close> into \<open>dm_perms\<close> is modelled by its offset
  from the start of the array. The function divides by \<open>dm_nperms * ncols\<close> and by
  \<open>ncols\<close>; when the product is not 0, \<open>ncols\<close> is not 0 either.
\<close>

definition vdev_draid_get_perm :: "vdev_draid_config \<Rightarrow> u64 \<Rightarrow> error + nat \<times> u64" where
  "vdev_draid_get_perm vdc pindex =
     (let ncols = vdc_children vdc in
      if dm_nperms (vdc_map vdc) * ncols = 0 then Inl DIV_BY_ZERO
      else
        (let poff = pindex mod (dm_nperms (vdc_map vdc) * ncols)
         in Inr (unat ((poff div ncols) * ncols), poff mod ncols)))"

text \<open>
  \<open>vdev_draid_permute_id\<close>: \<open>(base[index] + iter) % vdc_children\<close>. The byte is widened
  to 64 bits before the addition.
\<close>

definition vdev_draid_permute_id ::
  "vdev_draid_config \<Rightarrow> nat \<Rightarrow> u64 \<Rightarrow> u64 \<Rightarrow> error + u64" where
  "vdev_draid_permute_id vdc base iter index =
     (let perms = dm_perms (vdc_map vdc) in
      if length perms \<le> base + unat index then Inl OUT_OF_BOUNDS
      else if vdc_children vdc = 0 then Inl DIV_BY_ZERO
      else Inr ((ucast (perms ! (base + unat index)) + iter) mod vdc_children vdc))"

section \<open>Geometry\<close>

text \<open>
  Modelled from the spec: \<open>VDEV_DRAID_ROWSHIFT\<close> is \<open>SPA_MAXBLOCKSHIFT\<close>, whose definition
  is not in the sources at hand. The spec gives a row size of 16 MiB (\<open>1 << MAX_BLOCK_SHIFT\<close>),
  as does the layout comment of the source ("a 16M chunk from each physical drive").
\<close>

definition VDEV_DRAID_ROWSHIFT :: nat where
  "VDEV_DRAID_ROWSHIFT = 24"

definition VDEV_DRAID_ROWSIZE :: u64 where
  "VDEV_DRAID_ROWSIZE = push_bit VDEV_DRAID_ROWSHIFT 1"

text \<open>The macro \<^verbatim>\<open>#define roundup(x, y) ((((x) + ((y) - 1)) / (y)) * (y))\<close>; \<open>y\<close> must not be 0.\<close>

definition roundup :: "u64 \<Rightarrow> u64 \<Rightarrow> u64" where
  "roundup x y = ((x + (y - 1)) div y) * y"

text \<open>
  \<open>vdev_draid_logical_to_physical\<close>, returning \<open>(physical offset, perm, start)\<close>. A
  top-level dRAID vdev is its own \<open>vdev_top\<close>. The two \<open>ASSERT\<close>s are not modelled.
\<close>

definition vdev_draid_logical_to_physical :: "vdev \<Rightarrow> u64 \<Rightarrow> error + u64 \<times> u64 \<times> u64" where
  "vdev_draid_logical_to_physical vd logical_offset =
     (case vdev_tsd vd of
        TSD_DRAID vdc \<Rightarrow>
          (let ashift = vdev_ashift vd;
               groupwidth = vdc_groupwidth vdc;
               ngroups = vdc_ngroups vdc;
               ndisks = vdc_ndisks vdc
           in
           if 64 \<le> ashift then Inl BAD_SHIFT
           else
             (let b_offset = drop_bit (unat ashift) logical_offset;
                  blocks_per_row = drop_bit (unat ashift) VDEV_DRAID_ROWSIZE
              in
              if vdc_groupsz vdc = 0 \<or> ndisks = 0 \<or> blocks_per_row * groupwidth = 0
                 \<or> groupwidth = 0 \<or> ngroups = 0
              then Inl DIV_BY_ZERO
              else
                (let group = logical_offset div vdc_groupsz vdc;
                     groupstart = (group * groupwidth) mod ndisks;
                     b_offset = b_offset mod (blocks_per_row * groupwidth);
                     perm = group div ngroups;
                     row = (perm * ((groupwidth * ngroups) div ndisks)) +
                           (((group mod ngroups) * groupwidth) div ndisks)
                 in Inr (push_bit (unat ashift) ((blocks_per_row * row) + (b_offset div groupwidth)),
                         perm, groupstart))))
      | _ \<Rightarrow> Inl BAD_POINTER)"

section \<open>The raidz map of a dRAID I/O\<close>

datatype zio_type = ZIO_TYPE_NULL | ZIO_TYPE_READ | ZIO_TYPE_WRITE | ZIO_TYPE_FREE
  | ZIO_TYPE_CLAIM | ZIO_TYPE_IOCTL | ZIO_TYPE_TRIM

datatype zio_flag = ZIO_FLAG_SCRUB | ZIO_FLAG_RESILVER | ZIO_FLAG_PROBE
  | ZIO_FLAG_CONFIG_WRITER | ZIO_FLAG_CANFAIL

datatype zio_cmd = DKIOCFLUSHWRITECACHE | DKIOC_OTHER nat

text \<open>
  The fields of \<open>zio_t\<close> that the dRAID code uses. \<open>io_abd\<close> holds the bytes of the
  I/O buffer; \<open>io_error\<close> is \<open>None\<close> for 0.
\<close>

record zio =
  io_type :: zio_type
  io_cmd :: zio_cmd
  io_flags :: "zio_flag set"
  io_offset :: u64
  io_size :: u64
  io_abd :: "u8 list"
  io_error :: "error option"

text \<open>
  Buffers, by the way they are made: \<open>abd_alloc_linear(size)\<close>, a slice
  \<open>abd_get_offset_size(zio->io_abd, off, size)\<close> of the I/O buffer, \<open>abd_get_zeros(size)\<close>, a
  slice \<open>abd_get_offset_size(rm->rm_abd_skip, off, size)\<close> of the skip buffer, and a gang
  buffer with its members in order.
\<close>

datatype abd = ABD_LINEAR u64 | ABD_IO u64 u64 | ABD_ZEROS u64 | ABD_SKIP u64 u64
  | ABD_GANG "abd list"

fun abd_get_size :: "abd \<Rightarrow> u64" where
  "abd_get_size (ABD_LINEAR n) = n"
| "abd_get_size (ABD_IO off n) = n"
| "abd_get_size (ABD_ZEROS n) = n"
| "abd_get_size (ABD_SKIP off n) = n"
| "abd_get_size (ABD_GANG xs) = sum_list (map abd_get_size xs)"

text \<open>
  \<open>raidz_col_t\<close> and \<open>raidz_map_t\<close>. The fields that \<open>vdev_draid_map_alloc\<close> only sets to 0
  or \<open>NULL\<close> and never reads (\<open>rc_gdata\<close>, \<open>rc_error\<close>, \<open>rc_tried\<close>, \<open>rc_skipped\<close>,
  \<open>rc_repair\<close>, \<open>rm_missingdata\<close>, \<open>rm_missingparity\<close>, \<open>rm_abd_copy\<close>, \<open>rm_reports\<close>,
  \<open>rm_freed\<close>, \<open>rm_ecksuminjected\<close>, \<open>rm_include_skip\<close>, \<open>rm_ops\<close>) are left out.
\<close>

record raidz_col =
  rc_devidx :: u64
  rc_offset :: u64
  rc_size :: u64
  rc_abd :: "abd option"

record raidz_map =
  rm_cols :: u64
  rm_scols :: u64
  rm_bigcols :: u64
  rm_asize :: u64
  rm_nskip :: u64
  rm_skipstart :: u64
  rm_firstdatacol :: u64
  rm_abd_skip :: "abd option"
  rm_col :: "raidz_col list"

text \<open>
  The loops below run a 64-bit counter \<open>c\<close> (or \<open>i\<close>) up to a 64-bit bound; the counter is
  modelled by its value, a natural number below \<open>2^64\<close>. \<open>rm_col\<close> is the flexible array
  member with \<open>groupwidth\<close> elements; an index outside it is a fault.
\<close>

text \<open>
  \<open>vdev_draid_map_alloc_write\<close>: the loop over the data columns, then
  \<open>rm->rm_cols = rm->rm_scols\<close>. The \<open>ASSERT\<close>s are not modelled.
\<close>

function vdev_draid_map_alloc_write_loop ::
  "u64 \<Rightarrow> u64 \<Rightarrow> raidz_map \<Rightarrow> nat \<Rightarrow> u64 \<Rightarrow> error + raidz_map" where
  "vdev_draid_map_alloc_write_loop skip_size parity_size rm c abd_off =
     (if c < unat (rm_scols rm) then
        (if length (rm_col rm) \<le> c then Inl OUT_OF_BOUNDS
         else
           (let rc = rm_col rm ! c;
                a = (if rm_skipstart rm = 0 \<or> c < unat (rm_skipstart rm)
                     then ABD_IO abd_off (rc_size rc)
                     else if c < unat (rm_cols rm)
                     then ABD_GANG [ABD_IO abd_off (rc_size rc), ABD_ZEROS skip_size]
                     else ABD_ZEROS skip_size)
            in vdev_draid_map_alloc_write_loop skip_size parity_size
                 (rm\<lparr>rm_col := (rm_col rm)[c := rc\<lparr>rc_abd := Some a, rc_size := parity_size\<rparr>]\<rparr>)
                 (c + 1) (abd_off + rc_size rc)))
      else Inr rm)"
  by pat_completeness auto
termination
  by (relation "measure (\<lambda>(skip_size, parity_size, rm, c, abd_off). unat (rm_scols rm) - c)") auto

definition vdev_draid_map_alloc_write :: "vdev \<Rightarrow> zio \<Rightarrow> raidz_map \<Rightarrow> error + raidz_map" where
  "vdev_draid_map_alloc_write vd zio rm =
     (if 64 \<le> vdev_ashift vd then Inl BAD_SHIFT
      else if rm_col rm = [] then Inl OUT_OF_BOUNDS
      else
        (let skip_size = push_bit (unat (vdev_ashift vd)) 1;
             parity_size = rc_size (rm_col rm ! 0)
         in case vdev_draid_map_alloc_write_loop skip_size parity_size rm
                   (unat (rm_firstdatacol rm)) 0 of
              Inl e \<Rightarrow> Inl e
            | Inr rm' \<Rightarrow> Inr (rm'\<lparr>rm_cols := rm_scols rm'\<rparr>)))"

text \<open>
  \<open>vdev_draid_map_alloc_scrub\<close>. \<open>skip_idx\<close> is an \<open>int\<close>: the 64-bit difference is cut to
  32 bits and sign-extended again for the multiplication with \<open>skip_size\<close>.
\<close>

function vdev_draid_map_alloc_scrub_loop ::
  "u64 \<Rightarrow> raidz_map \<Rightarrow> nat \<Rightarrow> u64 \<Rightarrow> error + raidz_map" where
  "vdev_draid_map_alloc_scrub_loop skip_size rm c abd_off =
     (if c < unat (rm_scols rm) then
        (if length (rm_col rm) \<le> c then Inl OUT_OF_BOUNDS
         else
           (let rc = rm_col rm ! c;
                skip_idx = (scast (ucast (of_nat c - rm_skipstart rm :: u64) :: 32 word) :: u64);
                a = (if rm_skipstart rm = 0 \<or> c < unat (rm_skipstart rm)
                     then ABD_IO abd_off (rc_size rc)
                     else if c < unat (rm_cols rm)
                     then ABD_GANG [ABD_IO abd_off (rc_size rc),
                                    ABD_SKIP (skip_idx * skip_size) skip_size]
                     else ABD_SKIP (skip_idx * skip_size) skip_size)
            in vdev_draid_map_alloc_scrub_loop skip_size
                 (rm\<lparr>rm_col := (rm_col rm)[c := rc\<lparr>rc_abd := Some a, rc_size := abd_get_size a\<rparr>]\<rparr>)
                 (c + 1) (abd_off + rc_size rc)))
      else Inr rm)"
  by pat_completeness auto
termination
  by (relation "measure (\<lambda>(skip_size, rm, c, abd_off). unat (rm_scols rm) - c)") auto

definition vdev_draid_map_alloc_scrub :: "vdev \<Rightarrow> zio \<Rightarrow> raidz_map \<Rightarrow> error + raidz_map" where
  "vdev_draid_map_alloc_scrub vd zio rm =
     (if 64 \<le> vdev_ashift vd then Inl BAD_SHIFT
      else
        (let skip_size = push_bit (unat (vdev_ashift vd)) 1;
             rm1 = rm\<lparr>rm_abd_skip := Some (ABD_LINEAR (rm_nskip rm * skip_size))\<rparr>
         in case vdev_draid_map_alloc_scrub_loop skip_size rm1 (unat (rm_firstdatacol rm1)) 0 of
              Inl e \<Rightarrow> Inl e
            | Inr rm' \<Rightarrow> Inr (rm'\<lparr>rm_cols := rm_scols rm'\<rparr>)))"

text \<open>\<open>vdev_draid_map_alloc_read\<close>.\<close>

function vdev_draid_map_alloc_read_loop :: "raidz_map \<Rightarrow> nat \<Rightarrow> u64 \<Rightarrow> error + raidz_map" where
  "vdev_draid_map_alloc_read_loop rm c abd_off =
     (if c < unat (rm_cols rm) then
        (if length (rm_col rm) \<le> c then Inl OUT_OF_BOUNDS
         else
           (let rc = rm_col rm ! c
            in vdev_draid_map_alloc_read_loop
                 (rm\<lparr>rm_col := (rm_col rm)[c := rc\<lparr>rc_abd := Some (ABD_IO abd_off (rc_size rc))\<rparr>]\<rparr>)
                 (c + 1) (abd_off + rc_size rc)))
      else Inr rm)"
  by pat_completeness auto
termination
  by (relation "measure (\<lambda>(rm, c, abd_off). unat (rm_cols rm) - c)") auto

definition vdev_draid_map_alloc_read :: "zio \<Rightarrow> raidz_map \<Rightarrow> error + raidz_map" where
  "vdev_draid_map_alloc_read zio rm =
     vdev_draid_map_alloc_read_loop rm (unat (rm_firstdatacol rm)) 0"

text \<open>
  The column loop of \<open>vdev_draid_map_alloc\<close>: device index, offset and size of column
  \<open>i\<close>, with the running \<open>physical_offset\<close> and \<open>asize\<close>.
\<close>

function vdev_draid_map_alloc_loop ::
  "vdev_draid_config \<Rightarrow> nat \<Rightarrow> nat \<Rightarrow> u64 \<Rightarrow> u64 \<Rightarrow> u64 \<Rightarrow> u64 \<Rightarrow> u64 \<Rightarrow> u64 \<Rightarrow>
   nat \<Rightarrow> u64 \<Rightarrow> u64 \<Rightarrow> raidz_col list \<Rightarrow> error + raidz_col list \<times> u64" where
  "vdev_draid_map_alloc_loop vdc ashift base iter groupstart wrap q bc cols i
       physical_offset asize acc =
     (if i < unat (vdc_groupwidth vdc) then
        (if vdc_ndisks vdc = 0 then Inl DIV_BY_ZERO
         else
           (let c = (groupstart + of_nat i) mod vdc_ndisks vdc;
                physical_offset' = (if of_nat i = wrap then physical_offset + VDEV_DRAID_ROWSIZE
                                    else physical_offset)
            in case vdev_draid_permute_id vdc base iter c of
                 Inl e \<Rightarrow> Inl e
               | Inr devidx \<Rightarrow>
                   (let sz = (if cols \<le> of_nat i then 0
                              else if of_nat i < bc then push_bit ashift (q + 1)
                              else push_bit ashift q)
                    in vdev_draid_map_alloc_loop vdc ashift base iter groupstart wrap q bc cols
                         (i + 1) physical_offset' (asize + sz)
                         (acc @ [\<lparr>rc_devidx = devidx, rc_offset = physical_offset',
                                  rc_size = sz, rc_abd = None\<rparr>]))))
      else Inr (acc, asize))"
  by pat_completeness auto
termination
  by (relation "measure (\<lambda>(vdc, ashift, base, iter, groupstart, wrap, q, bc, cols, i, rest).
        unat (vdc_groupwidth vdc) - i)") auto

text \<open>
  \<open>vdev_draid_map_alloc\<close> up to the computation of \<open>rm_asize\<close> and \<open>rm_nskip\<close>, before any
  buffer is attached. The \<open>ASSERT\<close>s and \<open>IMPLY\<close> are not modelled.
\<close>

definition vdev_draid_map_alloc_init :: "vdev \<Rightarrow> zio \<Rightarrow> error + raidz_map" where
  "vdev_draid_map_alloc_init vd zio =
     (case vdev_draid_logical_to_physical vd (io_offset zio) of
        Inl e \<Rightarrow> Inl e
      | Inr (physical_offset, perm, groupstart) \<Rightarrow>
          (case vdev_tsd vd of
             TSD_DRAID vdc \<Rightarrow>
               (let ndisks = vdc_ndisks vdc;
                    groupwidth = vdc_groupwidth vdc;
                    wrap = (if groupstart + groupwidth > ndisks then ndisks - groupstart
                            else groupwidth);
                    ashift = unat (vdev_ashift vd);
                    psize = drop_bit ashift (io_size zio)
                in
                if vdc_ndata vdc = 0 then Inl DIV_BY_ZERO
                else
                  (let q = psize div vdc_ndata vdc;
                       r = psize - q * vdc_ndata vdc;
                       bc = (if r = 0 then 0 else r + vdc_nparity vdc);
                       tot = psize + (vdc_nparity vdc * (q + (if r = 0 then 0 else 1)));
                       cols = (if q = 0 then bc else groupwidth)
                   in case vdev_draid_get_perm vdc perm of
                        Inl e \<Rightarrow> Inl e
                      | Inr (base, iter) \<Rightarrow>
                          (case vdev_draid_map_alloc_loop vdc ashift base iter groupstart wrap
                                  q bc cols 0 physical_offset 0 [] of
                             Inl e \<Rightarrow> Inl e
                           | Inr (col, asize) \<Rightarrow>
                               if push_bit ashift groupwidth = 0 \<or> groupwidth = 0
                               then Inl DIV_BY_ZERO
                               else Inr \<lparr>rm_cols = cols, rm_scols = groupwidth,
                                         rm_bigcols = bc,
                                         rm_asize = roundup asize (push_bit ashift groupwidth),
                                         rm_nskip = roundup tot groupwidth - tot,
                                         rm_skipstart = bc,
                                         rm_firstdatacol = vdc_nparity vdc,
                                         rm_abd_skip = None, rm_col = col\<rparr>)))
           | _ \<Rightarrow> Inl BAD_POINTER))"

text \<open>The buffers of the parity columns: \<open>abd_alloc_linear(rc->rc_size, B_TRUE)\<close>.\<close>

function vdev_draid_map_alloc_parity :: "raidz_map \<Rightarrow> nat \<Rightarrow> error + raidz_map" where
  "vdev_draid_map_alloc_parity rm c =
     (if c < unat (rm_firstdatacol rm) then
        (if length (rm_col rm) \<le> c then Inl OUT_OF_BOUNDS
         else
           (let rc = rm_col rm ! c
            in vdev_draid_map_alloc_parity
                 (rm\<lparr>rm_col := (rm_col rm)[c := rc\<lparr>rc_abd := Some (ABD_LINEAR (rc_size rc))\<rparr>]\<rparr>)
                 (c + 1)))
      else Inr rm)"
  by pat_completeness auto
termination
  by (relation "measure (\<lambda>(rm, c). unat (rm_firstdatacol rm) - c)") auto

text \<open>\<open>vdev_draid_map_alloc\<close>, for the I/O \<open>zio\<close> on the vdev \<open>vd = zio->io_vd\<close>.\<close>

definition vdev_draid_map_alloc :: "vdev \<Rightarrow> zio \<Rightarrow> error + raidz_map" where
  "vdev_draid_map_alloc vd zio =
     (case vdev_draid_map_alloc_init vd zio of
        Inl e \<Rightarrow> Inl e
      | Inr rm0 \<Rightarrow>
          (case vdev_draid_map_alloc_parity rm0 0 of
             Inl e \<Rightarrow> Inl e
           | Inr rm \<Rightarrow>
               if io_type zio = ZIO_TYPE_WRITE then vdev_draid_map_alloc_write vd zio rm
               else if rm_nskip rm > 0 \<and>
                       (ZIO_FLAG_SCRUB \<in> io_flags zio \<or> ZIO_FLAG_RESILVER \<in> io_flags zio)
               then vdev_draid_map_alloc_scrub vd zio rm
               else vdev_draid_map_alloc_read zio rm))"

text \<open>\<open>vdev_draid_offset_to_group\<close> and \<open>vdev_draid_group_to_offset\<close>.\<close>

definition vdev_draid_offset_to_group :: "vdev \<Rightarrow> u64 \<Rightarrow> error + u64" where
  "vdev_draid_offset_to_group vd offset =
     (case vdev_tsd vd of
        TSD_DRAID vdc \<Rightarrow>
          if vdc_groupsz vdc = 0 then Inl DIV_BY_ZERO else Inr (offset div vdc_groupsz vdc)
      | _ \<Rightarrow> Inl BAD_POINTER)"

definition vdev_draid_group_to_offset :: "vdev \<Rightarrow> u64 \<Rightarrow> error + u64" where
  "vdev_draid_group_to_offset vd grp =
     (case vdev_tsd vd of
        TSD_DRAID vdc \<Rightarrow> Inr (grp * vdc_groupsz vdc)
      | _ \<Rightarrow> Inl BAD_POINTER)"

section \<open>Well-formed configurations and I/Os\<close>

text \<open>
  What \<open>vdev_draid_config_create\<close> and \<open>alloc_map\<close> establish for an open dRAID vdev, as far
  as the mapping functions depend on it: the derived constants \<open>groupwidth = ndata + nparity\<close>
  and \<open>groupsz = groupwidth * VDEV_DRAID_ROWSIZE\<close>, the asserted \<open>groupwidth <= ndisks\<close>, at
  most 255 children (the table of maps has no entry beyond), a sector no larger than a
  row, and a permutation array of \<open>children * nperms\<close> bytes.
\<close>

definition draid_config_ok :: "vdev \<Rightarrow> vdev_draid_config \<Rightarrow> bool" where
  "draid_config_ok vd vdc =
     (vdev_tsd vd = TSD_DRAID vdc
      \<and> unat (vdev_ashift vd) \<le> VDEV_DRAID_ROWSHIFT
      \<and> 0 < unat (vdc_ndata vdc)
      \<and> unat (vdc_groupwidth vdc) = unat (vdc_ndata vdc) + unat (vdc_nparity vdc)
      \<and> unat (vdc_groupwidth vdc) \<le> unat (vdc_ndisks vdc)
      \<and> unat (vdc_ndisks vdc) \<le> unat (vdc_children vdc)
      \<and> unat (vdc_children vdc) \<le> 255
      \<and> vdc_groupsz vdc = vdc_groupwidth vdc * VDEV_DRAID_ROWSIZE
      \<and> vdc_ngroups vdc \<noteq> 0
      \<and> dm_children (vdc_map vdc) = vdc_children vdc
      \<and> dm_nperms (vdc_map vdc) \<noteq> 0
      \<and> unat (vdc_children vdc) * unat (dm_nperms (vdc_map vdc)) < 2 ^ 64
      \<and> length (dm_perms (vdc_map vdc)) =
          unat (vdc_children vdc) * unat (dm_nperms (vdc_map vdc)))"

text \<open>Row \<open>r\<close> of a permutation map, as natural numbers.\<close>

definition perm_row :: "draid_map \<Rightarrow> nat \<Rightarrow> nat list" where
  "perm_row m r =
     map unat (take (unat (dm_children m)) (drop (r * unat (dm_children m)) (dm_perms m)))"

text \<open>Every row of the map is a permutation of \<open>0 .. children - 1\<close>.\<close>

definition rows_are_permutations :: "draid_map \<Rightarrow> bool" where
  "rows_are_permutations m =
     list_all (\<lambda>r. set (perm_row m r) = {..< unat (dm_children m)} \<and> distinct (perm_row m r))
       [0 ..< unat (dm_nperms m)]"

text \<open>
  The I/O lies within one group (the condition that \<open>vdev_draid_io_start\<close> asserts) and
  does not run past the end of the 64-bit address space.
\<close>

definition io_in_one_group :: "vdev \<Rightarrow> zio \<Rightarrow> bool" where
  "io_in_one_group vd zio =
     (unat (io_offset zio) + unat (io_size zio) \<le> 2 ^ 64
      \<and> vdev_draid_offset_to_group vd (io_offset zio) =
          vdev_draid_offset_to_group vd (io_offset zio + io_size zio - 1))"

text \<open>A write of \<open>sz\<close> zero bytes at offset \<open>off\<close>.\<close>

definition zio_write :: "u64 \<Rightarrow> u64 \<Rightarrow> zio" where
  "zio_write off sz = \<lparr>io_type = ZIO_TYPE_WRITE, io_cmd = DKIOC_OTHER 0, io_flags = {},
     io_offset = off, io_size = sz, io_abd = replicate (unat sz) 0, io_error = None\<rparr>"

text \<open>A read of \<open>sz\<close> bytes at offset \<open>off\<close>, with no flag set.\<close>

definition zio_read :: "u64 \<Rightarrow> u64 \<Rightarrow> zio" where
  "zio_read off sz = \<lparr>io_type = ZIO_TYPE_READ, io_cmd = DKIOC_OTHER 0, io_flags = {},
     io_offset = off, io_size = sz, io_abd = replicate (unat sz) 0, io_error = None\<rparr>"

section \<open>Validation and generation of permutation maps\<close>

text \<open>
  \<open>check_map\<close>. The loop counters \<open>i\<close> and \<open>j\<close> are \<open>int\<close>s in the source and are modelled by
  their values, which are never negative; \<open>i++\<close> and \<open>j++\<close> at \<open>INT_MAX\<close> have no defined
  result. In \<open>i < nperms\<close> and \<open>j < children\<close> the counter is converted to 64 bits.
  \<open>counts\<close> is the zero-filled array of \<open>children\<close> 16-bit counters. In \<open>counts[val] != i\<close>
  the counter is widened to \<open>int\<close>, so the comparison is one of numbers. The index
  \<open>(i * children) + j\<close> is computed in 64 bits.

  The inner loop over the columns \<open>j\<close> of row \<open>i\<close>:
\<close>

function check_map_row :: "draid_map \<Rightarrow> nat \<Rightarrow> nat \<Rightarrow> u16 list \<Rightarrow> error + u16 list" where
  "check_map_row m i j counts =
     (if j < unat (dm_children m) then
        (let idx = unat (of_nat i * dm_children m + of_nat j :: u64) in
         if length (dm_perms m) \<le> idx then Inl OUT_OF_BOUNDS
         else
           (let val = dm_perms m ! idx in
            if ucast val \<ge> dm_children m \<or> unat (counts ! unat val) \<noteq> i
            then Inl EINVAL
            else if j = INT_MAX then Inl INT_OVERFLOW
            else check_map_row m i (j + 1) (counts[unat val := counts ! unat val + 1])))
      else Inr counts)"
  by pat_completeness auto
termination
  by (relation "measure (\<lambda>(m, i, j, counts). unat (dm_children m) - j)") auto

text \<open>The outer loop over the rows \<open>i\<close>.\<close>

function check_map_rows :: "draid_map \<Rightarrow> nat \<Rightarrow> u16 list \<Rightarrow> error + u16 list" where
  "check_map_rows m i counts =
     (if i < unat (dm_nperms m) then
        (case check_map_row m i 0 counts of
           Inl e \<Rightarrow> Inl e
         | Inr counts' \<Rightarrow>
             if i = INT_MAX then Inl INT_OVERFLOW else check_map_rows m (i + 1) counts')
      else Inr counts)"
  by pat_completeness auto
termination
  by (relation "measure (\<lambda>(m, i, counts). unat (dm_nperms m) - i)") auto

text \<open>
  \<open>check_map\<close> itself. \<open>fletcher_4_native_varsize\<close> is not in the sources at hand: the
  parameter \<open>fletcher\<close> stands for the first word \<open>zc_word[0]\<close> of the checksum it computes
  over the first \<open>children * nperms\<close> bytes of \<open>dm_perms\<close>.
\<close>

definition check_map :: "(u8 list \<Rightarrow> u64) \<Rightarrow> draid_map \<Rightarrow> error + unit" where
  "check_map fletcher m =
     (case check_map_rows m 0 (replicate (unat (dm_children m)) 0) of
        Inl e \<Rightarrow> Inl e
      | Inr counts \<Rightarrow>
          if dm_checksum m \<noteq> 0 \<and>
             dm_checksum m \<noteq>
               fletcher (take (unat (dm_children m * dm_nperms m)) (dm_perms m))
          then Inl ECKSUM
          else Inr ())"

definition VDEV_DRAID_SEED :: u64 where
  "VDEV_DRAID_SEED = 0xd7a1d5eed"

text \<open>
  The Fisher-Yates pass of \<open>vdev_draid_generate_map\<close> over one row, for \<open>j\<close> from
  \<open>children - 1\<close> down to 1. \<open>vdev_draid_rand\<close> is not in the sources at hand: the parameter
  \<open>rand\<close> maps the two-word seed to the number drawn and the new seed.
\<close>

fun shuffle_row ::
  "(u64 \<times> u64 \<Rightarrow> u64 \<times> u64 \<times> u64) \<Rightarrow> nat \<Rightarrow> u8 list \<Rightarrow> u64 \<times> u64 \<Rightarrow> u8 list \<times> u64 \<times> u64" where
  "shuffle_row rand 0 row seed = (row, seed)"
| "shuffle_row rand (Suc j) row seed =
     (case rand seed of
        (x, seed') \<Rightarrow>
          (let k = unat (x mod (of_nat (Suc j) + 1));
               val = row ! Suc j
           in shuffle_row rand j (row[Suc j := row ! k, k := val]) seed'))"

text \<open>The rows of the map: each row is the shuffled copy of the previous one.\<close>

fun generate_rows ::
  "(u64 \<times> u64 \<Rightarrow> u64 \<times> u64 \<times> u64) \<Rightarrow> nat \<Rightarrow> nat \<Rightarrow> u8 list \<Rightarrow> u64 \<times> u64 \<Rightarrow> u8 list" where
  "generate_rows rand children 0 previous_row seed = []"
| "generate_rows rand children (Suc n) previous_row seed =
     (case shuffle_row rand (children - 1) previous_row seed of
        (current_row, seed') \<Rightarrow>
          current_row @ generate_rows rand children n current_row seed')"

text \<open>
  The map as it stands in \<open>vdev_draid_generate_map\<close> when the shuffle loops are done:
  \<open>alloc_map\<close> has set the four scalar fields, the loops have written the rows.
\<close>

definition generated_map ::
  "(u64 \<times> u64 \<Rightarrow> u64 \<times> u64 \<times> u64) \<Rightarrow> u64 \<Rightarrow> u64 \<Rightarrow> u64 \<Rightarrow> u64 \<Rightarrow> draid_map" where
  "generated_map rand children map_seed checksum nperms =
     (let initial_row = map of_nat [0 ..< unat children]
      in \<lparr>dm_children = children, dm_nperms = nperms, dm_seed = map_seed,
          dm_checksum = checksum,
          dm_perms = generate_rows rand (unat children) (unat nperms) initial_row
                       (VDEV_DRAID_SEED, map_seed)\<rparr>)"

text \<open>
  Modelled from the spec: \<open>VDEV_DRAID_MAX_CHILDREN\<close> is not defined in the sources at hand;
  the spec gives \<open>MAX_CHILDREN = 255\<close>.
\<close>

definition VDEV_DRAID_MAX_CHILDREN :: u64 where
  "VDEV_DRAID_MAX_CHILDREN = 255"

text \<open>
  \<open>vdev_draid_generate_map\<close>; the result is the map \<open>*mapp\<close>. \<open>in_kernel\<close> tells whether the
  code is compiled with \<open>_KERNEL\<close> defined: then the four \<open>VERIFY3U\<close> come first. The
  row size \<open>rowsz\<close> and the counters \<open>i\<close> and \<open>j\<close> are \<open>int\<close>s: when \<open>children\<close> or \<open>nperms\<close>
  exceeds \<open>INT_MAX\<close>, the loops \<open>for (int i = 0; i < children; i++)\<close> and
  \<open>for (int i = 0; i < nperms; i++)\<close> increment \<open>i\<close> past \<open>INT_MAX\<close>, which has no defined
  result. Otherwise the \<open>int\<close>s hold the numbers exactly, \<open>children * nperms\<close> does not
  wrap, and the map is \<open>generated_map\<close>.
\<close>

definition vdev_draid_generate_map ::
  "bool \<Rightarrow> (u64 \<times> u64 \<Rightarrow> u64 \<times> u64 \<times> u64) \<Rightarrow> (u8 list \<Rightarrow> u64) \<Rightarrow>
   u64 \<Rightarrow> u64 \<Rightarrow> u64 \<Rightarrow> u64 \<Rightarrow> error + draid_map" where
  "vdev_draid_generate_map in_kernel rand fletcher children map_seed checksum nperms =
     (if in_kernel \<and> (children < 2 \<or> VDEV_DRAID_MAX_CHILDREN < children
                   \<or> map_seed = 0 \<or> checksum = 0)
      then Inl PANIC
      else if INT_MAX < unat children \<or> INT_MAX < unat nperms then Inl INT_OVERFLOW
      else
        (let m = generated_map rand children map_seed checksum nperms
         in case check_map fletcher m of
              Inl e \<Rightarrow> Inl e
            | Inr u \<Rightarrow> Inr m))"

text \<open>A map of \<open>n\<close> rows for two children, every row being \<open>0, 1\<close>.\<close>

definition map_identity_2 :: "nat \<Rightarrow> draid_map" where
  "map_identity_2 n = \<lparr>dm_children = 2, dm_nperms = of_nat n, dm_seed = 1, dm_checksum = 0,
     dm_perms = concat (replicate n [0, 1])\<rparr>"

section \<open>I/O to a distributed spare\<close>

text \<open>
  The parts of ZFS that the distributed spare uses and that are not in the sources at
  hand: the macro \<open>VDEV_OFFSET_IS_LABEL\<close>, the sizes \<open>VDEV_LABEL_START_SIZE\<close> and
  \<open>VDEV_LABEL_END_SIZE\<close> of the label areas, and the predicates \<open>vdev_readable\<close> and
  \<open>vdev_writeable\<close>. They are parameters of the model.
\<close>

record zfs_params =
  VDEV_OFFSET_IS_LABEL :: "vdev \<Rightarrow> u64 \<Rightarrow> bool"
  VDEV_LABEL_START_SIZE :: u64
  VDEV_LABEL_END_SIZE :: u64
  vdev_readable :: "vdev \<Rightarrow> bool"
  vdev_writeable :: "vdev \<Rightarrow> bool"

text \<open>
  \<open>vdev_draid_spare_get_child\<close>. The result is \<open>None\<close> when the recursion through the
  distributed spares does not end; otherwise it is a fault or the pointer returned, which is
  \<open>None\<close> for \<open>NULL\<close>. The \<open>ASSERT\<close>s are not modelled; a \<open>vdev_tsd\<close> that holds a dRAID
  configuration where the code expects the state of a spare, or the reverse, is a bad pointer.
  The value returned by \<open>vdev_draid_get_perm\<close> is not looked at by the code; its faults are
  those of the division inside.
\<close>

partial_function (option) vdev_draid_spare_get_child ::
  "zfs_params \<Rightarrow> vdev_store \<Rightarrow> vdev \<Rightarrow> u64 \<Rightarrow> (error + vdev_ptr option) option" where
  "vdev_draid_spare_get_child env st vd physical_offset =
     (case vdev_tsd vd of
        TSD_NULL \<Rightarrow> Some (Inr None)
      | TSD_DRAID x \<Rightarrow> Some (Inl BAD_POINTER)
      | TSD_SPARE vds \<Rightarrow>
          if physical_offset \<ge>
               vdev_psize vd - (VDEV_LABEL_START_SIZE env + VDEV_LABEL_END_SIZE env)
          then Some (Inr None)
          else
            (case st (vds_draid_vdev vds) of
               None \<Rightarrow> Some (Inl BAD_POINTER)
             | Some tvd \<Rightarrow>
                 (case vdev_tsd tvd of
                    TSD_DRAID vdc \<Rightarrow>
                      if vdc_devslicesz vdc = 0 then Some (Inl DIV_BY_ZERO)
                      else
                        (case vdev_draid_get_perm vdc
                                (physical_offset div vdc_devslicesz vdc) of
                           Inl e \<Rightarrow> Some (Inl e)
                         | Inr (base, iter) \<Rightarrow>
                             (case vdev_draid_permute_id vdc base iter
                                     ((vdev_children tvd - 1) - vds_spare_id vds) of
                                Inl e \<Rightarrow> Some (Inl e)
                              | Inr cid \<Rightarrow>
                                  if length (vdev_child tvd) \<le> unat cid
                                  then Some (Inl OUT_OF_BOUNDS)
                                  else
                                    (case st (vdev_child tvd ! unat cid) of
                                       None \<Rightarrow> Some (Inl BAD_POINTER)
                                     | Some cvd \<Rightarrow>
                                         if vdev_ops cvd = VDEV_DRAID_SPARE_OPS
                                         then vdev_draid_spare_get_child env st cvd
                                                physical_offset
                                         else Some (Inr (Some (vdev_child tvd ! unat cid))))))
                  | TSD_NULL \<Rightarrow> Some (Inl BAD_POINTER)
                  | TSD_SPARE x \<Rightarrow> Some (Inl BAD_POINTER))))"

text \<open>
  A child I/O as \<open>zio_vdev_child_io\<close> makes it and \<open>zio_nowait\<close> issues it: the child vdev,
  the offset, the buffer, the size and the type. Its completion callback is always
  \<open>vdev_draid_spare_child_done\<close> and its parent the I/O itself.
\<close>

record child_io =
  cio_vd :: vdev_ptr
  cio_offset :: u64
  cio_abd :: "u8 list"
  cio_size :: u64
  cio_type :: zio_type

text \<open>How \<open>vdev_draid_spare_io_start\<close> hands the I/O back: \<open>zio_interrupt\<close> or \<open>zio_execute\<close>.\<close>

datatype zio_next = ZIO_INTERRUPT | ZIO_EXECUTE

text \<open>
  \<open>vdev_draid_spare_ioctl\<close>: the value returned (\<open>None\<close> for 0) and the child I/Os issued,
  one for every \<open>vd->vdev_child[c]\<close> in order. The counter \<open>c\<close> is an \<open>int\<close>.
\<close>

definition vdev_draid_spare_ioctl :: "vdev \<Rightarrow> zio \<Rightarrow> error + error option \<times> child_io list" where
  "vdev_draid_spare_ioctl vd zio =
     (if io_cmd zio = DKIOCFLUSHWRITECACHE then
        (if INT_MAX < length (vdev_child vd) then Inl INT_OVERFLOW
         else Inr (None,
                map (\<lambda>c. \<lparr>cio_vd = c, cio_offset = io_offset zio, cio_abd = io_abd zio,
                           cio_size = io_size zio, cio_type = io_type zio\<rparr>)
                    (vdev_child vd)))
      else Inr (Some ENOTSUP, []))"

text \<open>
  The block that the write, read and trim cases of \<open>vdev_draid_spare_io_start\<close> share:
  resolve the child \<open>cvd\<close> for \<open>offset\<close>; when it is \<open>NULL\<close> or not \<open>usable\<close>
  (\<open>vdev_writeable\<close>, \<open>vdev_readable\<close>, \<open>cvd->vdev_has_trim\<close>) set \<open>io_error\<close> to \<open>ENXIO\<close>,
  otherwise issue the child I/O.
\<close>

definition spare_child_io ::
  "zfs_params \<Rightarrow> vdev_store \<Rightarrow> vdev \<Rightarrow> zio \<Rightarrow> u64 \<Rightarrow> (vdev \<Rightarrow> bool) \<Rightarrow>
   (error + zio \<times> child_io list) option" where
  "spare_child_io env st vd zio offset usable =
     (case vdev_draid_spare_get_child env st vd offset of
        None \<Rightarrow> None
      | Some (Inl e) \<Rightarrow> Some (Inl e)
      | Some (Inr None) \<Rightarrow> Some (Inr (zio\<lparr>io_error := Some ENXIO\<rparr>, []))
      | Some (Inr (Some p)) \<Rightarrow>
          (case st p of
             None \<Rightarrow> Some (Inl BAD_POINTER)
           | Some cvd \<Rightarrow>
               if \<not> usable cvd then Some (Inr (zio\<lparr>io_error := Some ENXIO\<rparr>, []))
               else Some (Inr (zio,
                      [\<lparr>cio_vd = p, cio_offset = offset, cio_abd = io_abd zio,
                        cio_size = io_size zio, cio_type = io_type zio\<rparr>]))))"

text \<open>
  \<open>vdev_draid_spare_io_start\<close> for the I/O \<open>zio\<close> on the spare \<open>vd = zio->io_vd\<close>: the I/O
  as the function leaves it, the child I/Os it has issued, and the way it hands the I/O
  back. \<open>None\<close> when the function does not return. The \<open>ASSERT0\<close> of the trim case is not
  modelled.
\<close>

definition vdev_draid_spare_io_start ::
  "zfs_params \<Rightarrow> vdev_store \<Rightarrow> vdev \<Rightarrow> zio \<Rightarrow>
   (error + zio \<times> child_io list \<times> zio_next) option" where
  "vdev_draid_spare_io_start env st vd zio =
     (let offset = io_offset zio - VDEV_LABEL_START_SIZE env;
          execute = (\<lambda>res. case res of
                       None \<Rightarrow> None
                     | Some (Inl e) \<Rightarrow> Some (Inl e)
                     | Some (Inr (z, cios)) \<Rightarrow> Some (Inr (z, cios, ZIO_EXECUTE)))
      in case vdev_tsd vd of
           TSD_NULL \<Rightarrow> Some (Inr (zio\<lparr>io_error := Some ENXIO\<rparr>, [], ZIO_INTERRUPT))
         | TSD_DRAID x \<Rightarrow> Some (Inl BAD_POINTER)
         | TSD_SPARE vds \<Rightarrow>
             (case io_type zio of
                ZIO_TYPE_IOCTL \<Rightarrow>
                  (case vdev_draid_spare_ioctl vd zio of
                     Inl e \<Rightarrow> Some (Inl e)
                   | Inr (err, cios) \<Rightarrow> Some (Inr (zio\<lparr>io_error := err\<rparr>, cios, ZIO_EXECUTE)))
              | ZIO_TYPE_WRITE \<Rightarrow>
                  if VDEV_OFFSET_IS_LABEL env vd (io_offset zio) then
                    (if ZIO_FLAG_PROBE \<in> io_flags zio \<or> ZIO_FLAG_CONFIG_WRITER \<in> io_flags zio
                     then Some (Inr (zio\<lparr>io_error := None\<rparr>, [], ZIO_EXECUTE))
                     else Some (Inr (zio\<lparr>io_error := Some EIO\<rparr>, [], ZIO_EXECUTE)))
                  else execute (spare_child_io env st vd zio offset (vdev_writeable env))
              | ZIO_TYPE_READ \<Rightarrow>
                  if VDEV_OFFSET_IS_LABEL env vd (io_offset zio) then
                    (if ZIO_FLAG_PROBE \<in> io_flags zio
                     then Some (Inr (zio\<lparr>io_error := None\<rparr>, [], ZIO_EXECUTE))
                     else Some (Inr (zio\<lparr>io_error := Some EIO\<rparr>, [], ZIO_EXECUTE)))
                  else execute (spare_child_io env st vd zio offset (vdev_readable env))
              | ZIO_TYPE_TRIM \<Rightarrow>
                  execute (spare_child_io env st vd zio offset vdev_has_trim)
              | ZIO_TYPE_NULL \<Rightarrow>
                  Some (Inr (zio\<lparr>io_error := Some ENOTSUP\<rparr>, [], ZIO_EXECUTE))
              | ZIO_TYPE_FREE \<Rightarrow>
                  Some (Inr (zio\<lparr>io_error := Some ENOTSUP\<rparr>, [], ZIO_EXECUTE))
              | ZIO_TYPE_CLAIM \<Rightarrow>
                  Some (Inr (zio\<lparr>io_error := Some ENOTSUP\<rparr>, [], ZIO_EXECUTE))))"

text \<open>
  Example parameters: label areas of 4 MiB at the start and 512 KiB at the end of the
  device, every vdev readable and writeable.
\<close>

definition params_ex :: zfs_params where
  "params_ex = \<lparr>VDEV_OFFSET_IS_LABEL =
        (\<lambda>vd off. off < 4194304 \<or> off \<ge> vdev_psize vd - 524288),
      VDEV_LABEL_START_SIZE = 4194304, VDEV_LABEL_END_SIZE = 524288,
      vdev_readable = (\<lambda>vd. True), vdev_writeable = (\<lambda>vd. True)\<rparr>"

text \<open>
  The dRAID of the layout picture at address 0 with its 14 children at the addresses 1 to
  14, all of them disks that opened with 1 GiB and without trim support; and its first
  distributed spare, of 1 GiB.
\<close>

definition store_14 :: vdev_store where
  "store_14 = (\<lambda>p. if p = 0 then Some draid_14
     else if 1 \<le> p \<and> p \<le> 14 then Some disk_1g else None)"

definition spare_14 :: vdev where
  "spare_14 = vdev_zero\<lparr>vdev_ops := VDEV_DRAID_SPARE_OPS,
     vdev_tsd := TSD_SPARE \<lparr>vds_draid_vdev = 0, vds_spare_id = 0\<rparr>,
     vdev_psize := 1073741824\<rparr>"

text \<open>An I/O of the given type and flags for one 4 KiB sector of ones at offset \<open>off\<close>.\<close>

definition zio_sector :: "zio_type \<Rightarrow> zio_flag set \<Rightarrow> u64 \<Rightarrow> zio" where
  "zio_sector t fl off = \<lparr>io_type = t, io_cmd = DKIOC_OTHER 0, io_flags = fl,
     io_offset = off, io_size = 4096, io_abd = replicate 4096 1, io_error = None\<rparr>"

section \<open>Opening a top-level dRAID vdev\<close>

text \<open>The errno values among the error values; the others are faults of the C code.\<close>

definition is_errno :: "error \<Rightarrow> bool" where
  "is_errno e = (e = EINVAL \<or> e = ECKSUM \<or> e = ENOENT \<or> e = ENXIO \<or> e = EIO \<or> e = ENOTSUP)"

text \<open>
  \<open>vdev_draid_config_create\<close>: \<open>Inr None\<close> when it returns \<open>NULL\<close>. The two \<open>VERIFY3U\<close> are
  always compiled in; the \<open>ASSERT\<close>s are not modelled. \<open>vdc_devslicesz\<close> is a quotient by
  \<open>vdc_ndisks\<close>.
\<close>

definition vdev_draid_config_create ::
  "bool \<Rightarrow> (u64 \<times> u64 \<Rightarrow> u64 \<times> u64 \<times> u64) \<Rightarrow> (u8 list \<Rightarrow> u64) \<Rightarrow> vdev \<Rightarrow>
   error + vdev_draid_config option" where
  "vdev_draid_config_create in_kernel rand fletcher vd =
     (case vdev_draid_lookup_map (vdev_children vd) of
        Inl e \<Rightarrow> if is_errno e then Inr None else Inl e
      | Inr (map_seed, map_checksum, map_nperms) \<Rightarrow>
          if map_seed = 0 \<or> map_checksum = 0 then Inl PANIC
          else
            (case vdev_draid_generate_map in_kernel rand fletcher (vdev_children vd)
                    map_seed map_checksum map_nperms of
               Inl e \<Rightarrow> if is_errno e then Inr None else Inl e
             | Inr m \<Rightarrow>
                 (let groupwidth = vdev_ndata vd + vdev_nparity vd;
                      ndisks = vdev_children vd - vdev_nspares vd;
                      groupsz = groupwidth * VDEV_DRAID_ROWSIZE
                  in if ndisks = 0 then Inl DIV_BY_ZERO
                     else Inr (Some
                       \<lparr>vdc_ndata = vdev_ndata vd, vdc_nparity = vdev_nparity vd,
                        vdc_nspares = vdev_nspares vd, vdc_children = vdev_children vd,
                        vdc_ngroups = vdev_ngroups vd, vdc_map = m,
                        vdc_groupwidth = groupwidth, vdc_ndisks = ndisks,
                        vdc_groupsz = groupsz,
                        vdc_devslicesz = (groupsz * vdev_ngroups vd) div ndisks\<rparr>))))"

text \<open>\<open>vdev_draid_open_spares\<close> and \<open>vdev_draid_open_children\<close>.\<close>

definition vdev_draid_open_spares :: "vdev \<Rightarrow> bool" where
  "vdev_draid_open_spares vd =
     (vdev_ops vd = VDEV_DRAID_SPARE_OPS \<or> vdev_ops vd = VDEV_REPLACING_OPS
      \<or> vdev_ops vd = VDEV_SPARE_OPS)"

definition vdev_draid_open_children :: "vdev \<Rightarrow> bool" where
  "vdev_draid_open_children vd = (\<not> vdev_draid_open_spares vd)"

text \<open>
  Modelled from the spec: \<open>VDEV_RAIDZ_MAXPARITY\<close> is not defined in the sources at hand;
  the spec gives \<open>MAX_PARITY = 3\<close>.
\<close>

definition VDEV_RAIDZ_MAXPARITY :: u64 where
  "VDEV_RAIDZ_MAXPARITY = 3"

text \<open>
  The loop of \<open>vdev_draid_open\<close> that verifies that enough children are available:
  \<open>Inr True\<close> when it leaves the function with \<open>ENXIO\<close>. \<open>c\<close> and \<open>open_errors\<close> are \<open>int\<close>s;
  in \<open>(++open_errors) > nparity\<close> the counter is converted to 64 bits.
\<close>

fun vdev_draid_open_errors ::
  "u64 \<Rightarrow> vdev_store \<Rightarrow> vdev_ptr list \<Rightarrow> nat \<Rightarrow> nat \<Rightarrow> error + bool" where
  "vdev_draid_open_errors nparity st [] c open_errors = Inr False"
| "vdev_draid_open_errors nparity st (p # ps) c open_errors =
     (case st p of
        None \<Rightarrow> Inl BAD_POINTER
      | Some cvd \<Rightarrow>
          if vdev_open_error cvd \<noteq> 0 \<and> nparity < of_nat (open_errors + 1) then Inr True
          else if c = INT_MAX then Inl INT_OVERFLOW
          else vdev_draid_open_errors nparity st ps (c + 1)
                 (if vdev_open_error cvd \<noteq> 0 then open_errors + 1 else open_errors))"

text \<open>
  \<open>vdev_draid_open\<close>: the vdev and the store as the function leaves them, and the error or
  \<open>(*asize, *max_asize, *ashift)\<close>. \<open>vdev_open_children_subset\<close> is not in the sources at
  hand: the parameter \<open>open_subset\<close> gives the store after the call, for the vdev and the
  predicate that selects the children to open. The \<open>ASSERT\<close> of the reopen case is not
  modelled.
\<close>

definition vdev_draid_open ::
  "bool \<Rightarrow> (u64 \<times> u64 \<Rightarrow> u64 \<times> u64 \<times> u64) \<Rightarrow> (u8 list \<Rightarrow> u64) \<Rightarrow>
   (vdev_store \<Rightarrow> vdev \<Rightarrow> (vdev \<Rightarrow> bool) \<Rightarrow> vdev_store) \<Rightarrow> vdev_store \<Rightarrow> vdev \<Rightarrow>
   vdev \<times> vdev_store \<times> (error + u64 \<times> u64 \<times> u64)" where
  "vdev_draid_open in_kernel rand fletcher open_subset st vd =
     (let nparity = vdev_nparity vd
      in case (case vdev_tsd vd of
                 TSD_DRAID vdc \<Rightarrow> Inr (vd, vdc)
               | TSD_SPARE x \<Rightarrow> Inl (vd, BAD_POINTER)
               | TSD_NULL \<Rightarrow>
                   if nparity > VDEV_RAIDZ_MAXPARITY \<or> vdev_children vd < nparity + 1
                   then Inl (vd\<lparr>vs_aux := VDEV_AUX_BAD_LABEL\<rparr>, EINVAL)
                   else
                     (case vdev_draid_config_create in_kernel rand fletcher vd of
                        Inl e \<Rightarrow> Inl (vd, e)
                      | Inr None \<Rightarrow> Inl (vd, EINVAL)
                      | Inr (Some vdc) \<Rightarrow>
                          Inr (vd\<lparr>vdev_nspares := vdc_nspares vdc,
                                  vdev_ngroups := vdc_ngroups vdc,
                                  vdev_tsd := TSD_DRAID vdc\<rparr>, vdc))) of
           Inl (vd1, e) \<Rightarrow> (vd1, st, Inl e)
         | Inr (vd1, vdc) \<Rightarrow>
             (let st1 = open_subset (open_subset st vd1 vdev_draid_open_children) vd1
                          vdev_draid_open_spares
              in case vdev_draid_open_errors nparity st1 (vdev_child vd1) 0 0 of
                   Inl e \<Rightarrow> (vd1, st1, Inl e)
                 | Inr True \<Rightarrow> (vd1\<lparr>vs_aux := VDEV_AUX_NO_REPLICAS\<rparr>, st1, Inl ENXIO)
                 | Inr False \<Rightarrow>
                     (case vdev_draid_calculate_asize st1 vd1 of
                        Inl e \<Rightarrow> (vd1, st1, Inl e)
                      | Inr (child_asize, child_max_asize, ashift) \<Rightarrow>
                          if vdc_groupsz vdc = 0 then (vd1, st1, Inl DIV_BY_ZERO)
                          else
                            (let ca = (child_asize div VDEV_DRAID_ROWSIZE) * VDEV_DRAID_ROWSIZE;
                                 cma = (child_max_asize div VDEV_DRAID_ROWSIZE)
                                         * VDEV_DRAID_ROWSIZE
                             in (vd1, st1,
                                 Inr (((ca * vdc_ndisks vdc) div vdc_groupsz vdc)
                                        * vdc_groupsz vdc,
                                      ((cma * vdc_ndisks vdc) div vdc_groupsz vdc)
                                        * vdc_groupsz vdc,
                                      ashift))))))"

text \<open>
  A top-level dRAID vdev that is not open yet, with the three children at the addresses 1,
  2 and 3: two data disks and one parity disk in one group, no spare. The stores
  \<open>store_one_failed\<close> and \<open>store_two_failed\<close> hold its children as they are when all of
  them have been opened.
\<close>

definition draid_3 :: vdev where
  "draid_3 = top_3\<lparr>vdev_ndata := 2, vdev_ngroups := 1\<rparr>"

definition store_two_failed :: vdev_store where
  "store_two_failed = (\<lambda>p. if p = 0 then Some top_3 else if p = 1 \<or> p = 2 then Some disk_failed
     else if p = 3 then Some disk_1g else None)"

text \<open>
  The configuration that \<open>vdev_draid_config_create\<close> builds for \<open>draid_3\<close> when the map
  generated for the seed of the table is \<open>m\<close>.
\<close>

definition vdc_3 :: "draid_map \<Rightarrow> vdev_draid_config" where
  "vdc_3 m = \<lparr>vdc_ndata = 2, vdc_nparity = 1, vdc_nspares = 0, vdc_children = 3,
     vdc_ngroups = 1, vdc_map = m, vdc_groupwidth = 3, vdc_ndisks = 3,
     vdc_groupsz = 50331648, vdc_devslicesz = 16777216\<rparr>"

section \<open>Names of distributed spares\<close>

text \<open>
  The functions \<open>snprintf\<close> and \<open>sscanf\<close> of the C library are modelled as far as the two
  format strings of the source need them. Strings are the characters before the
  terminating NUL.

  A decimal digit, and the white space that \<open>isspace\<close> accepts in the C locale: space,
  and the characters 9 to 13.
\<close>

definition is_digit :: "char \<Rightarrow> bool" where
  "is_digit c = (48 \<le> (of_char c :: nat) \<and> (of_char c :: nat) \<le> 57)"

definition is_space :: "char \<Rightarrow> bool" where
  "is_space c = ((of_char c :: nat) = 32 \<or> (9 \<le> (of_char c :: nat) \<and> (of_char c :: nat) \<le> 13))"

text \<open>The conversion \<open>%llu\<close> of \<open>snprintf\<close>: the decimal digits of a number, without leading zeros.\<close>

function dec :: "nat \<Rightarrow> string" where
  "dec n = (if n < 10 then [char_of (48 + n)]
            else dec (n div 10) @ [char_of (48 + n mod 10)])"
  by pat_completeness auto
termination
  by (relation "measure id") auto

text \<open>The number that a sequence of decimal digits denotes.\<close>

definition digits_value :: "string \<Rightarrow> nat" where
  "digits_value ds = foldl (\<lambda>a c. a * 10 + ((of_char c :: nat) - 48)) 0 ds"

text \<open>
  The conversion \<open>%llu\<close> of \<open>sscanf\<close>: white space is skipped, then the longest sequence of
  an optional sign and decimal digits is taken and converted as \<open>strtoull\<close> does in base 10,
  a minus sign negating the value in 64 bits. The result is \<open>None\<close> for a matching failure
  (no digit), or the value and the rest of the input. A number that does not fit in 64 bits
  has no defined result.
\<close>

definition scan_llu :: "string \<Rightarrow> (error + u64 \<times> string) option" where
  "scan_llu s =
     (let s1 = dropWhile is_space s;
          neg = (s1 \<noteq> [] \<and> hd s1 = CHR ''-'');
          s2 = (if s1 \<noteq> [] \<and> (hd s1 = CHR ''-'' \<or> hd s1 = CHR ''+'') then tl s1 else s1);
          ds = takeWhile is_digit s2
      in if ds = [] then None
         else if 2 ^ 64 \<le> digits_value ds then Some (Inl OUT_OF_RANGE)
         else Some (Inr (if neg then - of_nat (digits_value ds) else of_nat (digits_value ds),
                         dropWhile is_digit s2)))"

text \<open>
  Modelled from the spec: \<open>VDEV_TYPE_DRAID\<close> is not defined in the sources at hand; the
  spec gives the names as \<open>draid<P>-<V>-<S>\<close>.
\<close>

definition VDEV_TYPE_DRAID :: string where
  "VDEV_TYPE_DRAID = ''draid''"

text \<open>
  \<open>vdev_draid_spare_name\<close>: the string left in the buffer \<open>name\<close> of \<open>len\<close> bytes.
  \<open>snprintf(name, len - 1, ...)\<close> writes at most \<open>len - 2\<close> characters and a NUL. For
  \<open>len <= 0\<close> the size given to \<open>bzero\<close> or to \<open>snprintf\<close> wraps to a huge \<open>size_t\<close> and the
  buffer is overrun.
\<close>

definition vdev_draid_spare_name :: "int \<Rightarrow> u64 \<Rightarrow> u64 \<Rightarrow> u64 \<Rightarrow> error + string" where
  "vdev_draid_spare_name len spare_id parity vdev_id =
     (if len \<le> 0 then Inl OUT_OF_BOUNDS
      else Inr (take (nat (len - 2))
                  (VDEV_TYPE_DRAID @ dec (unat parity) @ ''-'' @ dec (unat vdev_id) @ ''-''
                     @ dec (unat spare_id))))"

text \<open>
  \<open>vdev_draid_spare_values\<close>: \<open>sscanf\<close> with the format \<open>draid%llu-%llu-%llu\<close> must convert
  three numbers. The characters of the format other than the conversions must be the next
  characters of the input. The result is \<open>(*spare_id, *parity, *vdev_id)\<close>.
\<close>

definition vdev_draid_spare_values :: "string \<Rightarrow> error + u64 \<times> u64 \<times> u64" where
  "vdev_draid_spare_values name =
     (if take (length VDEV_TYPE_DRAID) name \<noteq> VDEV_TYPE_DRAID then Inl EINVAL
      else
        (case scan_llu (drop (length VDEV_TYPE_DRAID) name) of
           None \<Rightarrow> Inl EINVAL
         | Some (Inl e) \<Rightarrow> Inl e
         | Some (Inr (parity, s1)) \<Rightarrow>
             if s1 = [] \<or> hd s1 \<noteq> CHR ''-'' then Inl EINVAL
             else
               (case scan_llu (tl s1) of
                  None \<Rightarrow> Inl EINVAL
                | Some (Inl e) \<Rightarrow> Inl e
                | Some (Inr (vdev_id, s2)) \<Rightarrow>
                    if s2 = [] \<or> hd s2 \<noteq> CHR ''-'' then Inl EINVAL
                    else
                      (case scan_llu (tl s2) of
                         None \<Rightarrow> Inl EINVAL
                       | Some (Inl e) \<Rightarrow> Inl e
                       | Some (Inr (spare_id, s3)) \<Rightarrow> Inr (spare_id, parity, vdev_id)))))"

section \<open>Properties of the capacity calculation\<close>

lemma MIN_u64_wrap:
  "MIN_u64 (a - 1) (b - 1) + 1 = (if a = 0 then b else if b = 0 then a else min a b)"
proof -
  have dec: "unat (x - 1) = unat x - 1" if "x \<noteq> 0" for x :: u64
    using that by (simp add: unat_minus_one)
  have top: "x - 1 < - 1" if "x \<noteq> 0" for x :: u64
  proof -
    have "x - 1 \<noteq> - 1" using that by simp
    moreover have "x - 1 \<le> - 1" by simp
    ultimately show ?thesis by (simp only: less_le) simp
  qed
  show ?thesis
  proof (cases "a = 0")
    case True
    then show ?thesis
      by (auto simp: MIN_u64_def not_less)
  next
    case a: False
    show ?thesis
    proof (cases "b = 0")
      case True
      then show ?thesis using a top [OF a] by (simp add: MIN_u64_def)
    next
      case b: False
      have "unat a \<noteq> 0" "unat b \<noteq> 0"
        using a b by (simp_all add: unat_eq_0)
      then have "(a - 1 < b - 1) = (a < b)"
        using dec [OF a] dec [OF b] by (simp add: word_less_nat_alt) arith
      then show ?thesis using a b by (auto simp: MIN_u64_def min_def)
    qed
  qed
qed

lemma least_nonzero_Cons:
  "least_nonzero (a # xs) = (if a = 0 then least_nonzero xs else if least_nonzero xs = 0 then a else min a (least_nonzero xs))"
proof -
  let ?ys = "filter (\<lambda>x. x \<noteq> 0) xs"
  have nz: "Min (set ?ys) \<noteq> 0" if "?ys \<noteq> []"
  proof -
    have "set ?ys \<noteq> {}" using that by (simp only: set_empty not_False_eq_True)
    then have "Min (set ?ys) \<in> set ?ys" by (intro Min_in) (rule finite_set)
    then show ?thesis by simp
  qed
  show ?thesis
  proof (cases "?ys = []")
    case True
    then show ?thesis by (simp add: least_nonzero_def)
  next
    case False
    then have ne: "set ?ys \<noteq> {}" by (simp only: set_empty not_False_eq_True)
    have ins: "Min (insert a (set ?ys)) = min a (Min (set ?ys))"
      by (rule Min_insert [OF finite_set ne])
    show ?thesis using False nz [OF False] ins
      by (simp add: least_nonzero_def Let_def del: Min_insert)
  qed
qed

lemma least_nonzero_step:
  "least_nonzero ((MIN_u64 (a - 1) (b - 1) + 1) # xs) = least_nonzero (a # b # xs)"
  by (auto simp: MIN_u64_wrap least_nonzero_Cons min_def)

lemma MAX_u64_max: "MAX_u64 a b = max a b"
  by (auto simp: MAX_u64_def max_def)

lemma calculate_asize_loop_eq:
  "vdev_draid_calculate_asize_loop cvds (a, m, s) =
     (least_nonzero (a # map vdev_asize (non_spare cvds)),
      least_nonzero (m # map vdev_max_asize (non_spare cvds)),
      fold max (map vdev_ashift (non_spare cvds)) s)"
proof (induction cvds arbitrary: a m s)
  case Nil
  then show ?case by (simp add: non_spare_def least_nonzero_def)
next
  case (Cons cvd cvds)
  show ?case
  proof (cases "vdev_ops cvd = VDEV_DRAID_SPARE_OPS")
    case True
    then show ?thesis using Cons.IH by (simp add: non_spare_def)
  next
    case False
    show ?thesis using False Cons.IH
      by (simp add: non_spare_def least_nonzero_step MAX_u64_max max.commute)
  qed
qed

lemma least_nonzero_all_nonzero:
  "xs \<noteq> [] \<Longrightarrow> \<forall>x \<in> set xs. x \<noteq> 0 \<Longrightarrow> least_nonzero (0 # xs) = Min (set xs)"
  by (simp add: least_nonzero_def filter_id_conv)

lemma fold_max_zero:
  "xs \<noteq> [] \<Longrightarrow> fold max xs (0 :: u64) = Max (set xs)"
proof -
  assume "xs \<noteq> []"
  then obtain y ys where xs: "xs = y # ys" by (cases xs) auto
  have "fold max xs 0 = fold max ys y" by (simp add: xs)
  also have "\<dots> = Max (set (y # ys))" by (rule Max.set_eq_fold [symmetric])
  finally show ?thesis by (simp only: xs)
qed

text \<open>
  Claim C10, as amended. When every child pointer is valid and at least one child is not a
  distributed spare, \<open>vdev_draid_calculate_asize\<close> returns: as \<open>asize\<close> the least non-zero
  \<open>vdev_asize\<close> of the non-spare children (0 when all are 0), likewise for \<open>max_asize\<close>,
  and as \<open>ashift\<close> the greatest \<open>vdev_ashift\<close> of the non-spare children. The expression
  \<open>MIN(asize - 1, cvd->vdev_asize - 1) + 1\<close> wraps 0 to \<open>2^64 - 1\<close>, so a size of 0 never wins
  a comparison, be it the initial accumulator or a child's size. When no non-spare child has
  size 0 the result is the minimum over the non-spare children.
\<close>

theorem calculate_asize_ignores_zero:
  assumes "vdev_child_list st vd = Some cvds" and "non_spare cvds \<noteq> []"
  shows "\<exists>a m s. vdev_draid_calculate_asize st vd = Inr (a, m, s)
     \<and> a = least_nonzero (map vdev_asize (non_spare cvds))
     \<and> m = least_nonzero (map vdev_max_asize (non_spare cvds))
     \<and> s = Max (set (map vdev_ashift (non_spare cvds)))
     \<and> ((\<forall>c \<in> set (non_spare cvds). vdev_asize c \<noteq> 0) \<longrightarrow>
          a = Min (set (map vdev_asize (non_spare cvds))))
     \<and> ((\<forall>c \<in> set (non_spare cvds). vdev_max_asize c \<noteq> 0) \<longrightarrow>
          m = Min (set (map vdev_max_asize (non_spare cvds))))"
proof -
  let ?ns = "non_spare cvds"
  have run: "vdev_draid_calculate_asize st vd =
      Inr (least_nonzero (map vdev_asize ?ns), least_nonzero (map vdev_max_asize ?ns),
           fold max (map vdev_ashift ?ns) 0)"
    using assms(1)
    by (simp add: vdev_draid_calculate_asize_def calculate_asize_loop_eq least_nonzero_Cons)
  have sh: "fold max (map vdev_ashift ?ns) 0 = Max (set (map vdev_ashift ?ns))"
    using assms(2) by (intro fold_max_zero) simp
  have a: "least_nonzero (map vdev_asize ?ns) = Min (set (map vdev_asize ?ns))"
    if "\<forall>c \<in> set ?ns. vdev_asize c \<noteq> 0"
    using least_nonzero_all_nonzero [of "map vdev_asize ?ns"] that assms(2)
    by (simp add: least_nonzero_Cons)
  have m: "least_nonzero (map vdev_max_asize ?ns) = Min (set (map vdev_max_asize ?ns))"
    if "\<forall>c \<in> set ?ns. vdev_max_asize c \<noteq> 0"
    using least_nonzero_all_nonzero [of "map vdev_max_asize ?ns"] that assms(2)
    by (simp add: least_nonzero_Cons)
  show ?thesis using run sh a m by simp
qed

lemma disk_1g_fields:
  "vdev_ops disk_1g = VDEV_OTHER_OPS" "vdev_asize disk_1g = 1073741824"
  "vdev_max_asize disk_1g = 2147483648" "vdev_ashift disk_1g = 12"
  "vdev_open_error disk_1g = 0" "vdev_has_trim disk_1g = False"
  by (simp_all add: disk_1g_def vdev_zero_def)

lemma disk_failed_fields:
  "vdev_ops disk_failed = VDEV_OTHER_OPS" "vdev_asize disk_failed = 0"
  "vdev_max_asize disk_failed = 0" "vdev_ashift disk_failed = 0"
  "vdev_open_error disk_failed = 6"
  by (simp_all add: disk_failed_def vdev_zero_def)

lemma ex_children_healthy: "vdev_child_list store_healthy top_3 = Some [disk_1g, disk_1g, disk_1g]"
  by (simp add: vdev_child_list_def store_healthy_def top_3_def vdev_zero_def)

lemma ex_children_failed: "vdev_child_list store_one_failed top_3 = Some [disk_failed, disk_1g, disk_1g]"
  by (simp add: vdev_child_list_def store_one_failed_def top_3_def vdev_zero_def)

text \<open>Three healthy disks of 1 GiB: all hypotheses hold and the minimum is returned.\<close>

theorem calculate_asize_ignores_zero_witness:
  "vdev_child_list store_healthy top_3 = Some [disk_1g, disk_1g, disk_1g]
   \<and> non_spare [disk_1g, disk_1g, disk_1g] \<noteq> []
   \<and> non_spare [disk_1g, disk_1g, disk_1g] = [disk_1g, disk_1g, disk_1g]
   \<and> vdev_asize disk_1g \<noteq> 0 \<and> vdev_max_asize disk_1g \<noteq> 0
   \<and> vdev_draid_calculate_asize store_healthy top_3 = Inr (1073741824, 2147483648, 12)"
proof -
  let ?cs = "[disk_1g, disk_1g, disk_1g]"
  have ns: "non_spare ?cs = ?cs"
    by (simp add: non_spare_def disk_1g_fields)
  have ne: "non_spare ?cs \<noteq> []"
    by (simp add: ns)
  have nz: "\<forall>c \<in> set (non_spare ?cs). vdev_asize c \<noteq> 0"
    and nzm: "\<forall>c \<in> set (non_spare ?cs). vdev_max_asize c \<noteq> 0"
    by (simp_all add: ns disk_1g_fields)
  obtain a m s where r: "vdev_draid_calculate_asize store_healthy top_3 = Inr (a, m, s)"
    and s: "s = Max (set (map vdev_ashift (non_spare ?cs)))"
    and a: "a = Min (set (map vdev_asize (non_spare ?cs)))"
    and m: "m = Min (set (map vdev_max_asize (non_spare ?cs)))"
    using calculate_asize_ignores_zero [OF ex_children_healthy ne] nz nzm by blast
  have "a = 1073741824" "m = 2147483648" "s = 12"
    unfolding a m s ns by (simp_all add: disk_1g_fields)
  then show ?thesis using r ex_children_healthy ns by (simp add: disk_1g_fields)
qed

text \<open>
  Claim C10 as stated fails: with one child whose open failed (its \<open>vdev_asize\<close> is still 0)
  and two disks of 1 GiB, the minimum \<open>vdev_asize\<close> over the non-spare children is 0, but
  the function returns 1 GiB.
\<close>

theorem calculate_asize_minimum_counterexample:
  "vdev_child_list store_one_failed top_3 = Some [disk_failed, disk_1g, disk_1g]
   \<and> non_spare [disk_failed, disk_1g, disk_1g] = [disk_failed, disk_1g, disk_1g]
   \<and> vdev_draid_calculate_asize store_one_failed top_3 = Inr (1073741824, 2147483648, 12)
   \<and> Min (set (map vdev_asize [disk_failed, disk_1g, disk_1g])) = 0"
  by (simp add: ex_children_failed vdev_draid_calculate_asize_def non_spare_def
      disk_failed_fields disk_1g_fields MIN_u64_def MAX_u64_def)

section \<open>Properties of the size conversions\<close>

lemma unat_shl:
  fixes x :: u64
  assumes "unat x * 2 ^ n < 2 ^ 64"
  shows "unat (push_bit n x) = unat x * 2 ^ n"
proof -
  have "x = word_of_nat (unat x)" by simp
  then have "push_bit n x = (word_of_nat (push_bit n (unat x)) :: u64)"
    by (metis push_bit_of_nat)
  then have "unat (push_bit n x) = push_bit n (unat x) mod 2 ^ LENGTH(64)"
    by (simp only: unat_of_nat)
  also have "push_bit n (unat x) = unat x * 2 ^ n" by (rule push_bit_eq_mult)
  finally have "unat (push_bit n x) = unat x * 2 ^ n mod 2 ^ 64" by simp
  then show ?thesis using assms by (simp only: mod_less)
qed

lemma unat_mult_u64:
  fixes x y :: u64
  assumes "unat x * unat y < 2 ^ 64"
  shows "unat (x * y) = unat x * unat y"
  using assms unat_mult_lem [of x y] by simp

lemma unat_add_u64:
  fixes x y :: u64
  assumes "unat x + unat y < 2 ^ 64"
  shows "unat (x + y) = unat x + unat y"
  using assms unat_add_lem [of x y] by simp

lemma unat_u64_less: "unat (x :: u64) < 2 ^ 64"
  using unsigned_less [of x] by simp

lemma ceil_div: "0 < (p::nat) \<Longrightarrow> 0 < d \<Longrightarrow> (p + d - 1) div d = (p - 1) div d + 1"
proof -
  assume "0 < p" "0 < d"
  then have "p + d - 1 = (p - 1) + d" by simp
  then show ?thesis using \<open>0 < d\<close> by (simp only: div_add_self2)
qed

lemma div_pred_mult: "0 < (d::nat) \<Longrightarrow> 0 < r \<Longrightarrow> (r * d - 1) div d = r - 1"
proof -
  assume d: "0 < d" and r: "0 < r"
  obtain k where k: "r = Suc k" using r by (cases r) auto
  have "d * k \<le> Suc k * d - 1" using d by (simp add: mult.commute)
  moreover have "Suc k * d - 1 < d * Suc k" using d by (simp add: mult.commute)
  ultimately have "(Suc k * d - 1) div d = k" by (rule div_nat_eqI)
  then show ?thesis by (simp add: k)
qed

lemma draid_asize_unat:
  assumes tsd: "vdev_tsd vd = TSD_DRAID vdc"
    and sh: "vdev_ashift vd < 64"
    and p: "psize \<noteq> 0"
    and d: "0 < unat (vdc_ndata vdc)" "unat (vdc_ndata vdc) * 2 ^ unat (vdev_ashift vd) < 2 ^ 64"
    and fit: "((unat psize - 1) div (unat (vdc_ndata vdc) * 2 ^ unat (vdev_ashift vd)) + 1)
        * unat (vdc_groupwidth vdc) * 2 ^ unat (vdev_ashift vd) < 2 ^ 64"
  shows "\<exists>a. vdev_draid_asize vd psize = Inr a \<and>
     unat a = ((unat psize - 1) div (unat (vdc_ndata vdc) * 2 ^ unat (vdev_ashift vd)) + 1)
        * unat (vdc_groupwidth vdc) * 2 ^ unat (vdev_ashift vd)"
proof -
  let ?s = "unat (vdev_ashift vd)"
  let ?d = "unat (vdc_ndata vdc) * 2 ^ ?s"
  let ?dw = "push_bit ?s (vdc_ndata vdc)"
  let ?rows = "(unat psize - 1) div ?d + 1"
  let ?rw = "(psize - 1) div ?dw + 1"
  have dw: "unat ?dw = ?d" using d(2) by (rule unat_shl)
  have dpos: "0 < ?d" using d(1) by simp
  then have dw0: "?dw \<noteq> 0" using dw by (metis unat_0 less_numeral_extra(3))
  have pm: "unat (psize - 1) = unat psize - 1" using p by (simp add: unat_minus_one)
  have q: "unat ((psize - 1) div ?dw) = (unat psize - 1) div ?d"
    by (simp add: unat_div dw pm)
  have "(unat psize - 1) div ?d \<le> unat psize - 1" by (rule div_le_dividend)
  moreover have "unat psize < 2 ^ 64" by (rule unat_u64_less)
  moreover have "0 < unat psize" using p by (simp add: unat_gt_0)
  ultimately have "(unat psize - 1) div ?d + 1 < 2 ^ 64" by linarith
  then have rw: "unat ?rw = ?rows"
    using q by (simp add: unat_add_u64)
  have "?rows * unat (vdc_groupwidth vdc) * 1 \<le> ?rows * unat (vdc_groupwidth vdc) * 2 ^ ?s"
    by (rule mult_le_mono2) simp
  then have "?rows * unat (vdc_groupwidth vdc) < 2 ^ 64" using fit
    by (simp only: mult_1_right le_less_trans)
  then have rg: "unat (?rw * vdc_groupwidth vdc) = ?rows * unat (vdc_groupwidth vdc)"
    using rw by (simp add: unat_mult_u64)
  have "unat (push_bit ?s (?rw * vdc_groupwidth vdc)) = ?rows * unat (vdc_groupwidth vdc) * 2 ^ ?s"
    using fit rg by (simp add: unat_shl)
  moreover have "vdev_draid_asize vd psize = Inr (push_bit ?s (?rw * vdc_groupwidth vdc))"
    using tsd sh dw0 by (simp add: vdev_draid_asize_def Let_def not_le)
  ultimately show ?thesis by simp
qed

lemma draid_14_fields:
  "vdev_tsd draid_14 = TSD_DRAID vdc_14" "vdev_ashift draid_14 = 12"
  "vdev_ops draid_14 = VDEV_DRAID_OPS" "vdev_child draid_14 = [1 ..< 15]"
  "vdev_nparity draid_14 = 1"
  by (simp_all add: draid_14_def vdev_zero_def)

lemma vdc_14_fields:
  "vdc_ndata vdc_14 = 8" "vdc_nparity vdc_14 = 1" "vdc_nspares vdc_14 = 2"
  "vdc_children vdc_14 = 14" "vdc_ngroups vdc_14 = 4" "vdc_map vdc_14 = map_14"
  "vdc_groupwidth vdc_14 = 9" "vdc_ndisks vdc_14 = 12" "vdc_groupsz vdc_14 = 150994944"
  "vdc_devslicesz vdc_14 = 50331648"
  by (simp_all add: vdc_14_def)

text \<open>
  Claim C3, as amended. For a dRAID vdev with \<open>ashift < 64\<close>, \<open>0 < ndata \<le> groupwidth\<close>,
  and every \<open>psize > 0\<close> for which \<open>ceil(psize / (ndata * 2^ashift)) * groupwidth * 2^ashift\<close>
  fits in 64 bits, \<open>vdev_draid_asize\<close> returns exactly that number. Moreover
  \<open>vdev_draid_asize_to_psize\<close> maps the result to a size \<open>p\<close> on which \<open>vdev_draid_asize\<close>
  gives the same result again: \<open>asize(asize_to_psize(asize(psize))) = asize(psize)\<close>, and in
  particular for every \<open>psize\<close> that is its own image.
\<close>

theorem draid_asize_formula:
  assumes tsd: "vdev_tsd vd = TSD_DRAID vdc"
    and sh: "vdev_ashift vd < 64"
    and p: "psize \<noteq> 0"
    and nd: "vdc_ndata vdc \<noteq> 0" "vdc_ndata vdc \<le> vdc_groupwidth vdc"
    and fit: "((unat psize + unat (vdc_ndata vdc) * 2 ^ unat (vdev_ashift vd) - 1)
          div (unat (vdc_ndata vdc) * 2 ^ unat (vdev_ashift vd)))
        * unat (vdc_groupwidth vdc) * 2 ^ unat (vdev_ashift vd) < 2 ^ 64"
  shows "\<exists>a p. vdev_draid_asize vd psize = Inr a
     \<and> unat a = ((unat psize + unat (vdc_ndata vdc) * 2 ^ unat (vdev_ashift vd) - 1)
          div (unat (vdc_ndata vdc) * 2 ^ unat (vdev_ashift vd)))
        * unat (vdc_groupwidth vdc) * 2 ^ unat (vdev_ashift vd)
     \<and> vdev_draid_asize_to_psize vd a = Inr p
     \<and> vdev_draid_asize vd p = Inr a"
proof -
  define s where "s = unat (vdev_ashift vd)"
  define n where "n = unat (vdc_ndata vdc)"
  define g where "g = unat (vdc_groupwidth vdc)"
  define d where "d = n * 2 ^ s"
  define rows where "rows = (unat psize - 1) div d + 1"
  have npos: "0 < n" using nd(1) by (simp add: n_def unat_gt_0)
  have ng: "n \<le> g" using nd(2) by (simp add: n_def g_def word_le_nat_alt)
  have gpos: "0 < g" using npos ng by simp
  have dpos: "0 < d" using npos by (simp add: d_def)
  have ppos: "0 < unat psize" using p by (simp add: unat_gt_0)
  have ceil: "(unat psize + d - 1) div d = rows"
    unfolding rows_def using ppos dpos by (rule ceil_div)
  have fit': "rows * g * 2 ^ s < 2 ^ 64"
    using fit ceil by (simp add: s_def n_def g_def d_def)
  have rpos: "1 \<le> rows" by (simp add: rows_def)
  have "d = 1 * n * 2 ^ s" by (simp add: d_def)
  also have "\<dots> \<le> rows * g * 2 ^ s"
    by (intro mult_le_mono rpos ng) simp
  finally have dfit: "d < 2 ^ 64" using fit' by simp
  obtain a where a: "vdev_draid_asize vd psize = Inr a" and ua: "unat a = rows * g * 2 ^ s"
    using draid_asize_unat [OF tsd sh p] npos dfit fit'
    unfolding s_def n_def g_def d_def rows_def by blast
  have gw0: "vdc_groupwidth vdc \<noteq> 0" using gpos by (auto simp: g_def)
  let ?p = "(a div vdc_groupwidth vdc) * vdc_ndata vdc"
  have p': "vdev_draid_asize_to_psize vd a = Inr ?p"
    using tsd gw0 by (simp add: vdev_draid_asize_to_psize_def)
  have "unat (a div vdc_groupwidth vdc) = (rows * g * 2 ^ s) div g"
    by (simp add: unat_div ua g_def)
  also have "\<dots> = rows * 2 ^ s"
    using gpos by (simp add: mult.assoc mult.left_commute [of g])
  finally have udiv: "unat (a div vdc_groupwidth vdc) = rows * 2 ^ s" .
  have "rows * 2 ^ s * n \<le> rows * 2 ^ s * g" using ng by (rule mult_le_mono2)
  also have "\<dots> = rows * g * 2 ^ s" by (simp add: mult.commute mult.left_commute)
  finally have "rows * 2 ^ s * n \<le> rows * g * 2 ^ s" .
  then have "rows * 2 ^ s * n < 2 ^ 64" using fit' by (rule le_less_trans)
  then have up: "unat ?p = rows * d"
    using udiv by (simp add: unat_mult_u64 n_def [symmetric] d_def mult.commute mult.left_commute)
  have "0 < rows * d" using rpos dpos by simp
  then have p0: "?p \<noteq> 0" using up by (metis unat_0 less_numeral_extra(3))
  have "(rows * d - 1) div d = rows - 1"
    using dpos rpos by (intro div_pred_mult) simp_all
  then have rows': "(unat ?p - 1) div d + 1 = rows" using up rpos by simp
  have fit'': "((unat ?p - 1) div d + 1) * g * 2 ^ s < 2 ^ 64" using fit' rows' by simp
  obtain a' where a': "vdev_draid_asize vd ?p = Inr a'" and ua': "unat a' = rows * g * 2 ^ s"
    using draid_asize_unat [OF tsd sh p0] npos dfit fit'' rows'
    unfolding s_def n_def g_def d_def by auto
  have "a' = a" using ua ua' by (simp add: word_unat_eq_iff)
  then show ?thesis using a ua p' a' ceil
    unfolding s_def n_def g_def d_def by auto
qed

text \<open>One 4 KiB sector on the 8+1 dRAID: 36864 bytes are allocated, which hold 32768.\<close>

theorem draid_asize_formula_witness:
  "vdev_tsd draid_14 = TSD_DRAID vdc_14 \<and> vdev_ashift draid_14 < 64 \<and> (4096 :: u64) \<noteq> 0
   \<and> vdc_ndata vdc_14 \<noteq> 0 \<and> vdc_ndata vdc_14 \<le> vdc_groupwidth vdc_14
   \<and> vdev_draid_asize draid_14 4096 = Inr 36864
   \<and> vdev_draid_asize_to_psize draid_14 36864 = Inr 32768
   \<and> vdev_draid_asize draid_14 32768 = Inr 36864"
proof -
  have h: "vdev_tsd draid_14 = TSD_DRAID vdc_14" "vdev_ashift draid_14 < 64" "(4096 :: u64) \<noteq> 0"
    "vdc_ndata vdc_14 \<noteq> 0" "vdc_ndata vdc_14 \<le> vdc_groupwidth vdc_14"
    by (simp_all add: draid_14_fields vdc_14_fields)
  have fit: "((unat (4096 :: u64) + unat (vdc_ndata vdc_14) * 2 ^ unat (vdev_ashift draid_14) - 1)
          div (unat (vdc_ndata vdc_14) * 2 ^ unat (vdev_ashift draid_14)))
        * unat (vdc_groupwidth vdc_14) * 2 ^ unat (vdev_ashift draid_14) < 2 ^ 64"
    by (simp add: draid_14_fields vdc_14_fields)
  obtain a p where a: "vdev_draid_asize draid_14 4096 = Inr a"
    and ua: "unat a = ((unat (4096 :: u64) + unat (vdc_ndata vdc_14) * 2 ^ unat (vdev_ashift draid_14) - 1)
          div (unat (vdc_ndata vdc_14) * 2 ^ unat (vdev_ashift draid_14)))
        * unat (vdc_groupwidth vdc_14) * 2 ^ unat (vdev_ashift draid_14)"
    and p: "vdev_draid_asize_to_psize draid_14 a = Inr p"
    and rt: "vdev_draid_asize draid_14 p = Inr a"
    using draid_asize_formula [OF h fit] by blast
  have "unat a = unat (36864 :: u64)" using ua by (simp add: draid_14_fields vdc_14_fields)
  then have a36: "a = 36864" by (simp only: word_unat_eq_iff)
  have "vdev_draid_asize_to_psize draid_14 36864 = Inr 32768"
    by (simp add: vdev_draid_asize_to_psize_def draid_14_fields vdc_14_fields)
  then have "p = 32768" using p a36 by simp
  then show ?thesis using h a p rt a36 by simp
qed

text \<open>
  Claim C3 as stated fails at \<open>psize = 0\<close>: \<open>psize - 1\<close> wraps to \<open>2^64 - 1\<close> and the result is
  \<open>2^61\<close>, where the formula of the claim gives 0.
\<close>

theorem draid_asize_zero_counterexample:
  "vdev_draid_asize draid_14 0 = Inr 2305843009213693952
   \<and> ((unat (0 :: u64) + unat (vdc_ndata vdc_14) * 2 ^ unat (vdev_ashift draid_14) - 1)
          div (unat (vdc_ndata vdc_14) * 2 ^ unat (vdev_ashift draid_14)))
        * unat (vdc_groupwidth vdc_14) * 2 ^ unat (vdev_ashift draid_14) = 0"
  by (simp add: vdev_draid_asize_def draid_14_fields vdc_14_fields)

section \<open>Properties of the map lookup\<close>

lemma draid_maps_length: "length draid_maps = 254"
  by (simp add: draid_maps_def)

lemma draid_maps_children: "map dm_children draid_maps = map of_nat [2 ..< 256]"
  by (simp add: draid_maps_def dm_def upt_rec_numeral)

lemma draid_maps_nperms: "list_all (\<lambda>d. dm_nperms d = 256) draid_maps"
  by (simp add: draid_maps_def dm_def)

lemma draid_maps_nth_children:
  assumes "i < 254"
  shows "dm_children (draid_maps ! i) = of_nat (i + 2)"
proof -
  have len: "i < length [2 ..< 256 :: nat]" using assms by (simp only: length_upt)
  have "dm_children (draid_maps ! i) = map dm_children draid_maps ! i"
    using assms by (simp add: draid_maps_length)
  also have "\<dots> = map of_nat [2 ..< 256] ! i"
    by (simp only: draid_maps_children)
  also have "\<dots> = of_nat ([2 ..< 256] ! i)"
    using len by (rule nth_map)
  also have "[2 ..< 256] ! i = 2 + i"
    by (rule nth_upt) (use assms in simp)
  finally show ?thesis by (simp only: add.commute)
qed

lemma draid_maps_nth_nperms:
  assumes "i < 254"
  shows "dm_nperms (draid_maps ! i) = 256"
  using draid_maps_nperms assms by (simp add: list_all_length draid_maps_length)

lemma children_entry_eq:
  assumes "i < 254"
  shows "(dm_children (draid_maps ! i) = c) = (unat c = i + 2)"
proof -
  have "(i + 2) mod 2 ^ LENGTH(64) = i + 2"
    using assms by simp
  then have "unat (of_nat (i + 2) :: u64) = i + 2"
    by (simp only: unat_of_nat)
  then show ?thesis
    using draid_maps_nth_children [OF assms] by (metis word_unat_eq_iff)
qed

lemma lookup_loop_found:
  assumes "2 \<le> unat c" "unat c \<le> 255" "i \<le> unat c - 2"
  shows "vdev_draid_lookup_map_loop c i =
     Inr (dm_seed (draid_maps ! (unat c - 2)), dm_checksum (draid_maps ! (unat c - 2)), 256)"
  using assms
proof (induction "unat c - 2 - i" arbitrary: i)
  case 0
  then have i: "i = unat c - 2" "i < 254" by simp_all
  then have "dm_children (draid_maps ! i) = c"
    using children_entry_eq [of i c] 0 by simp
  then show ?case using i draid_maps_nth_nperms [of i]
    by (subst vdev_draid_lookup_map_loop.simps)
      (simp add: VDEV_DRAID_MAX_MAPS_def draid_maps_length)
next
  case (Suc k)
  then have i: "i < unat c - 2" "i < 254" by simp_all
  then have "dm_children (draid_maps ! i) \<noteq> c"
    using children_entry_eq [of i c] by simp
  moreover have "vdev_draid_lookup_map_loop c (i + 1) =
     Inr (dm_seed (draid_maps ! (unat c - 2)), dm_checksum (draid_maps ! (unat c - 2)), 256)"
    using Suc by (intro Suc.hyps(1)) simp_all
  ultimately show ?case using i
    by (subst vdev_draid_lookup_map_loop.simps)
      (simp add: VDEV_DRAID_MAX_MAPS_def draid_maps_length)
qed

lemma lookup_loop_missing:
  assumes "unat c < 2 \<or> 255 < unat c" "i \<le> 254"
  shows "vdev_draid_lookup_map_loop c i = Inl OUT_OF_BOUNDS"
  using assms
proof (induction "254 - i" arbitrary: i)
  case 0
  then have "i = 254" by simp
  then show ?case
    by (subst vdev_draid_lookup_map_loop.simps)
      (simp add: VDEV_DRAID_MAX_MAPS_def draid_maps_length)
next
  case (Suc k)
  then have i: "i < 254" by simp
  then have "dm_children (draid_maps ! i) \<noteq> c"
    using children_entry_eq [of i c] Suc.prems(1) by auto
  moreover have "vdev_draid_lookup_map_loop c (i + 1) = Inl OUT_OF_BOUNDS"
    using Suc by (intro Suc.hyps(1)) simp_all
  ultimately show ?case using i
    by (subst vdev_draid_lookup_map_loop.simps)
      (simp add: VDEV_DRAID_MAX_MAPS_def draid_maps_length)
qed

text \<open>
  For a child count from 2 to 255 the loop stops at index \<open>children - 2\<close>, inside the table,
  and returns that entry's seed and checksum and 256 rows.
\<close>

lemma lookup_map_in_table:
  assumes "2 \<le> unat c" "unat c \<le> 255"
  shows "vdev_draid_lookup_map c =
     Inr (dm_seed (draid_maps ! (unat c - 2)), dm_checksum (draid_maps ! (unat c - 2)), 256)
     \<and> dm_children (draid_maps ! (unat c - 2)) = c"
  using lookup_loop_found [OF assms, of 0] children_entry_eq [of "unat c - 2" c] assms
  by (simp add: vdev_draid_lookup_map_def)

text \<open>For any other child count the loop reaches index 254, past the last entry.\<close>

lemma lookup_map_outside_table:
  assumes "unat c < 2 \<or> 255 < unat c"
  shows "vdev_draid_lookup_map c = Inl OUT_OF_BOUNDS"
  using lookup_loop_missing [OF assms, of 0] by (simp add: vdev_draid_lookup_map_def)

text \<open>
  Claim C5 at \<open>children = 1\<close>. The claim says that the lookup fails with \<open>ENOENT\<close> and that
  every access of the search loop stays inside the table of 254 entries. The loop condition
  \<open>i <= VDEV_DRAID_MAX_MAPS\<close> lets \<open>i\<close> reach 254, so \<open>draid_maps[254]\<close> is read, one entry
  past the end of the table, before \<open>ENOENT\<close> can be returned.
\<close>

theorem lookup_map_reads_past_table:
  "vdev_draid_lookup_map 1 = Inl OUT_OF_BOUNDS \<and> length draid_maps = 254"
  using lookup_loop_missing [of 1 0] by (simp add: vdev_draid_lookup_map_def draid_maps_length)

section \<open>Properties of the permutation lookup and of the raidz map\<close>

lemma unat_of_nat_u64: "n < 2 ^ 64 \<Longrightarrow> unat (of_nat n :: u64) = n"
  by (simp add: unat_of_nat)

lemma u64_neq_0_conv: "((x :: u64) \<noteq> 0) = (0 < unat x)"
  by (simp add: unat_gt_0)

lemma u64_eq_of_nat: "unat (x :: u64) = n \<Longrightarrow> x = of_nat n"
proof -
  assume "unat x = n"
  moreover have "x = of_nat (unat x)" by simp
  ultimately show ?thesis by (simp only:)
qed

lemma config_ok_facts:
  assumes "draid_config_ok vd vdc"
  shows "vdev_tsd vd = TSD_DRAID vdc"
    and "unat (vdev_ashift vd) \<le> 24"
    and "0 < unat (vdc_ndata vdc)"
    and "unat (vdc_groupwidth vdc) = unat (vdc_ndata vdc) + unat (vdc_nparity vdc)"
    and "unat (vdc_groupwidth vdc) \<le> unat (vdc_ndisks vdc)"
    and "unat (vdc_ndisks vdc) \<le> unat (vdc_children vdc)"
    and "unat (vdc_children vdc) \<le> 255"
    and "vdc_groupsz vdc = vdc_groupwidth vdc * VDEV_DRAID_ROWSIZE"
    and "vdc_ngroups vdc \<noteq> 0"
    and "dm_children (vdc_map vdc) = vdc_children vdc"
    and "0 < unat (dm_nperms (vdc_map vdc))"
    and "unat (vdc_children vdc) * unat (dm_nperms (vdc_map vdc)) < 2 ^ 64"
    and "length (dm_perms (vdc_map vdc)) =
          unat (vdc_children vdc) * unat (dm_nperms (vdc_map vdc))"
  using assms by (simp_all add: draid_config_ok_def VDEV_DRAID_ROWSHIFT_def u64_neq_0_conv)

lemma mod_mult_div: "0 < (c::nat) \<Longrightarrow> (p mod (c * n)) div c = (p div c) mod n"
  by (simp add: mod_mult2_eq)

lemma mod_mult_mod: "(p mod (c * n)) mod (c::nat) = p mod c"
  by (simp add: mod_mult2_eq)

lemma get_perm_ok:
  assumes ok: "draid_config_ok vd vdc"
  shows "vdev_draid_get_perm vdc pindex =
      Inr (((unat pindex div unat (vdc_children vdc)) mod unat (dm_nperms (vdc_map vdc)))
             * unat (vdc_children vdc),
           of_nat (unat pindex mod unat (vdc_children vdc)))"
proof -
  define C where "C = unat (vdc_children vdc)"
  define N where "N = unat (dm_nperms (vdc_map vdc))"
  define P where "P = unat pindex"
  let ?m = "dm_nperms (vdc_map vdc) * vdc_children vdc"
  note f = config_ok_facts [OF ok]
  have Cpos: "0 < C" using f(3,4,5,6) by (simp add: C_def)
  have Npos: "0 < N" using f(11) by (simp add: N_def)
  have CN: "C * N < 2 ^ 64" using f(12) by (simp add: C_def N_def)
  have um: "unat ?m = C * N"
    using CN by (simp add: unat_mult_u64 C_def N_def mult.commute)
  have "0 < C * N" using Cpos Npos by simp
  then have m0: "?m \<noteq> 0" using um by (simp add: u64_neq_0_conv)
  let ?poff = "pindex mod ?m"
  have "unat ?poff = unat pindex mod unat ?m" by (rule unat_mod)
  then have upoff: "unat ?poff = P mod (C * N)" by (simp only: um P_def)
  have "unat (?poff div vdc_children vdc) = unat ?poff div C"
    unfolding C_def by (rule unat_div)
  then have urow: "unat (?poff div vdc_children vdc) = (P div C) mod N"
    using Cpos by (simp only: upoff mod_mult_div)
  have "(P mod (C * N)) div C * C \<le> P mod (C * N)"
    by (rule div_times_less_eq_dividend)
  then have "(P div C) mod N * C \<le> P mod (C * N)"
    using Cpos by (simp only: mod_mult_div)
  also have "\<dots> < 2 ^ 64" using upoff unat_u64_less [of ?poff] by simp
  finally have "unat ((?poff div vdc_children vdc) * vdc_children vdc) = (P div C) mod N * C"
    using urow by (simp add: unat_mult_u64 C_def [symmetric])
  moreover have "unat (?poff mod vdc_children vdc) = unat ?poff mod C"
    unfolding C_def by (rule unat_mod)
  then have "unat (?poff mod vdc_children vdc) = P mod C"
    by (simp only: upoff mod_mult_mod)
  then have "?poff mod vdc_children vdc = of_nat (P mod C)"
    by (rule u64_eq_of_nat)
  ultimately show ?thesis using m0
    by (simp add: vdev_draid_get_perm_def Let_def C_def N_def P_def)
qed

lemma unat_u8_less: "unat (b :: u8) < 256"
  using unsigned_less [of b] by simp

lemma unat_ucast_u8: "unat (ucast (b :: u8) :: u64) = unat b"
proof -
  have "unat b < 2 ^ 64" using unat_u8_less [of b] by simp
  then have "take_bit 64 (unat b) = unat b" by (rule take_bit_nat_eq_self)
  then show ?thesis by (simp add: unsigned_ucast_eq)
qed

lemma perm_row_nth:
  assumes ok: "draid_config_ok vd vdc"
    and r: "r < unat (dm_nperms (vdc_map vdc))" and c: "c < unat (vdc_children vdc)"
  shows "r * unat (vdc_children vdc) + c < length (dm_perms (vdc_map vdc))"
    and "perm_row (vdc_map vdc) r ! c
       = unat (dm_perms (vdc_map vdc) ! (r * unat (vdc_children vdc) + c))"
    and "length (perm_row (vdc_map vdc) r) = unat (vdc_children vdc)"
proof -
  define C where "C = unat (vdc_children vdc)"
  define N where "N = unat (dm_nperms (vdc_map vdc))"
  note f = config_ok_facts [OF ok]
  have len: "length (dm_perms (vdc_map vdc)) = C * N" using f(13) by (simp add: C_def N_def)
  have "r * C + c < r * C + C" using c by (simp add: C_def)
  also have "\<dots> = C * Suc r" by simp
  also have "\<dots> \<le> C * N" using r by (intro mult_le_mono2) (simp add: N_def)
  finally have lt: "r * C + c < C * N" .
  then show "r * unat (vdc_children vdc) + c < length (dm_perms (vdc_map vdc))"
    by (simp add: len C_def)
  have "C * Suc r \<le> C * N" using r by (intro mult_le_mono2) (simp add: N_def)
  then have room: "C \<le> C * N - r * C" by (simp add: mult.commute)
  then show "length (perm_row (vdc_map vdc) r) = unat (vdc_children vdc)"
    by (simp add: perm_row_def f(10) len C_def [symmetric])
  show "perm_row (vdc_map vdc) r ! c
       = unat (dm_perms (vdc_map vdc) ! (r * unat (vdc_children vdc) + c))"
  proof -
    have "r * C \<le> r * C + c" by simp
    also have "\<dots> \<le> C * N" using lt by (rule less_imp_le)
    finally have "r * C \<le> length (dm_perms (vdc_map vdc))" by (simp only: len)
    then have "drop (r * C) (dm_perms (vdc_map vdc)) ! c = dm_perms (vdc_map vdc) ! (r * C + c)"
      by (rule nth_drop)
    then show ?thesis using c room
      by (simp add: perm_row_def f(10) len C_def [symmetric])
  qed
qed

lemma permute_id_ok:
  assumes ok: "draid_config_ok vd vdc"
    and r: "r < unat (dm_nperms (vdc_map vdc))" and c: "c < unat (vdc_children vdc)"
    and it: "it < unat (vdc_children vdc)"
  shows "vdev_draid_permute_id vdc (r * unat (vdc_children vdc)) (of_nat it) (of_nat c)
     = Inr (of_nat ((perm_row (vdc_map vdc) r ! c + it) mod unat (vdc_children vdc)))"
proof -
  define C where "C = unat (vdc_children vdc)"
  note f = config_ok_facts [OF ok]
  note p = perm_row_nth [OF ok r c]
  let ?b = "dm_perms (vdc_map vdc) ! (r * C + c)"
  have C255: "C \<le> 255" using f(7) by (simp add: C_def)
  have uc: "unat (of_nat c :: u64) = c" using c C255 by (intro unat_of_nat_u64) (simp add: C_def)
  have ui: "unat (of_nat it :: u64) = it" using it C255 by (intro unat_of_nat_u64) (simp add: C_def)
  have ch0: "vdc_children vdc \<noteq> 0" using c by (simp add: u64_neq_0_conv)
  have "unat (ucast ?b :: u64) + unat (of_nat it :: u64) < 2 ^ 64"
    using unat_u8_less [of ?b] it C255 by (simp add: ui unat_ucast_u8 C_def)
  then have "unat (ucast ?b + of_nat it :: u64) = unat ?b + it"
    by (simp add: unat_add_u64 ui unat_ucast_u8)
  then have "unat ((ucast ?b + of_nat it) mod vdc_children vdc) = (unat ?b + it) mod C"
    by (simp only: unat_mod C_def)
  then have "(ucast ?b + of_nat it) mod vdc_children vdc = of_nat ((unat ?b + it) mod C)"
    by (rule u64_eq_of_nat)
  then show ?thesis using p(1) ch0
    by (simp add: vdev_draid_permute_id_def Let_def uc p(2) C_def)
qed

declare vdev_draid_map_alloc_loop.simps [simp del]

lemma map_alloc_loop_run:
  assumes nd: "vdc_ndisks vdc \<noteq> 0"
    and dev: "\<And>j. i \<le> j \<Longrightarrow> j < unat (vdc_groupwidth vdc) \<Longrightarrow>
      vdev_draid_permute_id vdc base iter ((groupstart + of_nat j) mod vdc_ndisks vdc) = Inr (dev j)"
  shows "\<exists>cs. vdev_draid_map_alloc_loop vdc a base iter groupstart wrap q bc cols i po asz acc
         = Inr (acc @ cs, asz + sum_list (map rc_size cs))
       \<and> length cs = unat (vdc_groupwidth vdc) - i
       \<and> (\<forall>j < unat (vdc_groupwidth vdc) - i.
             rc_devidx (cs ! j) = dev (i + j)
           \<and> rc_size (cs ! j) = (if cols \<le> of_nat (i + j) then 0
                                 else if of_nat (i + j) < bc then push_bit a (q + 1)
                                 else push_bit a q)
           \<and> rc_abd (cs ! j) = None)"
  using dev
proof (induction "unat (vdc_groupwidth vdc) - i" arbitrary: i po asz acc)
  case 0
  then have "\<not> i < unat (vdc_groupwidth vdc)" by simp
  then show ?case
    by (subst vdev_draid_map_alloc_loop.simps) simp
next
  case (Suc k)
  then have lt: "i < unat (vdc_groupwidth vdc)" by simp
  let ?po = "if of_nat i = wrap then po + VDEV_DRAID_ROWSIZE else po"
  let ?sz = "if cols \<le> of_nat i then 0
             else if of_nat i < bc then push_bit a (q + 1) else push_bit a q"
  let ?col = "\<lparr>rc_devidx = dev i, rc_offset = ?po, rc_size = ?sz, rc_abd = None\<rparr>"
  have d: "vdev_draid_permute_id vdc base iter ((groupstart + of_nat i) mod vdc_ndisks vdc)
      = Inr (dev i)"
    using Suc.prems [of i] lt by simp
  have k: "k = unat (vdc_groupwidth vdc) - (i + 1)" using Suc.hyps(2) by simp
  obtain cs where run: "vdev_draid_map_alloc_loop vdc a base iter groupstart wrap q bc cols
        (i + 1) ?po (asz + ?sz) (acc @ [?col])
      = Inr ((acc @ [?col]) @ cs, (asz + ?sz) + sum_list (map rc_size cs))"
    and len: "length cs = unat (vdc_groupwidth vdc) - (i + 1)"
    and nth: "\<forall>j < unat (vdc_groupwidth vdc) - (i + 1).
             rc_devidx (cs ! j) = dev ((i + 1) + j)
           \<and> rc_size (cs ! j) = (if cols \<le> of_nat ((i + 1) + j) then 0
                                 else if of_nat ((i + 1) + j) < bc then push_bit a (q + 1)
                                 else push_bit a q)
           \<and> rc_abd (cs ! j) = None"
    using Suc.hyps(1) [OF k, of ?po "asz + ?sz" "acc @ [?col]"] Suc.prems by auto
  have step: "vdev_draid_map_alloc_loop vdc a base iter groupstart wrap q bc cols i po asz acc
      = vdev_draid_map_alloc_loop vdc a base iter groupstart wrap q bc cols
          (i + 1) ?po (asz + ?sz) (acc @ [?col])"
    using lt nd d by (subst vdev_draid_map_alloc_loop.simps) (simp add: Let_def)
  have res: "vdev_draid_map_alloc_loop vdc a base iter groupstart wrap q bc cols i po asz acc
      = Inr (acc @ (?col # cs), asz + sum_list (map rc_size (?col # cs)))"
    unfolding step run by (simp add: add.assoc)
  have len': "length (?col # cs) = unat (vdc_groupwidth vdc) - i" using len lt by simp
  have nth': "rc_devidx ((?col # cs) ! j) = dev (i + j)
           \<and> rc_size ((?col # cs) ! j) = (if cols \<le> of_nat (i + j) then 0
                                 else if of_nat (i + j) < bc then push_bit a (q + 1)
                                 else push_bit a q)
           \<and> rc_abd ((?col # cs) ! j) = None"
    if "j < unat (vdc_groupwidth vdc) - i" for j
  proof (cases j)
    case 0
    then show ?thesis by simp
  next
    case (Suc m)
    then have "m < unat (vdc_groupwidth vdc) - (i + 1)" using that by simp
    then show ?thesis using nth Suc by simp
  qed
  show ?case using res len' nth' by blast
qed

lemma mod_twice: "(x::nat) < 2 * n \<Longrightarrow> x mod n = (if x < n then x else x - n)"
  by (simp add: mod_if)

lemma rotate_inj:
  assumes "(v::nat) < n" "w < n" "k < n" "(v + k) mod n = (w + k) mod n"
  shows "v = w"
proof -
  have "v + k < 2 * n" "w + k < 2 * n" using assms by simp_all
  then have "(if v + k < n then v + k else v + k - n) = (if w + k < n then w + k else w + k - n)"
    using assms(4) by (simp only: mod_twice)
  then show ?thesis using assms(1-3) by (auto split: if_splits)
qed

lemma shift_inj:
  assumes "(s::nat) < n" "i < g" "j < g" "g \<le> n" "(s + i) mod n = (s + j) mod n"
  shows "i = j"
proof -
  have "s + i < 2 * n" "s + j < 2 * n" using assms by simp_all
  then have "(if s + i < n then s + i else s + i - n) = (if s + j < n then s + j else s + j - n)"
    using assms(5) by (simp only: mod_twice)
  then show ?thesis using assms(1-4) by (auto split: if_splits)
qed

lemma perm_row_props:
  assumes ok: "draid_config_ok vd vdc" and perms: "rows_are_permutations (vdc_map vdc)"
    and r: "r < unat (dm_nperms (vdc_map vdc))"
  shows "set (perm_row (vdc_map vdc) r) = {..< unat (vdc_children vdc)}"
    and "distinct (perm_row (vdc_map vdc) r)"
  using perms r config_ok_facts(10) [OF ok]
  by (simp_all add: rows_are_permutations_def list_all_iff)

lemma group_devices:
  assumes ok: "draid_config_ok vd vdc" and perms: "rows_are_permutations (vdc_map vdc)"
    and r: "r < unat (dm_nperms (vdc_map vdc))"
    and it: "it < unat (vdc_children vdc)"
    and gs: "s < unat (vdc_ndisks vdc)"
    and i: "i < unat (vdc_groupwidth vdc)" and j: "j < unat (vdc_groupwidth vdc)"
    and eq: "(perm_row (vdc_map vdc) r ! ((s + i) mod unat (vdc_ndisks vdc)) + it)
               mod unat (vdc_children vdc)
           = (perm_row (vdc_map vdc) r ! ((s + j) mod unat (vdc_ndisks vdc)) + it)
               mod unat (vdc_children vdc)"
  shows "i = j"
proof -
  define C where "C = unat (vdc_children vdc)"
  define D where "D = unat (vdc_ndisks vdc)"
  define row where "row = perm_row (vdc_map vdc) r"
  note f = config_ok_facts [OF ok]
  have DC: "D \<le> C" using f(6) by (simp add: C_def D_def)
  have Dpos: "0 < D" using gs by (simp add: D_def)
  have len: "length row = C"
    using perm_row_nth(3) [OF ok r, of 0] it by (simp add: row_def C_def)
  have ci: "(s + i) mod D < C" and cj: "(s + j) mod D < C"
    using Dpos DC by (auto intro: less_le_trans [OF mod_less_divisor])
  have set: "set row = {..< C}" and dist: "distinct row"
    using perm_row_props [OF ok perms r] by (simp_all add: row_def C_def)
  have vi: "row ! ((s + i) mod D) < C" using ci len set by (metis lessThan_iff nth_mem)
  have vj: "row ! ((s + j) mod D) < C" using cj len set by (metis lessThan_iff nth_mem)
  have "row ! ((s + i) mod D) = row ! ((s + j) mod D)"
    using rotate_inj [OF vi vj] it eq by (simp add: C_def D_def row_def)
  then have "(s + i) mod D = (s + j) mod D"
    using dist ci cj len by (simp add: nth_eq_iff_index_eq)
  then show ?thesis
    using shift_inj [of s D i "unat (vdc_groupwidth vdc)" j] gs i j f(5) by (simp add: D_def)
qed

lemma group_column:
  assumes ok: "draid_config_ok vd vdc"
    and gs: "unat groupstart < unat (vdc_ndisks vdc)"
    and j: "j < unat (vdc_groupwidth vdc)"
  shows "(groupstart + of_nat j) mod vdc_ndisks vdc
       = of_nat ((unat groupstart + j) mod unat (vdc_ndisks vdc))"
proof -
  note f = config_ok_facts [OF ok]
  have j255: "j < 2 ^ 64" using j f(5,6,7) by simp
  have uj: "unat (of_nat j :: u64) = j" using j255 by (rule unat_of_nat_u64)
  have "unat groupstart + j < 2 ^ 64" using gs j f(5,6,7) by simp
  then have "unat (groupstart + of_nat j) = unat groupstart + j"
    by (simp add: unat_add_u64 uj)
  then have "unat ((groupstart + of_nat j) mod vdc_ndisks vdc)
      = (unat groupstart + j) mod unat (vdc_ndisks vdc)"
    by (simp only: unat_mod)
  then show ?thesis by (rule u64_eq_of_nat)
qed

lemma unat_rowsize: "unat VDEV_DRAID_ROWSIZE = 2 ^ 24"
  by (simp add: VDEV_DRAID_ROWSIZE_def VDEV_DRAID_ROWSHIFT_def)

lemma config_ok_words:
  assumes ok: "draid_config_ok vd vdc"
  shows "vdev_ashift vd < 64"
    and "unat (vdc_groupsz vdc) = unat (vdc_groupwidth vdc) * 2 ^ 24"
    and "0 < unat (vdc_groupwidth vdc)" and "unat (vdc_groupwidth vdc) \<le> 255"
    and "0 < unat (vdc_ndisks vdc)" and "0 < unat (vdc_children vdc)"
    and "unat (drop_bit (unat (vdev_ashift vd)) VDEV_DRAID_ROWSIZE * vdc_groupwidth vdc)
         = 2 ^ (24 - unat (vdev_ashift vd)) * unat (vdc_groupwidth vdc)"
    and "unat (push_bit (unat (vdev_ashift vd)) (vdc_groupwidth vdc))
         = unat (vdc_groupwidth vdc) * 2 ^ unat (vdev_ashift vd)"
proof -
  note f = config_ok_facts [OF ok]
  define a where "a = unat (vdev_ashift vd)"
  define g where "g = unat (vdc_groupwidth vdc)"
  have a24: "a \<le> 24" using f(2) by (simp add: a_def)
  show gpos: "0 < unat (vdc_groupwidth vdc)" using f(3,4) by simp
  show g255: "unat (vdc_groupwidth vdc) \<le> 255" using f(5,6,7) by simp
  show "0 < unat (vdc_ndisks vdc)" using gpos f(5) by simp
  show "0 < unat (vdc_children vdc)" using gpos f(5,6) by simp
  have "unat (vdev_ashift vd) < unat (64 :: u64)" using a24 by (simp add: a_def)
  then show "vdev_ashift vd < 64" by (simp only: word_less_nat_alt)
  have "g * 2 ^ 24 \<le> 255 * 2 ^ 24" using g255 by (simp add: g_def)
  then have "unat (vdc_groupwidth vdc) * unat VDEV_DRAID_ROWSIZE < 2 ^ 64"
    by (simp add: unat_rowsize g_def)
  then show "unat (vdc_groupsz vdc) = unat (vdc_groupwidth vdc) * 2 ^ 24"
    by (simp add: f(8) unat_mult_u64 unat_rowsize)
  have pw: "(2::nat) ^ a \<le> 2 ^ 24" using a24 by (intro power_increasing) simp_all
  have "unat (drop_bit a VDEV_DRAID_ROWSIZE) = drop_bit a (unat VDEV_DRAID_ROWSIZE)"
    by (rule unat_drop_bit_eq)
  also have "\<dots> = 2 ^ 24 div 2 ^ a"
    by (simp only: unat_rowsize drop_bit_eq_div)
  also have "\<dots> = 2 ^ (24 - a)" using a24 by (simp add: power_diff)
  finally have bpr: "unat (drop_bit a VDEV_DRAID_ROWSIZE) = 2 ^ (24 - a)" .
  have "(2::nat) ^ (24 - a) \<le> 2 ^ 24" by (intro power_increasing) simp_all
  then have "2 ^ (24 - a) * g \<le> 2 ^ 24 * 255" using g255 by (intro mult_le_mono) (simp_all add: g_def)
  then have "unat (drop_bit a VDEV_DRAID_ROWSIZE) * unat (vdc_groupwidth vdc) < 2 ^ 64"
    by (simp add: bpr g_def)
  then show "unat (drop_bit (unat (vdev_ashift vd)) VDEV_DRAID_ROWSIZE * vdc_groupwidth vdc)
         = 2 ^ (24 - unat (vdev_ashift vd)) * unat (vdc_groupwidth vdc)"
    by (simp add: unat_mult_u64 bpr a_def [symmetric])
  have "g * 2 ^ a \<le> 255 * 2 ^ 24" using g255 pw by (intro mult_le_mono) (simp_all add: g_def)
  then have "unat (vdc_groupwidth vdc) * 2 ^ a < 2 ^ 64" by (simp add: g_def)
  then show "unat (push_bit (unat (vdev_ashift vd)) (vdc_groupwidth vdc))
         = unat (vdc_groupwidth vdc) * 2 ^ unat (vdev_ashift vd)"
    unfolding a_def by (rule unat_shl)
qed

lemma logical_to_physical_ok:
  assumes ok: "draid_config_ok vd vdc"
  shows "\<exists>phys perm groupstart.
     vdev_draid_logical_to_physical vd off = Inr (phys, perm, groupstart)
     \<and> unat groupstart < unat (vdc_ndisks vdc)"
proof -
  note f = config_ok_facts [OF ok]
  note w = config_ok_words [OF ok]
  have nz: "vdc_groupsz vdc \<noteq> 0" "vdc_ndisks vdc \<noteq> 0" "vdc_groupwidth vdc \<noteq> 0"
    "drop_bit (unat (vdev_ashift vd)) VDEV_DRAID_ROWSIZE * vdc_groupwidth vdc \<noteq> 0"
    using w by (simp_all add: u64_neq_0_conv)
  have "unat ((x * vdc_groupwidth vdc) mod vdc_ndisks vdc) < unat (vdc_ndisks vdc)" for x
    using w(5) by (simp add: unat_mod)
  then show ?thesis using nz f(1,9) w(1)
    by (simp add: vdev_draid_logical_to_physical_def Let_def not_le)
qed

lemma map_alloc_loop_ok:
  assumes ok: "draid_config_ok vd vdc"
    and r: "r < unat (dm_nperms (vdc_map vdc))"
    and it: "it < unat (vdc_children vdc)"
    and gs: "unat groupstart < unat (vdc_ndisks vdc)"
  shows "\<exists>cs. vdev_draid_map_alloc_loop vdc a (r * unat (vdc_children vdc)) (of_nat it)
           groupstart wrap q bc cols 0 po asz []
         = Inr (cs, asz + sum_list (map rc_size cs))
       \<and> length cs = unat (vdc_groupwidth vdc)
       \<and> (\<forall>j < unat (vdc_groupwidth vdc).
             rc_devidx (cs ! j) = of_nat ((perm_row (vdc_map vdc) r !
                  ((unat groupstart + j) mod unat (vdc_ndisks vdc)) + it)
                  mod unat (vdc_children vdc))
           \<and> rc_size (cs ! j) = (if cols \<le> of_nat j then 0
                                 else if of_nat j < bc then push_bit a (q + 1)
                                 else push_bit a q)
           \<and> rc_abd (cs ! j) = None)"
proof -
  note f = config_ok_facts [OF ok]
  note w = config_ok_words [OF ok]
  let ?dev = "\<lambda>j. (of_nat ((perm_row (vdc_map vdc) r !
                  ((unat groupstart + j) mod unat (vdc_ndisks vdc)) + it)
                  mod unat (vdc_children vdc)) :: u64)"
  have nd: "vdc_ndisks vdc \<noteq> 0" using w(5) by (simp add: u64_neq_0_conv)
  have dev: "vdev_draid_permute_id vdc (r * unat (vdc_children vdc)) (of_nat it)
        ((groupstart + of_nat j) mod vdc_ndisks vdc) = Inr (?dev j)"
    if "j < unat (vdc_groupwidth vdc)" for j
  proof -
    have "(unat groupstart + j) mod unat (vdc_ndisks vdc) < unat (vdc_ndisks vdc)"
      using w(5) by simp
    then have c: "(unat groupstart + j) mod unat (vdc_ndisks vdc) < unat (vdc_children vdc)"
      using f(6) by simp
    show ?thesis
      using permute_id_ok [OF ok r c it] by (simp only: group_column [OF ok gs that])
  qed
  have "\<exists>cs. vdev_draid_map_alloc_loop vdc a (r * unat (vdc_children vdc)) (of_nat it)
           groupstart wrap q bc cols 0 po asz []
         = Inr ([] @ cs, asz + sum_list (map rc_size cs))
       \<and> length cs = unat (vdc_groupwidth vdc) - 0
       \<and> (\<forall>j < unat (vdc_groupwidth vdc) - 0.
             rc_devidx (cs ! j) = ?dev (0 + j)
           \<and> rc_size (cs ! j) = (if cols \<le> of_nat (0 + j) then 0
                                 else if of_nat (0 + j) < bc then push_bit a (q + 1)
                                 else push_bit a q)
           \<and> rc_abd (cs ! j) = None)"
    by (rule map_alloc_loop_run [OF nd]) (rule dev, assumption)
  then show ?thesis by (simp only: add_0 diff_zero append_Nil)
qed

lemma group_devices_distinct:
  assumes ok: "draid_config_ok vd vdc" and perms: "rows_are_permutations (vdc_map vdc)"
    and r: "r < unat (dm_nperms (vdc_map vdc))"
    and it: "it < unat (vdc_children vdc)"
    and gs: "s < unat (vdc_ndisks vdc)"
    and len: "length cs = unat (vdc_groupwidth vdc)"
    and nth: "\<forall>j < unat (vdc_groupwidth vdc).
        rc_devidx (cs ! j) = of_nat ((perm_row (vdc_map vdc) r !
           ((s + j) mod unat (vdc_ndisks vdc)) + it) mod unat (vdc_children vdc))"
  shows "distinct (map rc_devidx cs)"
    and "\<forall>c \<in> set cs. rc_devidx c < vdc_children vdc"
proof -
  note f = config_ok_facts [OF ok]
  define C where "C = unat (vdc_children vdc)"
  define devn where "devn j = (perm_row (vdc_map vdc) r !
           ((s + j) mod unat (vdc_ndisks vdc)) + it) mod C" for j
  have Cpos: "0 < C" using it by (simp add: C_def)
  have dl: "devn j < C" for j using Cpos by (simp add: devn_def)
  have small: "devn j < 2 ^ 64" for j using dl [of j] f(7) by (simp add: C_def)
  have ud: "unat (rc_devidx (cs ! j)) = devn j" if "j < unat (vdc_groupwidth vdc)" for j
    using nth that unat_of_nat_u64 [OF small [of j]] by (simp add: devn_def C_def)
  show "distinct (map rc_devidx cs)"
  proof (simp only: distinct_conv_nth length_map, intro allI impI)
    fix i j
    assume i: "i < length cs" and j: "j < length cs" and ne: "i \<noteq> j"
    show "map rc_devidx cs ! i \<noteq> map rc_devidx cs ! j"
    proof
      assume "map rc_devidx cs ! i = map rc_devidx cs ! j"
      then have "rc_devidx (cs ! i) = rc_devidx (cs ! j)" using i j by simp
      then have "devn i = devn j" using ud i j len by metis
      then have "i = j"
        using group_devices [OF ok perms r it gs, of i j] i j len
        by (simp add: devn_def C_def)
      then show False using ne by simp
    qed
  qed
  show "\<forall>c \<in> set cs. rc_devidx c < vdc_children vdc"
  proof
    fix c assume "c \<in> set cs"
    then obtain j where j: "j < length cs" "c = cs ! j" by (auto simp: in_set_conv_nth)
    then have "unat (rc_devidx c) < C" using ud [of j] dl [of j] len by simp
    then show "rc_devidx c < vdc_children vdc" by (simp add: word_less_nat_alt C_def)
  qed
qed

lemma map_alloc_init_ok:
  assumes ok: "draid_config_ok vd vdc"
    and defs: "a = unat (vdev_ashift vd)" "psize = drop_bit a (io_size zio)"
      "q = psize div vdc_ndata vdc" "r = psize - q * vdc_ndata vdc"
      "bc = (if r = 0 then 0 else r + vdc_nparity vdc)"
      "tot = psize + (vdc_nparity vdc * (q + (if r = 0 then 0 else 1)))"
      "cols = (if q = 0 then bc else vdc_groupwidth vdc)"
  shows "\<exists>rm0 row it s.
       vdev_draid_map_alloc_init vd zio = Inr rm0
     \<and> rm_cols rm0 = cols \<and> rm_scols rm0 = vdc_groupwidth vdc \<and> rm_bigcols rm0 = bc
     \<and> rm_skipstart rm0 = bc \<and> rm_firstdatacol rm0 = vdc_nparity vdc
     \<and> rm_abd_skip rm0 = None
     \<and> rm_asize rm0 = roundup (sum_list (map rc_size (rm_col rm0)))
                           (push_bit a (vdc_groupwidth vdc))
     \<and> rm_nskip rm0 = roundup tot (vdc_groupwidth vdc) - tot
     \<and> length (rm_col rm0) = unat (vdc_groupwidth vdc)
     \<and> row < unat (dm_nperms (vdc_map vdc)) \<and> it < unat (vdc_children vdc)
     \<and> s < unat (vdc_ndisks vdc)
     \<and> (\<forall>j < unat (vdc_groupwidth vdc).
             rc_devidx (rm_col rm0 ! j) = of_nat ((perm_row (vdc_map vdc) row !
                  ((s + j) mod unat (vdc_ndisks vdc)) + it) mod unat (vdc_children vdc))
           \<and> rc_size (rm_col rm0 ! j) = (if cols \<le> of_nat j then 0
                                 else if of_nat j < bc then push_bit a (q + 1)
                                 else push_bit a q)
           \<and> rc_abd (rm_col rm0 ! j) = None)"
proof -
  note f = config_ok_facts [OF ok]
  note w = config_ok_words [OF ok]
  obtain phys perm groupstart where
    l2p: "vdev_draid_logical_to_physical vd (io_offset zio) = Inr (phys, perm, groupstart)"
    and gs: "unat groupstart < unat (vdc_ndisks vdc)"
    using logical_to_physical_ok [OF ok] by blast
  define row where "row = (unat perm div unat (vdc_children vdc)) mod unat (dm_nperms (vdc_map vdc))"
  define it where "it = unat perm mod unat (vdc_children vdc)"
  have gp: "vdev_draid_get_perm vdc perm = Inr (row * unat (vdc_children vdc), of_nat it)"
    using get_perm_ok [OF ok] by (simp add: row_def it_def)
  have row: "row < unat (dm_nperms (vdc_map vdc))" using f(11) by (simp add: row_def)
  have it: "it < unat (vdc_children vdc)" using w(6) by (simp add: it_def)
  define wrap where "wrap = (if groupstart + vdc_groupwidth vdc > vdc_ndisks vdc
      then vdc_ndisks vdc - groupstart else vdc_groupwidth vdc)"
  obtain cs where
    loop: "vdev_draid_map_alloc_loop vdc a (row * unat (vdc_children vdc)) (of_nat it)
           groupstart wrap q bc cols 0 phys 0 [] = Inr (cs, 0 + sum_list (map rc_size cs))"
    and len: "length cs = unat (vdc_groupwidth vdc)"
    and nth: "\<forall>j < unat (vdc_groupwidth vdc).
             rc_devidx (cs ! j) = of_nat ((perm_row (vdc_map vdc) row !
                  ((unat groupstart + j) mod unat (vdc_ndisks vdc)) + it)
                  mod unat (vdc_children vdc))
           \<and> rc_size (cs ! j) = (if cols \<le> of_nat j then 0
                                 else if of_nat j < bc then push_bit a (q + 1)
                                 else push_bit a q)
           \<and> rc_abd (cs ! j) = None"
    using map_alloc_loop_ok [OF ok row it gs] by blast
  have nz: "vdc_ndata vdc \<noteq> 0" "vdc_groupwidth vdc \<noteq> 0"
    "push_bit a (vdc_groupwidth vdc) \<noteq> 0"
    using f(3) w(3) w(8) by (simp_all add: u64_neq_0_conv defs(1))
  let ?rm = "\<lparr>rm_cols = cols, rm_scols = vdc_groupwidth vdc, rm_bigcols = bc,
     rm_asize = roundup (sum_list (map rc_size cs)) (push_bit a (vdc_groupwidth vdc)),
     rm_nskip = roundup tot (vdc_groupwidth vdc) - tot, rm_skipstart = bc,
     rm_firstdatacol = vdc_nparity vdc, rm_abd_skip = None, rm_col = cs\<rparr>"
  have "vdev_draid_map_alloc_init vd zio = Inr ?rm"
    using l2p f(1) nz gp loop
    unfolding vdev_draid_map_alloc_init_def Let_def wrap_def defs
    by (simp split del: if_split)
  then show ?thesis using len nth row it gs
    by (intro exI [of _ ?rm] exI [of _ row] exI [of _ it] exI [of _ "unat groupstart"]) simp
qed

declare vdev_draid_map_alloc_parity.simps [simp del]
declare vdev_draid_map_alloc_write_loop.simps [simp del]
declare vdev_draid_map_alloc_scrub_loop.simps [simp del]
declare vdev_draid_map_alloc_read_loop.simps [simp del]

lemma map_devidx_update:
  "c < length cs \<Longrightarrow> rc_devidx x = rc_devidx (cs ! c) \<Longrightarrow>
   map rc_devidx (cs[c := x]) = map rc_devidx cs"
  by (simp add: map_update list_update_same_conv)

lemma read_loop_devidx:
  assumes "unat (rm_cols rm) \<le> length (rm_col rm)"
  shows "\<exists>rm'. vdev_draid_map_alloc_read_loop rm c off = Inr rm'
     \<and> map rc_devidx (rm_col rm') = map rc_devidx (rm_col rm)"
  using assms
proof (induction "unat (rm_cols rm) - c" arbitrary: rm c off)
  case 0
  then show ?case by (subst vdev_draid_map_alloc_read_loop.simps) simp
next
  case (Suc k)
  then have lt: "c < unat (rm_cols rm)" and inb: "c < length (rm_col rm)" by simp_all
  let ?rc = "rm_col rm ! c"
  let ?rm1 = "rm\<lparr>rm_col := (rm_col rm)[c := ?rc\<lparr>rc_abd := Some (ABD_IO off (rc_size ?rc))\<rparr>]\<rparr>"
  have k: "k = unat (rm_cols ?rm1) - (c + 1)" using Suc.hyps(2) by simp
  have le: "unat (rm_cols ?rm1) \<le> length (rm_col ?rm1)" using Suc.prems by simp
  obtain rm' where run: "vdev_draid_map_alloc_read_loop ?rm1 (c + 1) (off + rc_size ?rc) = Inr rm'"
    and dev: "map rc_devidx (rm_col rm') = map rc_devidx (rm_col ?rm1)"
    using Suc.hyps(1) [OF k le] by blast
  have "map rc_devidx (rm_col ?rm1) = map rc_devidx (rm_col rm)"
    using inb by (simp add: map_devidx_update)
  moreover have "vdev_draid_map_alloc_read_loop rm c off = Inr rm'"
    using lt inb run by (subst vdev_draid_map_alloc_read_loop.simps) (simp add: Let_def)
  ultimately show ?case using dev by simp
qed

lemma scrub_loop_devidx:
  assumes "unat (rm_scols rm) \<le> length (rm_col rm)"
  shows "\<exists>rm'. vdev_draid_map_alloc_scrub_loop sk rm c off = Inr rm'
     \<and> map rc_devidx (rm_col rm') = map rc_devidx (rm_col rm)"
  using assms
proof (induction "unat (rm_scols rm) - c" arbitrary: rm c off)
  case 0
  then show ?case by (subst vdev_draid_map_alloc_scrub_loop.simps) simp
next
  case (Suc k)
  then have lt: "c < unat (rm_scols rm)" and inb: "c < length (rm_col rm)" by simp_all
  let ?rc = "rm_col rm ! c"
  obtain a where a: "a = (let skip_idx = (scast (ucast (of_nat c - rm_skipstart rm :: u64) :: 32 word) :: u64)
      in if rm_skipstart rm = 0 \<or> c < unat (rm_skipstart rm)
                     then ABD_IO off (rc_size ?rc)
                     else if c < unat (rm_cols rm)
                     then ABD_GANG [ABD_IO off (rc_size ?rc), ABD_SKIP (skip_idx * sk) sk]
                     else ABD_SKIP (skip_idx * sk) sk)" by simp
  let ?rm1 = "rm\<lparr>rm_col := (rm_col rm)[c := ?rc\<lparr>rc_abd := Some a, rc_size := abd_get_size a\<rparr>]\<rparr>"
  have k: "k = unat (rm_scols ?rm1) - (c + 1)" using Suc.hyps(2) by simp
  have le: "unat (rm_scols ?rm1) \<le> length (rm_col ?rm1)" using Suc.prems by simp
  obtain rm' where run: "vdev_draid_map_alloc_scrub_loop sk ?rm1 (c + 1) (off + rc_size ?rc) = Inr rm'"
    and dev: "map rc_devidx (rm_col rm') = map rc_devidx (rm_col ?rm1)"
    using Suc.hyps(1) [OF k le] by blast
  have "map rc_devidx (rm_col ?rm1) = map rc_devidx (rm_col rm)"
    using inb by (simp add: map_devidx_update)
  moreover have "vdev_draid_map_alloc_scrub_loop sk rm c off = Inr rm'"
    using lt inb run unfolding a
    by (subst vdev_draid_map_alloc_scrub_loop.simps) (simp add: Let_def)
  ultimately show ?case using dev by simp
qed

lemma parity_loop_run:
  assumes "unat (rm_firstdatacol rm) \<le> length (rm_col rm)"
  shows "\<exists>cs. vdev_draid_map_alloc_parity rm c = Inr (rm\<lparr>rm_col := cs\<rparr>)
     \<and> length cs = length (rm_col rm)
     \<and> (\<forall>j < length cs. cs ! j =
           (if c \<le> j \<and> j < unat (rm_firstdatacol rm)
            then (rm_col rm ! j)\<lparr>rc_abd := Some (ABD_LINEAR (rc_size (rm_col rm ! j)))\<rparr>
            else rm_col rm ! j))"
  using assms
proof (induction "unat (rm_firstdatacol rm) - c" arbitrary: rm c)
  case 0
  then have "vdev_draid_map_alloc_parity rm c = Inr (rm\<lparr>rm_col := rm_col rm\<rparr>)"
    by (subst vdev_draid_map_alloc_parity.simps) simp
  moreover have "rm_col rm ! j =
           (if c \<le> j \<and> j < unat (rm_firstdatacol rm)
            then (rm_col rm ! j)\<lparr>rc_abd := Some (ABD_LINEAR (rc_size (rm_col rm ! j)))\<rparr>
            else rm_col rm ! j)" for j
  proof -
    have "\<not> (c \<le> j \<and> j < unat (rm_firstdatacol rm))" using 0 by simp
    then show ?thesis by (simp only: if_not_P if_False refl)
  qed
  ultimately show ?case by (intro exI [of _ "rm_col rm"]) blast
next
  case (Suc k)
  then have lt: "c < unat (rm_firstdatacol rm)" and inb: "c < length (rm_col rm)" by simp_all
  let ?rc = "rm_col rm ! c"
  let ?new = "?rc\<lparr>rc_abd := Some (ABD_LINEAR (rc_size ?rc))\<rparr>"
  let ?rm1 = "rm\<lparr>rm_col := (rm_col rm)[c := ?new]\<rparr>"
  have k: "k = unat (rm_firstdatacol ?rm1) - (c + 1)" using Suc.hyps(2) by simp
  have le: "unat (rm_firstdatacol ?rm1) \<le> length (rm_col ?rm1)" using Suc.prems by simp
  obtain cs where run: "vdev_draid_map_alloc_parity ?rm1 (c + 1) = Inr (?rm1\<lparr>rm_col := cs\<rparr>)"
    and len: "length cs = length (rm_col ?rm1)"
    and nth: "\<forall>j < length cs. cs ! j =
           (if c + 1 \<le> j \<and> j < unat (rm_firstdatacol ?rm1)
            then (rm_col ?rm1 ! j)\<lparr>rc_abd := Some (ABD_LINEAR (rc_size (rm_col ?rm1 ! j)))\<rparr>
            else rm_col ?rm1 ! j)"
    using Suc.hyps(1) [OF k le] by blast
  have res: "vdev_draid_map_alloc_parity rm c = Inr (rm\<lparr>rm_col := cs\<rparr>)"
    using lt inb run by (subst vdev_draid_map_alloc_parity.simps) (simp add: Let_def)
  have nth': "cs ! j = (if c \<le> j \<and> j < unat (rm_firstdatacol rm)
            then (rm_col rm ! j)\<lparr>rc_abd := Some (ABD_LINEAR (rc_size (rm_col rm ! j)))\<rparr>
            else rm_col rm ! j)" if "j < length cs" for j
  proof (cases "j = c")
    case True
    then show ?thesis using nth that lt inb by simp
  next
    case False
    then show ?thesis using nth that by (auto simp: nth_list_update)
  qed
  show ?case using res len nth' by (intro exI [of _ cs]) simp
qed

lemma write_loop_run:
  assumes "unat (rm_scols rm) \<le> length (rm_col rm)"
  shows "\<exists>cs. vdev_draid_map_alloc_write_loop sk par rm c off = Inr (rm\<lparr>rm_col := cs\<rparr>)
     \<and> length cs = length (rm_col rm)
     \<and> (\<forall>j < length cs.
           if c \<le> j \<and> j < unat (rm_scols rm)
           then rc_devidx (cs ! j) = rc_devidx (rm_col rm ! j)
              \<and> rc_size (cs ! j) = par
              \<and> (\<exists>a. rc_abd (cs ! j) = Some a \<and> abd_get_size a =
                    (if rm_skipstart rm = 0 \<or> j < unat (rm_skipstart rm)
                     then rc_size (rm_col rm ! j)
                     else if j < unat (rm_cols rm) then rc_size (rm_col rm ! j) + sk
                     else sk))
           else cs ! j = rm_col rm ! j)"
  using assms
proof (induction "unat (rm_scols rm) - c" arbitrary: rm c off)
  case 0
  then have "vdev_draid_map_alloc_write_loop sk par rm c off = Inr (rm\<lparr>rm_col := rm_col rm\<rparr>)"
    by (subst vdev_draid_map_alloc_write_loop.simps) simp
  moreover have "if c \<le> j \<and> j < unat (rm_scols rm)
           then rc_devidx (rm_col rm ! j) = rc_devidx (rm_col rm ! j)
              \<and> rc_size (rm_col rm ! j) = par
              \<and> (\<exists>a. rc_abd (rm_col rm ! j) = Some a \<and> abd_get_size a =
                    (if rm_skipstart rm = 0 \<or> j < unat (rm_skipstart rm)
                     then rc_size (rm_col rm ! j)
                     else if j < unat (rm_cols rm) then rc_size (rm_col rm ! j) + sk
                     else sk))
           else rm_col rm ! j = rm_col rm ! j" for j
  proof -
    have "\<not> (c \<le> j \<and> j < unat (rm_scols rm))" using 0 by simp
    then show ?thesis by (simp only: if_not_P if_False refl)
  qed
  ultimately show ?case by (intro exI [of _ "rm_col rm"]) blast
next
  case (Suc k)
  then have lt: "c < unat (rm_scols rm)" and inb: "c < length (rm_col rm)" by simp_all
  let ?rc = "rm_col rm ! c"
  define a where "a = (if rm_skipstart rm = 0 \<or> c < unat (rm_skipstart rm)
                     then ABD_IO off (rc_size ?rc)
                     else if c < unat (rm_cols rm)
                     then ABD_GANG [ABD_IO off (rc_size ?rc), ABD_ZEROS sk]
                     else ABD_ZEROS sk)"
  have asz: "abd_get_size a = (if rm_skipstart rm = 0 \<or> c < unat (rm_skipstart rm)
                     then rc_size ?rc
                     else if c < unat (rm_cols rm) then rc_size ?rc + sk
                     else sk)"
    by (simp add: a_def)
  let ?new = "?rc\<lparr>rc_abd := Some a, rc_size := par\<rparr>"
  let ?rm1 = "rm\<lparr>rm_col := (rm_col rm)[c := ?new]\<rparr>"
  have k: "k = unat (rm_scols ?rm1) - (c + 1)" using Suc.hyps(2) by simp
  have le: "unat (rm_scols ?rm1) \<le> length (rm_col ?rm1)" using Suc.prems by simp
  obtain cs where run: "vdev_draid_map_alloc_write_loop sk par ?rm1 (c + 1) (off + rc_size ?rc)
        = Inr (?rm1\<lparr>rm_col := cs\<rparr>)"
    and len: "length cs = length (rm_col ?rm1)"
    and nth: "\<forall>j < length cs.
           if c + 1 \<le> j \<and> j < unat (rm_scols ?rm1)
           then rc_devidx (cs ! j) = rc_devidx (rm_col ?rm1 ! j)
              \<and> rc_size (cs ! j) = par
              \<and> (\<exists>a. rc_abd (cs ! j) = Some a \<and> abd_get_size a =
                    (if rm_skipstart ?rm1 = 0 \<or> j < unat (rm_skipstart ?rm1)
                     then rc_size (rm_col ?rm1 ! j)
                     else if j < unat (rm_cols ?rm1) then rc_size (rm_col ?rm1 ! j) + sk
                     else sk))
           else cs ! j = rm_col ?rm1 ! j"
    using Suc.hyps(1) [OF k le] by blast
  have res: "vdev_draid_map_alloc_write_loop sk par rm c off = Inr (rm\<lparr>rm_col := cs\<rparr>)"
    using lt inb run unfolding a_def
    by (subst vdev_draid_map_alloc_write_loop.simps) (simp add: Let_def)
  have nth': "if c \<le> j \<and> j < unat (rm_scols rm)
           then rc_devidx (cs ! j) = rc_devidx (rm_col rm ! j)
              \<and> rc_size (cs ! j) = par
              \<and> (\<exists>a. rc_abd (cs ! j) = Some a \<and> abd_get_size a =
                    (if rm_skipstart rm = 0 \<or> j < unat (rm_skipstart rm)
                     then rc_size (rm_col rm ! j)
                     else if j < unat (rm_cols rm) then rc_size (rm_col rm ! j) + sk
                     else sk))
           else cs ! j = rm_col rm ! j" if "j < length cs" for j
  proof (cases "j = c")
    case True
    have "cs ! c = ?new" using nth that True inb by simp
    then show ?thesis using True lt asz by simp
  next
    case False
    have old: "rm_col ?rm1 ! j = rm_col rm ! j" using False by simp
    show ?thesis
    proof (cases "c + 1 \<le> j \<and> j < unat (rm_scols rm)")
      case True
      then show ?thesis using nth that old by auto
    next
      case F: False
      then have eq: "cs ! j = rm_col rm ! j" using nth that old by auto
      have neg: "\<not> (c \<le> j \<and> j < unat (rm_scols rm))" using F False by auto
      show ?thesis unfolding if_not_P [OF neg] by (rule eq)
    qed
  qed
  show ?case using res len nth' by (intro exI [of _ cs]) simp
qed

lemma u64_sub_div_mult: "(x :: u64) - (x div n) * n = x mod n"
proof -
  have "x div n * n + x mod n = x" by (rule word_mod_div_equality)
  then show ?thesis by (metis add_diff_cancel_left')
qed

lemma stripe_cols_le:
  assumes ok: "draid_config_ok vd vdc"
    and defs: "q = psize div vdc_ndata vdc" "r = psize - q * vdc_ndata vdc"
      "bc = (if r = 0 then 0 else r + vdc_nparity vdc)"
      "cols = (if q = 0 then bc else vdc_groupwidth vdc)"
  shows "unat r = unat psize mod unat (vdc_ndata vdc)"
    and "unat bc = (if unat r = 0 then 0 else unat r + unat (vdc_nparity vdc))"
    and "unat bc < unat (vdc_groupwidth vdc)"
    and "unat cols \<le> unat (vdc_groupwidth vdc)"
    and "unat bc \<le> unat cols"
proof -
  note f = config_ok_facts [OF ok]
  note w = config_ok_words [OF ok]
  have r: "r = psize mod vdc_ndata vdc" unfolding defs by (rule u64_sub_div_mult)
  then show ur: "unat r = unat psize mod unat (vdc_ndata vdc)" by (simp only: unat_mod)
  then have rn: "unat r < unat (vdc_ndata vdc)" using f(3) by simp
  have "unat r + unat (vdc_nparity vdc) < 2 ^ 64" using rn f(4) w(4) by simp
  then have "unat (r + vdc_nparity vdc) = unat r + unat (vdc_nparity vdc)"
    by (rule unat_add_u64)
  then show ubc: "unat bc = (if unat r = 0 then 0 else unat r + unat (vdc_nparity vdc))"
    by (simp add: defs(3) unat_eq_0)
  then show bcg: "unat bc < unat (vdc_groupwidth vdc)" using rn f(3,4) by simp
  then show "unat cols \<le> unat (vdc_groupwidth vdc)" by (simp add: defs(4))
  show "unat bc \<le> unat cols" using bcg by (simp add: defs(4))
qed

lemma map_alloc_devidx:
  assumes ok: "draid_config_ok vd vdc"
    and init: "vdev_draid_map_alloc_init vd zio = Inr rm0"
  shows "\<exists>rm. vdev_draid_map_alloc vd zio = Inr rm
     \<and> map rc_devidx (rm_col rm) = map rc_devidx (rm_col rm0)"
proof -
  note f = config_ok_facts [OF ok]
  note w = config_ok_words [OF ok]
  define a where "a = unat (vdev_ashift vd)"
  define psize where "psize = drop_bit a (io_size zio)"
  define q where "q = psize div vdc_ndata vdc"
  define r where "r = psize - q * vdc_ndata vdc"
  define bc where "bc = (if r = 0 then 0 else r + vdc_nparity vdc)"
  define tot where "tot = psize + (vdc_nparity vdc * (q + (if r = 0 then 0 else 1)))"
  define cols where "cols = (if q = 0 then bc else vdc_groupwidth vdc)"
  obtain rm0' where i0: "vdev_draid_map_alloc_init vd zio = Inr rm0'"
    "rm_cols rm0' = cols" "rm_scols rm0' = vdc_groupwidth vdc"
    "rm_firstdatacol rm0' = vdc_nparity vdc" "length (rm_col rm0') = unat (vdc_groupwidth vdc)"
    using map_alloc_init_ok [OF ok a_def psize_def q_def r_def bc_def tot_def cols_def]
    by blast
  have "rm0' = rm0" using i0(1) init by simp
  then have i: "rm_cols rm0 = cols" "rm_scols rm0 = vdc_groupwidth vdc"
    "rm_firstdatacol rm0 = vdc_nparity vdc" "length (rm_col rm0) = unat (vdc_groupwidth vdc)"
    using i0 by simp_all
  note c = stripe_cols_le [OF ok q_def r_def bc_def cols_def]
  have par_le: "unat (rm_firstdatacol rm0) \<le> length (rm_col rm0)" using i f(4) by simp
  obtain cs1 where par: "vdev_draid_map_alloc_parity rm0 0 = Inr (rm0\<lparr>rm_col := cs1\<rparr>)"
    and len1: "length cs1 = length (rm_col rm0)"
    and nth1: "\<forall>j < length cs1. cs1 ! j =
           (if 0 \<le> j \<and> j < unat (rm_firstdatacol rm0)
            then (rm_col rm0 ! j)\<lparr>rc_abd := Some (ABD_LINEAR (rc_size (rm_col rm0 ! j)))\<rparr>
            else rm_col rm0 ! j)"
    using parity_loop_run [OF par_le, of 0] by blast
  let ?rm1 = "rm0\<lparr>rm_col := cs1\<rparr>"
  have dev1: "map rc_devidx cs1 = map rc_devidx (rm_col rm0)"
    using len1 nth1 by (intro nth_equalityI) simp_all
  show ?thesis
  proof (cases "io_type zio = ZIO_TYPE_WRITE")
    case True
    have le: "unat (rm_scols ?rm1) \<le> length (rm_col ?rm1)" using i len1 by simp
    obtain cs2 where run: "vdev_draid_map_alloc_write_loop (push_bit a 1) (rc_size (cs1 ! 0))
          ?rm1 (unat (rm_firstdatacol ?rm1)) 0 = Inr (?rm1\<lparr>rm_col := cs2\<rparr>)"
      and len2: "length cs2 = length (rm_col ?rm1)"
      and nth2: "\<forall>j < length cs2.
           if unat (rm_firstdatacol ?rm1) \<le> j \<and> j < unat (rm_scols ?rm1)
           then rc_devidx (cs2 ! j) = rc_devidx (rm_col ?rm1 ! j)
              \<and> rc_size (cs2 ! j) = rc_size (cs1 ! 0)
              \<and> (\<exists>a'. rc_abd (cs2 ! j) = Some a' \<and> abd_get_size a' =
                    (if rm_skipstart ?rm1 = 0 \<or> j < unat (rm_skipstart ?rm1)
                     then rc_size (rm_col ?rm1 ! j)
                     else if j < unat (rm_cols ?rm1) then rc_size (rm_col ?rm1 ! j) + push_bit a 1
                     else push_bit a 1))
           else cs2 ! j = rm_col ?rm1 ! j"
      using write_loop_run [OF le] by blast
    have "rc_devidx (cs2 ! j) = rc_devidx (cs1 ! j)" if "j < length cs2" for j
    proof (cases "unat (rm_firstdatacol ?rm1) \<le> j \<and> j < unat (rm_scols ?rm1)")
      case True
      show ?thesis using nth2 [rule_format, OF that] unfolding if_P [OF True] by simp
    next
      case False
      show ?thesis using nth2 [rule_format, OF that] unfolding if_not_P [OF False] by simp
    qed
    then have dev2: "map rc_devidx cs2 = map rc_devidx cs1"
      using len2 by (intro nth_equalityI) simp_all
    have ne: "cs1 \<noteq> []" using len1 i w(3) by auto
    have "vdev_draid_map_alloc vd zio = Inr (?rm1\<lparr>rm_col := cs2, rm_cols := rm_scols rm0\<rparr>)"
      using init par True run ne w(1)
      by (simp add: vdev_draid_map_alloc_def vdev_draid_map_alloc_write_def Let_def not_le
          a_def [symmetric])
    then show ?thesis using dev1 dev2 by simp
  next
    case False
    show ?thesis
    proof (cases "rm_nskip ?rm1 > 0 \<and>
          (ZIO_FLAG_SCRUB \<in> io_flags zio \<or> ZIO_FLAG_RESILVER \<in> io_flags zio)")
      case True
      let ?rm2 = "?rm1\<lparr>rm_abd_skip := Some (ABD_LINEAR (rm_nskip ?rm1 * push_bit a 1))\<rparr>"
      have le: "unat (rm_scols ?rm2) \<le> length (rm_col ?rm2)" using i len1 by simp
      obtain rm' where run: "vdev_draid_map_alloc_scrub_loop (push_bit a 1) ?rm2
            (unat (rm_firstdatacol ?rm2)) 0 = Inr rm'"
        and dev2: "map rc_devidx (rm_col rm') = map rc_devidx (rm_col ?rm2)"
        using scrub_loop_devidx [OF le] by blast
      have "vdev_draid_map_alloc vd zio = Inr (rm'\<lparr>rm_cols := rm_scols rm'\<rparr>)"
        using init par False True run w(1)
        by (simp add: vdev_draid_map_alloc_def vdev_draid_map_alloc_scrub_def Let_def not_le
            a_def [symmetric])
      then show ?thesis using dev1 dev2 by simp
    next
      case F2: False
      have le: "unat (rm_cols ?rm1) \<le> length (rm_col ?rm1)" using i len1 c(4) by simp
      obtain rm' where run: "vdev_draid_map_alloc_read_loop ?rm1 (unat (rm_firstdatacol ?rm1)) 0
            = Inr rm'"
        and dev2: "map rc_devidx (rm_col rm') = map rc_devidx (rm_col ?rm1)"
        using read_loop_devidx [OF le] by blast
      have "vdev_draid_map_alloc vd zio = Inr rm'"
        using init par False F2 run
        by (auto simp add: vdev_draid_map_alloc_def vdev_draid_map_alloc_read_def)
      then show ?thesis using dev1 dev2 by simp
    qed
  qed
qed

text \<open>
  Claim C1. For a well-formed dRAID configuration whose map rows are permutations of
  \<open>0 .. children - 1\<close>, and every permutation index \<open>pindex\<close>: \<open>vdev_draid_get_perm\<close> selects
  row \<open>(pindex / children) mod nperms\<close> and the rotation \<open>pindex mod children\<close>;
  \<open>vdev_draid_permute_id\<close> returns \<open>(row[c] + iter) mod children\<close>, a device index below
  \<open>children\<close>, for every column \<open>c\<close>; and the device indices that the column loop of
  \<open>vdev_draid_map_alloc\<close> assigns to the \<open>groupwidth\<close> columns \<open>(groupstart + i) mod ndisks\<close> of
  a group are pairwise distinct, for every group start below \<open>ndisks\<close>. The same holds of the
  map that \<open>vdev_draid_map_alloc\<close> returns for any I/O.
\<close>

theorem permute_id_range_and_distinct:
  assumes ok: "draid_config_ok vd vdc" and perms: "rows_are_permutations (vdc_map vdc)"
  shows "(\<exists>base iter. vdev_draid_get_perm vdc pindex = Inr (base, iter)
        \<and> base = ((unat pindex div unat (vdc_children vdc)) mod unat (dm_nperms (vdc_map vdc)))
                   * unat (vdc_children vdc)
        \<and> unat iter = unat pindex mod unat (vdc_children vdc)
        \<and> (\<forall>c < unat (vdc_children vdc). \<exists>d.
               vdev_draid_permute_id vdc base iter (of_nat c) = Inr d
             \<and> d < vdc_children vdc
             \<and> unat d = (perm_row (vdc_map vdc)
                   ((unat pindex div unat (vdc_children vdc)) mod unat (dm_nperms (vdc_map vdc))) ! c
                   + unat iter) mod unat (vdc_children vdc))
        \<and> (\<forall>groupstart. unat groupstart < unat (vdc_ndisks vdc) \<longrightarrow>
               (\<exists>cs asize. vdev_draid_map_alloc_loop vdc a base iter groupstart wrap q bc cols
                      0 po 0 [] = Inr (cs, asize)
                  \<and> length cs = unat (vdc_groupwidth vdc)
                  \<and> distinct (map rc_devidx cs)
                  \<and> (\<forall>col \<in> set cs. rc_devidx col < vdc_children vdc))))
     \<and> (\<exists>rm. vdev_draid_map_alloc vd zio = Inr rm
        \<and> length (rm_col rm) = unat (vdc_groupwidth vdc)
        \<and> distinct (map rc_devidx (rm_col rm))
        \<and> (\<forall>col \<in> set (rm_col rm). rc_devidx col < vdc_children vdc))"
proof (intro conjI)
  note f = config_ok_facts [OF ok]
  note w = config_ok_words [OF ok]
  define C where "C = unat (vdc_children vdc)"
  define row where "row = (unat pindex div C) mod unat (dm_nperms (vdc_map vdc))"
  define it where "it = unat pindex mod C"
  have gp: "vdev_draid_get_perm vdc pindex = Inr (row * C, of_nat it)"
    using get_perm_ok [OF ok] by (simp add: row_def it_def C_def)
  have row: "row < unat (dm_nperms (vdc_map vdc))" using f(11) by (simp add: row_def)
  have it: "it < unat (vdc_children vdc)" using w(6) by (simp add: it_def C_def)
  have "it < 2 ^ 64" using it f(7) by simp
  then have uit: "unat (of_nat it :: u64) = it" by (rule unat_of_nat_u64)
  have pid: "\<exists>d. vdev_draid_permute_id vdc (row * C) (of_nat it) (of_nat c) = Inr d
             \<and> d < vdc_children vdc
             \<and> unat d = (perm_row (vdc_map vdc) row ! c + it) mod C"
    if c: "c < unat (vdc_children vdc)" for c
  proof -
    let ?n = "(perm_row (vdc_map vdc) row ! c + it) mod C"
    have lt: "?n < C" using c by (simp add: C_def)
    then have "?n < 2 ^ 64" using f(7) by (simp add: C_def)
    then have u: "unat (of_nat ?n :: u64) = ?n" by (rule unat_of_nat_u64)
    then have "(of_nat ?n :: u64) < vdc_children vdc"
      using lt by (simp add: word_less_nat_alt C_def)
    then show ?thesis using permute_id_ok [OF ok row c it] u by (simp add: C_def)
  qed
  have loop: "\<exists>cs asize. vdev_draid_map_alloc_loop vdc a (row * C) (of_nat it) groupstart
                 wrap q bc cols 0 po 0 [] = Inr (cs, asize)
              \<and> length cs = unat (vdc_groupwidth vdc)
              \<and> distinct (map rc_devidx cs)
              \<and> (\<forall>col \<in> set cs. rc_devidx col < vdc_children vdc)"
    if gs: "unat groupstart < unat (vdc_ndisks vdc)" for groupstart
  proof -
    obtain cs where run: "vdev_draid_map_alloc_loop vdc a (row * C) (of_nat it)
           groupstart wrap q bc cols 0 po 0 [] = Inr (cs, 0 + sum_list (map rc_size cs))"
      and len: "length cs = unat (vdc_groupwidth vdc)"
      and nth: "\<forall>j < unat (vdc_groupwidth vdc).
             rc_devidx (cs ! j) = of_nat ((perm_row (vdc_map vdc) row !
                  ((unat groupstart + j) mod unat (vdc_ndisks vdc)) + it)
                  mod unat (vdc_children vdc))
           \<and> rc_size (cs ! j) = (if cols \<le> of_nat j then 0
                                 else if of_nat j < bc then push_bit a (q + 1)
                                 else push_bit a q)
           \<and> rc_abd (cs ! j) = None"
      using map_alloc_loop_ok [OF ok row it gs] unfolding C_def by blast
    have nth': "\<forall>j < unat (vdc_groupwidth vdc).
        rc_devidx (cs ! j) = of_nat ((perm_row (vdc_map vdc) row !
           ((unat groupstart + j) mod unat (vdc_ndisks vdc)) + it) mod unat (vdc_children vdc))"
      using nth by blast
    show ?thesis
      using run len group_devices_distinct [OF ok perms row it gs len nth'] by blast
  qed
  show "\<exists>base iter. vdev_draid_get_perm vdc pindex = Inr (base, iter)
        \<and> base = ((unat pindex div unat (vdc_children vdc)) mod unat (dm_nperms (vdc_map vdc)))
                   * unat (vdc_children vdc)
        \<and> unat iter = unat pindex mod unat (vdc_children vdc)
        \<and> (\<forall>c < unat (vdc_children vdc). \<exists>d.
               vdev_draid_permute_id vdc base iter (of_nat c) = Inr d
             \<and> d < vdc_children vdc
             \<and> unat d = (perm_row (vdc_map vdc)
                   ((unat pindex div unat (vdc_children vdc)) mod unat (dm_nperms (vdc_map vdc))) ! c
                   + unat iter) mod unat (vdc_children vdc))
        \<and> (\<forall>groupstart. unat groupstart < unat (vdc_ndisks vdc) \<longrightarrow>
               (\<exists>cs asize. vdev_draid_map_alloc_loop vdc a base iter groupstart wrap q bc cols
                      0 po 0 [] = Inr (cs, asize)
                  \<and> length cs = unat (vdc_groupwidth vdc)
                  \<and> distinct (map rc_devidx cs)
                  \<and> (\<forall>col \<in> set cs. rc_devidx col < vdc_children vdc)))"
    apply (rule exI [of _ "row * C"])
    apply (rule exI [of _ "of_nat it"])
    using gp pid loop uit
    unfolding row_def [symmetric] it_def [symmetric] C_def [symmetric]
    apply (simp only: uit)
    apply (intro conjI allI impI)
        apply (simp_all add: row_def it_def C_def)
    done
next
  note f = config_ok_facts [OF ok]
  define a where "a = unat (vdev_ashift vd)"
  define psize where "psize = drop_bit a (io_size zio)"
  define q where "q = psize div vdc_ndata vdc"
  define r where "r = psize - q * vdc_ndata vdc"
  define bc where "bc = (if r = 0 then 0 else r + vdc_nparity vdc)"
  define tot where "tot = psize + (vdc_nparity vdc * (q + (if r = 0 then 0 else 1)))"
  define cols where "cols = (if q = 0 then bc else vdc_groupwidth vdc)"
  obtain rm0 row it s where init: "vdev_draid_map_alloc_init vd zio = Inr rm0"
    and len: "length (rm_col rm0) = unat (vdc_groupwidth vdc)"
    and row: "row < unat (dm_nperms (vdc_map vdc))" and it: "it < unat (vdc_children vdc)"
    and s: "s < unat (vdc_ndisks vdc)"
    and nth: "\<forall>j < unat (vdc_groupwidth vdc).
             rc_devidx (rm_col rm0 ! j) = of_nat ((perm_row (vdc_map vdc) row !
                  ((s + j) mod unat (vdc_ndisks vdc)) + it) mod unat (vdc_children vdc))
           \<and> rc_size (rm_col rm0 ! j) = (if cols \<le> of_nat j then 0
                                 else if of_nat j < bc then push_bit a (q + 1)
                                 else push_bit a q)
           \<and> rc_abd (rm_col rm0 ! j) = None"
    using map_alloc_init_ok [OF ok a_def psize_def q_def r_def bc_def tot_def cols_def]
    by blast
  have nth': "\<forall>j < unat (vdc_groupwidth vdc).
        rc_devidx (rm_col rm0 ! j) = of_nat ((perm_row (vdc_map vdc) row !
           ((s + j) mod unat (vdc_ndisks vdc)) + it) mod unat (vdc_children vdc))"
    using nth by blast
  note d = group_devices_distinct [OF ok perms row it s len nth']
  obtain rm where rm: "vdev_draid_map_alloc vd zio = Inr rm"
    and dev: "map rc_devidx (rm_col rm) = map rc_devidx (rm_col rm0)"
    using map_alloc_devidx [OF ok init] by blast
  have l: "length (rm_col rm) = unat (vdc_groupwidth vdc)"
    using dev len by (metis length_map)
  have "\<forall>x \<in> set (map rc_devidx (rm_col rm)). x < vdc_children vdc"
    unfolding dev using d(2) by simp
  then have "\<forall>col \<in> set (rm_col rm). rc_devidx col < vdc_children vdc" by simp
  then show "\<exists>rm. vdev_draid_map_alloc vd zio = Inr rm
        \<and> length (rm_col rm) = unat (vdc_groupwidth vdc)
        \<and> distinct (map rc_devidx (rm_col rm))
        \<and> (\<forall>col \<in> set (rm_col rm). rc_devidx col < vdc_children vdc)"
    using rm l d(1) dev by (intro exI [of _ rm]) simp
qed

lemma map_14_fields:
  "dm_children map_14 = 14" "dm_nperms map_14 = 2" "dm_checksum map_14 = 0"
  "dm_perms map_14 = [2, 6, 1, 11, 4, 0, 7, 10, 8, 9, 13, 5, 12, 3,
                 9, 11, 12, 2, 4, 1, 3, 0, 10, 13, 8, 5, 6, 7]"
  by (simp_all add: map_14_def)

lemma draid_14_ok: "draid_config_ok draid_14 vdc_14"
  by (simp add: draid_config_ok_def draid_14_fields vdc_14_fields map_14_fields
      VDEV_DRAID_ROWSHIFT_def VDEV_DRAID_ROWSIZE_def)

lemma map_14_rows: "rows_are_permutations map_14"
proof -
  have s: "{..< (14::nat)} = {0, 1, 2, 3, 4, 5, 6, 7, 8, 9, 10, 11, 12, 13}" by auto arith
  have two: "[0 ..< 2] = [0, Suc 0]" by (simp add: upt_rec)
  show ?thesis
    unfolding rows_are_permutations_def perm_row_def map_14_fields
    by (simp add: two s) auto
qed

text \<open>
  The dRAID of 14 children satisfies the hypotheses; permutation index 27 selects row 1
  (offset 14) with rotation 13.
\<close>

theorem permute_id_range_and_distinct_witness:
  "draid_config_ok draid_14 vdc_14 \<and> rows_are_permutations (vdc_map vdc_14)
   \<and> vdev_draid_get_perm vdc_14 27 = Inr (14, 13)
   \<and> (\<exists>rm. vdev_draid_map_alloc draid_14 (zio_write 0 4096) = Inr rm
        \<and> length (rm_col rm) = 9 \<and> distinct (map rc_devidx (rm_col rm)))"
proof -
  have p: "rows_are_permutations (vdc_map vdc_14)" using map_14_rows by (simp add: vdc_14_fields)
  have gp: "vdev_draid_get_perm vdc_14 27 = Inr (14, 13)"
    by (simp add: vdev_draid_get_perm_def vdc_14_fields map_14_fields)
  have "\<exists>rm. vdev_draid_map_alloc draid_14 (zio_write 0 4096) = Inr rm
        \<and> length (rm_col rm) = unat (vdc_groupwidth vdc_14)
        \<and> distinct (map rc_devidx (rm_col rm))
        \<and> (\<forall>col \<in> set (rm_col rm). rc_devidx col < vdc_children vdc_14)"
    by (rule permute_id_range_and_distinct [OF draid_14_ok p, where pindex = 27
        and zio = "zio_write 0 4096" and a = 0 and wrap = 0 and q = 0 and bc = 0
        and cols = 0 and po = 0, THEN conjunct2])
  then have "\<exists>rm. vdev_draid_map_alloc draid_14 (zio_write 0 4096) = Inr rm
        \<and> length (rm_col rm) = 9 \<and> distinct (map rc_devidx (rm_col rm))"
    by (auto simp: vdc_14_fields)
  then show ?thesis using draid_14_ok p gp by simp
qed

lemma sum_list_const_range:
  assumes "\<And>j. m \<le> j \<Longrightarrow> j < n \<Longrightarrow> f j = (c::nat)"
  shows "sum_list (map f [m ..< n]) = (n - m) * c"
proof -
  have "map f [m ..< n] = replicate (n - m) c"
    using assms by (intro replicate_eqI) auto
  then show ?thesis by (simp add: sum_list_replicate)
qed

lemma upt_split: "i \<le> j \<Longrightarrow> j \<le> k \<Longrightarrow> [i ..< k] = [i ..< j] @ [j ..< k]"
  by (metis le_add_diff_inverse upt_add_eq_append)

lemma stripe_sum:
  assumes "bc \<le> cols" "cols \<le> (g::nat)"
  shows "sum_list (map (\<lambda>j. if j < bc then A else if j < cols then B else (0::nat)) [0 ..< g])
       = bc * A + (cols - bc) * B"
proof -
  let ?f = "\<lambda>j. if j < bc then A else if j < cols then B else (0::nat)"
  have "[0 ..< g] = [0 ..< bc] @ [bc ..< g]"
    using assms by (intro upt_split) simp_all
  moreover have "[bc ..< g] = [bc ..< cols] @ [cols ..< g]"
    using assms by (intro upt_split) simp_all
  ultimately have split: "[0 ..< g] = [0 ..< bc] @ [bc ..< cols] @ [cols ..< g]"
    by simp
  have "sum_list (map ?f [0 ..< bc]) = (bc - 0) * A"
    by (rule sum_list_const_range) simp
  moreover have "sum_list (map ?f [bc ..< cols]) = (cols - bc) * B"
    by (rule sum_list_const_range) simp
  moreover have "sum_list (map ?f [cols ..< g]) = (g - cols) * 0"
    by (rule sum_list_const_range) (use assms in simp)
  ultimately show ?thesis by (simp only: split map_append sum_list_append) simp
qed

lemma stripe_total:
  assumes n: "0 < (n::nat)"
    and q_def: "q = ps div n" and r_def: "r = ps mod n"
    and bc_def: "bc = (if r = 0 then 0 else r + p)"
    and cols_def: "cols = (if q = 0 then bc else n + p)"
  shows "bc * (q + 1) + (cols - bc) * q = ps + p * (q + (if r = 0 then 0 else 1))"
proof -
  have ps: "ps = q * n + r" by (simp add: q_def r_def)
  have rn: "r < n" using n by (simp add: r_def)
  show ?thesis
  proof (cases "r = 0")
    case True
    then show ?thesis using ps by (simp add: bc_def cols_def algebra_simps)
  next
    case False
    show ?thesis
    proof (cases "q = 0")
      case True
      then show ?thesis using False ps by (simp add: bc_def cols_def)
    next
      case q: False
      have "n + p - (r + p) = n - r" by simp
      then show ?thesis using False q ps rn
        by (simp add: bc_def cols_def algebra_simps)
    qed
  qed
qed

lemma stripe_nskip:
  assumes n: "0 < (n::nat)"
    and q_def: "q = ps div n" and r_def: "r = ps mod n"
    and tot_def: "tot = ps + p * (q + (if r = 0 then 0 else 1))"
  shows "tot \<le> ((tot + (n + p) - 1) div (n + p)) * (n + p)"
    and "((tot + (n + p) - 1) div (n + p)) * (n + p) - tot < n"
proof -
  have ps: "ps = q * n + r" by (simp add: q_def r_def)
  have rn: "r < n" using n by (simp add: r_def)
  let ?g = "n + p"
  have up: "((tot + ?g - 1) div ?g) * ?g = (if r = 0 then q * ?g else (q + 1) * ?g)"
  proof (cases "r = 0")
    case True
    then have t: "tot = q * ?g" using ps by (simp add: tot_def algebra_simps)
    have "(q * ?g + ?g - 1) div ?g = q"
      using n by (intro div_nat_eqI) (simp_all add: algebra_simps)
    then show ?thesis using True t by simp
  next
    case False
    then have t: "tot = q * ?g + (r + p)" using ps by (simp add: tot_def algebra_simps)
    have "(q * ?g + (r + p) + ?g - 1) div ?g = q + 1"
      using n rn False by (intro div_nat_eqI) (simp_all add: algebra_simps)
    then show ?thesis using False t by simp
  qed
  show "tot \<le> ((tot + ?g - 1) div ?g) * ?g"
    unfolding up using ps rn by (simp add: tot_def algebra_simps)
  show "((tot + ?g - 1) div ?g) * ?g - tot < n"
    unfolding up using ps rn n by (simp add: tot_def algebra_simps)
qed

lemma one_group_size:
  assumes "0 < (G::nat)" "0 < S" "b div G = (b + S - 1) div G"
  shows "S \<le> G"
proof (rule ccontr)
  assume "\<not> S \<le> G"
  then have "b + G \<le> b + S - 1" by simp
  then have "(b + G) div G \<le> (b + S - 1) div G" by (rule div_le_mono)
  moreover have "G \<noteq> 0" using assms(1) by simp
  then have "(b + G) div G = b div G + 1" by (rule div_add_self2)
  ultimately show False using assms(3) by simp
qed

lemma io_size_in_group:
  assumes ok: "draid_config_ok vd vdc"
    and nz: "io_size zio \<noteq> 0"
    and grp: "io_in_one_group vd zio"
  shows "unat (io_size zio) \<le> unat (vdc_groupwidth vdc) * 2 ^ 24"
proof -
  note f = config_ok_facts [OF ok]
  note w = config_ok_words [OF ok]
  define b where "b = unat (io_offset zio)"
  define S where "S = unat (io_size zio)"
  define G where "G = unat (vdc_groupsz vdc)"
  have Spos: "0 < S" using nz by (simp add: S_def unat_gt_0)
  have Gpos: "0 < G" using w(2,3) by (simp add: G_def)
  have g0: "vdc_groupsz vdc \<noteq> 0" using Gpos by (simp add: G_def u64_neq_0_conv)
  have fit: "b + S \<le> 2 ^ 64" using grp by (simp add: io_in_one_group_def b_def S_def)
  have eq: "io_offset zio div vdc_groupsz vdc
      = (io_offset zio + io_size zio - 1) div vdc_groupsz vdc"
    using grp f(1) g0 by (simp add: io_in_one_group_def vdev_draid_offset_to_group_def)
  have "unat (io_size zio - 1) = S - 1" using nz by (simp add: unat_minus_one S_def)
  moreover have "b + (S - 1) < 2 ^ 64" using fit Spos by simp
  ultimately have "unat (io_offset zio + (io_size zio - 1)) = b + (S - 1)"
    by (simp add: unat_add_u64 b_def)
  then have "unat (io_offset zio + io_size zio - 1) = b + S - 1"
    using Spos by (simp add: add_diff_eq)
  then have "unat ((io_offset zio + io_size zio - 1) div vdc_groupsz vdc) = (b + S - 1) div G"
    by (simp only: unat_div G_def)
  moreover have "unat (io_offset zio div vdc_groupsz vdc) = b div G"
    by (simp only: unat_div G_def b_def)
  ultimately have "b div G = (b + S - 1) div G" using eq by simp
  then have "S \<le> G" using Gpos Spos by (intro one_group_size)
  then show ?thesis using w(2) by (simp add: S_def G_def)
qed

lemma stripe_words:
  assumes ok: "draid_config_ok vd vdc"
    and nz: "io_size zio \<noteq> 0"
    and al: "unat (io_size zio) mod 2 ^ unat (vdev_ashift vd) = 0"
    and grp: "io_in_one_group vd zio"
    and defs: "a = unat (vdev_ashift vd)" "psize = drop_bit a (io_size zio)"
      "q = psize div vdc_ndata vdc" "r = psize - q * vdc_ndata vdc"
      "bc = (if r = 0 then 0 else r + vdc_nparity vdc)"
      "tot = psize + (vdc_nparity vdc * (q + (if r = 0 then 0 else 1)))"
      "cols = (if q = 0 then bc else vdc_groupwidth vdc)"
  shows "unat psize = unat (io_size zio) div 2 ^ a"
    and "0 < unat psize"
    and "unat q = unat psize div unat (vdc_ndata vdc)"
    and "unat r = unat psize mod unat (vdc_ndata vdc)"
    and "unat bc = (if unat r = 0 then 0 else unat r + unat (vdc_nparity vdc))"
    and "unat cols = (if unat q = 0 then unat bc else unat (vdc_groupwidth vdc))"
    and "unat tot = unat psize + unat (vdc_nparity vdc) * (unat q + (if unat r = 0 then 0 else 1))"
    and "unat (push_bit a q) = unat q * 2 ^ a"
    and "unat (push_bit a (q + 1)) = (unat q + 1) * 2 ^ a"
    and "unat tot * 2 ^ a < 2 ^ 48"
proof -
  note f = config_ok_facts [OF ok]
  note w = config_ok_words [OF ok]
  note c = stripe_cols_le [OF ok defs(3,4,5,7)]
  define S where "S = unat (io_size zio)"
  define E where "E = (2::nat) ^ a"
  define ps where "ps = S div E"
  define n where "n = unat (vdc_ndata vdc)"
  define p where "p = unat (vdc_nparity vdc)"
  define g where "g = unat (vdc_groupwidth vdc)"
  have Epos: "0 < E" by (simp add: E_def)
  have E24: "E \<le> 2 ^ 24" unfolding E_def defs(1) using f(2) by (intro power_increasing) simp_all
  have Sps: "S = ps * E" using al by (simp add: ps_def S_def E_def defs(1) mod_eq_0_iff_dvd)
  have Spos: "0 < S" using nz by (simp add: S_def unat_gt_0)
  have g255: "g \<le> 255" using w(4) by (simp add: g_def)
  have "S \<le> g * 2 ^ 24" using io_size_in_group [OF ok nz grp] by (simp add: S_def g_def)
  also have "\<dots> \<le> 255 * 2 ^ 24" using g255 by simp
  finally have S32: "S \<le> 255 * 2 ^ 24" .
  have "unat psize = drop_bit a S" unfolding defs(2) S_def by (rule unat_drop_bit_eq)
  then show ups: "unat psize = unat (io_size zio) div 2 ^ a"
    by (simp add: drop_bit_eq_div S_def)
  then have ups': "unat psize = ps" by (simp add: ps_def S_def E_def)
  have pspos: "0 < ps" using Spos Sps by (cases "ps = 0") simp_all
  then show "0 < unat psize" by (simp add: ups')
  have psS: "ps \<le> S" using Sps Epos by (metis One_nat_def Suc_leI mult.right_neutral mult_le_mono2)
  show uq: "unat q = unat psize div unat (vdc_ndata vdc)"
    unfolding defs(3) by (rule unat_div)
  then have uq': "unat q = ps div n" by (simp add: ups' n_def)
  show "unat r = unat psize mod unat (vdc_ndata vdc)" by (rule c(1))
  show "unat bc = (if unat r = 0 then 0 else unat r + unat (vdc_nparity vdc))" by (rule c(2))
  show "unat cols = (if unat q = 0 then unat bc else unat (vdc_groupwidth vdc))"
    by (simp add: defs(7) unat_eq_0)
  have "ps div n \<le> ps" by (rule div_le_dividend)
  then have "unat q \<le> ps" by (simp only: uq')
  then have qS: "unat q \<le> S" using psS by (rule le_trans)
  have q32: "unat q \<le> 255 * 2 ^ 24" using qS S32 by (rule le_trans)
  have p255: "p \<le> 255" using f(4) g255 by (simp add: p_def g_def)
  define k where "k = (if unat r = 0 then 0 else (1::nat))"
  have k1: "k \<le> 1" by (simp add: k_def)
  have uk: "unat (if r = 0 then 0 else 1 :: u64) = k" by (simp add: k_def unat_eq_0)
  have qk: "unat q + k < 2 ^ 64" using q32 k1 by simp
  then have uqk: "unat (q + (if r = 0 then 0 else 1)) = unat q + k"
    using uk by (simp add: unat_add_u64)
  have "p * (unat q + k) \<le> 255 * (255 * 2 ^ 24 + 1)"
    using p255 q32 k1 by (intro mult_le_mono) simp_all
  then have pqk: "p * (unat q + k) < 2 ^ 41" by simp
  then have "unat (vdc_nparity vdc) * unat (q + (if r = 0 then 0 else 1)) < 2 ^ 64"
    by (simp add: uqk p_def)
  then have um: "unat (vdc_nparity vdc * (q + (if r = 0 then 0 else 1))) = p * (unat q + k)"
    by (simp add: unat_mult_u64 uqk p_def)
  have "ps + p * (unat q + k) < 2 ^ 64" using psS S32 pqk by simp
  then show utot: "unat tot
      = unat psize + unat (vdc_nparity vdc) * (unat q + (if unat r = 0 then 0 else 1))"
    unfolding defs(6) using um ups' by (simp add: unat_add_u64 k_def p_def)
  have "unat q * E \<le> ps * E" using \<open>unat q \<le> ps\<close> by (rule mult_le_mono1)
  then have qE: "unat q * E \<le> S" by (simp only: Sps)
  then have "unat q * 2 ^ a < 2 ^ 64" using S32 by (simp add: E_def)
  then show "unat (push_bit a q) = unat q * 2 ^ a" by (rule unat_shl)
  have "unat q + 1 < 2 ^ 64" using q32 by simp
  then have uq1: "unat (q + 1) = unat q + 1" by (simp add: unat_add_u64)
  have q1E: "(unat q + 1) * E \<le> S + 2 ^ 24" using qE E24 by (simp add: algebra_simps)
  then have "unat (q + 1) * 2 ^ a < 2 ^ 64" using S32 by (simp add: uq1 E_def)
  then show "unat (push_bit a (q + 1)) = (unat q + 1) * 2 ^ a"
    using uq1 by (simp add: unat_shl)
  have "(unat q + k) * E \<le> (unat q + 1) * E" using k1 by (intro mult_le_mono1) simp
  then have "(unat q + k) * E \<le> S + 2 ^ 24" using q1E by simp
  then have "p * ((unat q + k) * E) \<le> 255 * (S + 2 ^ 24)"
    using p255 by (intro mult_le_mono) simp_all
  then have "ps * E + p * ((unat q + k) * E) \<le> 255 * 2 ^ 24 + 255 * (255 * 2 ^ 24 + 2 ^ 24)"
    using Sps S32 by simp
  moreover have "unat tot * 2 ^ a = ps * E + p * ((unat q + k) * E)"
    using utot ups' by (simp add: E_def k_def p_def algebra_simps)
  ultimately show "unat tot * 2 ^ a < 2 ^ 48" by simp
qed

lemma unat_sum_list:
  "sum_list (map unat ws) < 2 ^ 64 \<Longrightarrow> unat (sum_list ws :: u64) = sum_list (map unat ws)"
proof (induction ws)
  case Nil
  then show ?case by simp
next
  case (Cons w ws)
  then have "sum_list (map unat ws) < 2 ^ 64" by simp
  then have ih: "unat (sum_list ws) = sum_list (map unat ws)" by (rule Cons.IH)
  have "unat w + unat (sum_list ws) < 2 ^ 64" using Cons.prems ih by simp
  then have "unat (w + sum_list ws) = unat w + unat (sum_list ws)" by (rule unat_add_u64)
  then show ?case using ih by simp
qed

lemma roundup_unat:
  assumes y: "y \<noteq> 0" and fit: "unat x + unat y \<le> 2 ^ 64"
  shows "unat (roundup x y) = ((unat x + unat y - 1) div unat y) * unat y"
proof -
  define X where "X = unat x"
  define Y where "Y = unat y"
  have Ypos: "0 < Y" using y by (simp add: Y_def unat_gt_0)
  have y1: "unat (y - 1) = Y - 1" using y by (simp add: unat_minus_one Y_def)
  have "X + (Y - 1) < 2 ^ 64" using fit Ypos by (simp add: X_def Y_def)
  then have "unat (x + (y - 1)) = X + (Y - 1)" using y1 by (simp add: unat_add_u64 X_def)
  then have s: "unat (x + (y - 1)) = X + Y - 1" using Ypos by simp
  have "unat ((x + (y - 1)) div y) = unat (x + (y - 1)) div Y" unfolding Y_def by (rule unat_div)
  then have d: "unat ((x + (y - 1)) div y) = (X + Y - 1) div Y" by (simp only: s)
  have "(X + Y - 1) div Y * Y \<le> X + Y - 1" by (rule div_times_less_eq_dividend)
  also have "\<dots> < 2 ^ 64" using fit Ypos by (simp add: X_def Y_def)
  finally have "unat ((x + (y - 1)) div y) * unat y < 2 ^ 64" by (simp only: d Y_def)
  then have "unat ((x + (y - 1)) div y * y) = (X + Y - 1) div Y * Y"
    using d by (simp add: unat_mult_u64 Y_def)
  then show ?thesis by (simp add: roundup_def X_def Y_def)
qed

lemma small_of_nat_cmp:
  assumes "j < 2 ^ 64"
  shows "((x :: u64) \<le> of_nat j) = (unat x \<le> j)" and "((of_nat j :: u64) < x) = (j < unat x)"
  using unat_of_nat_u64 [OF assms] by (simp_all add: word_le_nat_alt word_less_nat_alt)

lemma map_alloc_init_sizes:
  assumes ok: "draid_config_ok vd vdc"
    and nz: "io_size zio \<noteq> 0"
    and al: "unat (io_size zio) mod 2 ^ unat (vdev_ashift vd) = 0"
    and grp: "io_in_one_group vd zio"
    and nat_defs: "a = unat (vdev_ashift vd)" "ps = unat (io_size zio) div 2 ^ a"
      "n = unat (vdc_ndata vdc)" "p = unat (vdc_nparity vdc)" "g = unat (vdc_groupwidth vdc)"
      "q = ps div n" "r = ps - q * n" "bc = (if r = 0 then 0 else r + p)"
      "tot = ps + p * (q + (if r = 0 then 0 else 1))"
  shows "\<exists>rm0. vdev_draid_map_alloc_init vd zio = Inr rm0
     \<and> unat (rm_scols rm0) = g \<and> length (rm_col rm0) = g
     \<and> unat (rm_cols rm0) = (if q = 0 then bc else g)
     \<and> unat (rm_bigcols rm0) = bc \<and> unat (rm_skipstart rm0) = bc
     \<and> unat (rm_firstdatacol rm0) = p
     \<and> (\<forall>i < g. unat (rc_size (rm_col rm0 ! i)) =
            (if i < bc then (q + 1) * 2 ^ a
             else if i < unat (rm_cols rm0) then q * 2 ^ a else 0))
     \<and> unat (rm_asize rm0) = ((tot * 2 ^ a + g * 2 ^ a - 1) div (g * 2 ^ a)) * (g * 2 ^ a)
     \<and> unat (rm_nskip rm0) = ((tot + g - 1) div g) * g - tot
     \<and> unat (rm_nskip rm0) < n"
proof -
  note f = config_ok_facts [OF ok]
  note w = config_ok_words [OF ok]
  define psize where "psize = drop_bit a (io_size zio)"
  define qw where "qw = psize div vdc_ndata vdc"
  define rw where "rw = psize - qw * vdc_ndata vdc"
  define bcw where "bcw = (if rw = 0 then 0 else rw + vdc_nparity vdc)"
  define totw where "totw = psize + (vdc_nparity vdc * (qw + (if rw = 0 then 0 else 1)))"
  define colsw where "colsw = (if qw = 0 then bcw else vdc_groupwidth vdc)"
  note wd = nat_defs(1) psize_def qw_def rw_def bcw_def totw_def colsw_def
  note sw = stripe_words [OF ok nz al grp wd]
  note cl = stripe_cols_le [OF ok qw_def rw_def bcw_def colsw_def]
  define E where "E = (2::nat) ^ a"
  define cols where "cols = (if q = 0 then bc else g)"
  have npos: "0 < n" using f(3) by (simp add: nat_defs(3))
  have gnp: "g = n + p" using f(4) by (simp add: nat_defs)
  have ups: "unat psize = ps" using sw(1) by (simp add: nat_defs(2))
  have uq: "unat qw = q" using sw(3) ups by (simp add: nat_defs)
  have r: "r = ps mod n" unfolding nat_defs(7) nat_defs(6)
    by (metis minus_div_mult_eq_mod)
  have ur: "unat rw = r" using sw(4) ups by (simp add: r nat_defs(3))
  have ubc: "unat bcw = bc" using sw(5) ur by (simp add: nat_defs)
  have ucols: "unat colsw = cols" using sw(6) uq ubc by (simp add: cols_def nat_defs(5))
  have utot: "unat totw = tot" using sw(7) ups uq ur by (simp add: nat_defs)
  have bc_le: "bc \<le> cols" using cl(5) ubc ucols by simp
  have cols_le: "cols \<le> g" using cl(4) ucols by (simp add: nat_defs(5))
  obtain rm0 where init: "vdev_draid_map_alloc_init vd zio = Inr rm0"
    and flds: "rm_cols rm0 = colsw" "rm_scols rm0 = vdc_groupwidth vdc" "rm_bigcols rm0 = bcw"
      "rm_skipstart rm0 = bcw" "rm_firstdatacol rm0 = vdc_nparity vdc"
    and asz: "rm_asize rm0 = roundup (sum_list (map rc_size (rm_col rm0)))
                           (push_bit a (vdc_groupwidth vdc))"
    and nsk: "rm_nskip rm0 = roundup totw (vdc_groupwidth vdc) - totw"
    and len: "length (rm_col rm0) = unat (vdc_groupwidth vdc)"
    and nth: "\<forall>j < unat (vdc_groupwidth vdc).
           rc_size (rm_col rm0 ! j) = (if colsw \<le> of_nat j then 0
                                 else if of_nat j < bcw then push_bit a (qw + 1)
                                 else push_bit a qw)"
    using map_alloc_init_ok [OF ok wd] by blast
  let ?f = "\<lambda>j. if j < bc then (q + 1) * E else if j < cols then q * E else 0"
  have size: "unat (rc_size (rm_col rm0 ! j)) = ?f j" if j: "j < g" for j
  proof -
    have j64: "j < 2 ^ 64" using j w(4) by (simp add: nat_defs(5))
    have "rc_size (rm_col rm0 ! j) = (if cols \<le> j then 0
                                 else if j < bc then push_bit a (qw + 1)
                                 else push_bit a qw)"
      using nth j by (simp add: nat_defs(5) small_of_nat_cmp [OF j64] ucols ubc)
    then show ?thesis using bc_le sw(8,9) uq by (auto simp: E_def)
  qed
  have "map unat (map rc_size (rm_col rm0)) = map ?f [0 ..< g]"
    using len size by (intro nth_equalityI) (simp_all add: nat_defs(5))
  then have "sum_list (map unat (map rc_size (rm_col rm0))) = bc * ((q + 1) * E) + (cols - bc) * (q * E)"
    using stripe_sum [OF bc_le cols_le] by simp
  also have "\<dots> = (bc * (q + 1) + (cols - bc) * q) * E" by (simp add: algebra_simps)
  also have "bc * (q + 1) + (cols - bc) * q = tot"
  proof -
    have colsdef: "cols = (if q = 0 then bc else n + p)" by (simp add: cols_def gnp)
    show ?thesis unfolding nat_defs(9)
      by (rule stripe_total [OF npos nat_defs(6) r nat_defs(8) colsdef])
  qed
  finally have sum_nat: "sum_list (map unat (map rc_size (rm_col rm0))) = tot * E" .
  have totE: "tot * E < 2 ^ 48" using sw(10) utot by (simp add: E_def)
  then have "sum_list (map unat (map rc_size (rm_col rm0))) < 2 ^ 64" using sum_nat by simp
  then have usum: "unat (sum_list (map rc_size (rm_col rm0))) = tot * E"
    using sum_nat by (simp add: unat_sum_list)
  have ugE: "unat (push_bit a (vdc_groupwidth vdc)) = g * E"
    using w(8) by (simp add: nat_defs E_def)
  have "g * E \<le> 255 * 2 ^ 24"
  proof -
    have "E \<le> 2 ^ 24" unfolding E_def nat_defs(1) using f(2) by (intro power_increasing) simp_all
    then show ?thesis using w(4) by (intro mult_le_mono) (simp_all add: nat_defs(5))
  qed
  then have fitA: "unat (sum_list (map rc_size (rm_col rm0))) + unat (push_bit a (vdc_groupwidth vdc))
      \<le> 2 ^ 64" using totE usum ugE by simp
  have gE0: "push_bit a (vdc_groupwidth vdc) \<noteq> 0"
    using w(3) ugE by (simp add: u64_neq_0_conv nat_defs(5) E_def)
  have uasize: "unat (rm_asize rm0) = ((tot * E + g * E - 1) div (g * E)) * (g * E)"
    unfolding asz using roundup_unat [OF gE0 fitA] by (simp add: usum ugE)
  have gw0: "vdc_groupwidth vdc \<noteq> 0" using w(3) by (simp add: u64_neq_0_conv)
  have "tot \<le> tot * E" by (simp add: E_def)
  then have tot48: "tot < 2 ^ 48" using totE by (rule le_less_trans)
  have fitT: "unat totw + unat (vdc_groupwidth vdc) \<le> 2 ^ 64"
    using tot48 utot w(4) by simp
  have uru: "unat (roundup totw (vdc_groupwidth vdc)) = ((tot + g - 1) div g) * g"
    using roundup_unat [OF gw0 fitT] by (simp add: utot nat_defs(5))
  note ns = stripe_nskip [OF npos nat_defs(6) r nat_defs(9), unfolded gnp [symmetric]]
  have "totw \<le> roundup totw (vdc_groupwidth vdc)"
    using ns(1) by (simp add: word_le_nat_alt uru utot)
  then have "unat (rm_nskip rm0) = ((tot + g - 1) div g) * g - tot"
    unfolding nsk by (simp add: unat_sub uru utot)
  then show ?thesis
    using init flds len size uasize ns(2) ucols ubc
    by (intro exI [of _ rm0]) (simp add: nat_defs(3,4,5) E_def cols_def)
qed

lemma push_bit_succ: "push_bit a (q :: u64) + 2 ^ a = push_bit a (q + 1)"
  by (simp add: push_bit_eq_mult algebra_simps)

lemma read_loop_run:
  assumes "unat (rm_cols rm) \<le> length (rm_col rm)"
  shows "\<exists>cs. vdev_draid_map_alloc_read_loop rm c off = Inr (rm\<lparr>rm_col := cs\<rparr>)
     \<and> length cs = length (rm_col rm)
     \<and> (\<forall>j < length cs.
           if c \<le> j \<and> j < unat (rm_cols rm)
           then rc_size (cs ! j) = rc_size (rm_col rm ! j)
              \<and> (\<exists>a. rc_abd (cs ! j) = Some a \<and> abd_get_size a = rc_size (rm_col rm ! j))
           else cs ! j = rm_col rm ! j)"
  using assms
proof (induction "unat (rm_cols rm) - c" arbitrary: rm c off)
  case 0
  then have "vdev_draid_map_alloc_read_loop rm c off = Inr (rm\<lparr>rm_col := rm_col rm\<rparr>)"
    by (subst vdev_draid_map_alloc_read_loop.simps) simp
  moreover have "if c \<le> j \<and> j < unat (rm_cols rm)
           then rc_size (rm_col rm ! j) = rc_size (rm_col rm ! j)
              \<and> (\<exists>a. rc_abd (rm_col rm ! j) = Some a
                    \<and> abd_get_size a = rc_size (rm_col rm ! j))
           else rm_col rm ! j = rm_col rm ! j" for j
  proof -
    have "\<not> (c \<le> j \<and> j < unat (rm_cols rm))" using 0 by simp
    then show ?thesis by (simp only: if_not_P if_False refl)
  qed
  ultimately show ?case by (intro exI [of _ "rm_col rm"]) blast
next
  case (Suc k)
  then have lt: "c < unat (rm_cols rm)" and inb: "c < length (rm_col rm)" by simp_all
  let ?rc = "rm_col rm ! c"
  let ?new = "?rc\<lparr>rc_abd := Some (ABD_IO off (rc_size ?rc))\<rparr>"
  let ?rm1 = "rm\<lparr>rm_col := (rm_col rm)[c := ?new]\<rparr>"
  have k: "k = unat (rm_cols ?rm1) - (c + 1)" using Suc.hyps(2) by simp
  have le: "unat (rm_cols ?rm1) \<le> length (rm_col ?rm1)" using Suc.prems by simp
  obtain cs where run: "vdev_draid_map_alloc_read_loop ?rm1 (c + 1) (off + rc_size ?rc)
        = Inr (?rm1\<lparr>rm_col := cs\<rparr>)"
    and len: "length cs = length (rm_col ?rm1)"
    and nth: "\<forall>j < length cs.
           if c + 1 \<le> j \<and> j < unat (rm_cols ?rm1)
           then rc_size (cs ! j) = rc_size (rm_col ?rm1 ! j)
              \<and> (\<exists>a. rc_abd (cs ! j) = Some a \<and> abd_get_size a = rc_size (rm_col ?rm1 ! j))
           else cs ! j = rm_col ?rm1 ! j"
    using Suc.hyps(1) [OF k le] by blast
  have res: "vdev_draid_map_alloc_read_loop rm c off = Inr (rm\<lparr>rm_col := cs\<rparr>)"
    using lt inb run by (subst vdev_draid_map_alloc_read_loop.simps) (simp add: Let_def)
  have nth': "if c \<le> j \<and> j < unat (rm_cols rm)
           then rc_size (cs ! j) = rc_size (rm_col rm ! j)
              \<and> (\<exists>a. rc_abd (cs ! j) = Some a \<and> abd_get_size a = rc_size (rm_col rm ! j))
           else cs ! j = rm_col rm ! j" if "j < length cs" for j
  proof (cases "j = c")
    case True
    have "cs ! c = ?new" using nth that True inb by simp
    then show ?thesis using True lt by simp
  next
    case False
    have old: "rm_col ?rm1 ! j = rm_col rm ! j" using False by simp
    show ?thesis
    proof (cases "c + 1 \<le> j \<and> j < unat (rm_cols rm)")
      case True
      then show ?thesis using nth that old by auto
    next
      case F: False
      then have eq: "cs ! j = rm_col rm ! j" using nth that old by auto
      have neg: "\<not> (c \<le> j \<and> j < unat (rm_cols rm))" using F False by auto
      show ?thesis unfolding if_not_P [OF neg] by (rule eq)
    qed
  qed
  show ?case using res len nth' by (intro exI [of _ cs]) simp
qed

lemma scrub_loop_run:
  assumes "unat (rm_scols rm) \<le> length (rm_col rm)"
  shows "\<exists>cs. vdev_draid_map_alloc_scrub_loop sk rm c off = Inr (rm\<lparr>rm_col := cs\<rparr>)
     \<and> length cs = length (rm_col rm)
     \<and> (\<forall>j < length cs.
           if c \<le> j \<and> j < unat (rm_scols rm)
           then (\<exists>a. rc_abd (cs ! j) = Some a \<and> rc_size (cs ! j) = abd_get_size a
                  \<and> abd_get_size a =
                    (if rm_skipstart rm = 0 \<or> j < unat (rm_skipstart rm)
                     then rc_size (rm_col rm ! j)
                     else if j < unat (rm_cols rm) then rc_size (rm_col rm ! j) + sk
                     else sk))
           else cs ! j = rm_col rm ! j)"
  using assms
proof (induction "unat (rm_scols rm) - c" arbitrary: rm c off)
  case 0
  then have "vdev_draid_map_alloc_scrub_loop sk rm c off = Inr (rm\<lparr>rm_col := rm_col rm\<rparr>)"
    by (subst vdev_draid_map_alloc_scrub_loop.simps) simp
  moreover have "if c \<le> j \<and> j < unat (rm_scols rm)
           then (\<exists>a. rc_abd (rm_col rm ! j) = Some a \<and> rc_size (rm_col rm ! j) = abd_get_size a
                  \<and> abd_get_size a =
                    (if rm_skipstart rm = 0 \<or> j < unat (rm_skipstart rm)
                     then rc_size (rm_col rm ! j)
                     else if j < unat (rm_cols rm) then rc_size (rm_col rm ! j) + sk
                     else sk))
           else rm_col rm ! j = rm_col rm ! j" for j
  proof -
    have "\<not> (c \<le> j \<and> j < unat (rm_scols rm))" using 0 by simp
    then show ?thesis by (simp only: if_not_P if_False refl)
  qed
  ultimately show ?case by (intro exI [of _ "rm_col rm"]) blast
next
  case (Suc k)
  then have lt: "c < unat (rm_scols rm)" and inb: "c < length (rm_col rm)" by simp_all
  let ?rc = "rm_col rm ! c"
  define si where "si = (scast (ucast (of_nat c - rm_skipstart rm :: u64) :: 32 word) :: u64)"
  define a where "a = (if rm_skipstart rm = 0 \<or> c < unat (rm_skipstart rm)
                     then ABD_IO off (rc_size ?rc)
                     else if c < unat (rm_cols rm)
                     then ABD_GANG [ABD_IO off (rc_size ?rc), ABD_SKIP (si * sk) sk]
                     else ABD_SKIP (si * sk) sk)"
  have asz: "abd_get_size a = (if rm_skipstart rm = 0 \<or> c < unat (rm_skipstart rm)
                     then rc_size ?rc
                     else if c < unat (rm_cols rm) then rc_size ?rc + sk
                     else sk)"
    by (simp add: a_def)
  let ?new = "?rc\<lparr>rc_abd := Some a, rc_size := abd_get_size a\<rparr>"
  let ?rm1 = "rm\<lparr>rm_col := (rm_col rm)[c := ?new]\<rparr>"
  have k: "k = unat (rm_scols ?rm1) - (c + 1)" using Suc.hyps(2) by simp
  have le: "unat (rm_scols ?rm1) \<le> length (rm_col ?rm1)" using Suc.prems by simp
  obtain cs where run: "vdev_draid_map_alloc_scrub_loop sk ?rm1 (c + 1) (off + rc_size ?rc)
        = Inr (?rm1\<lparr>rm_col := cs\<rparr>)"
    and len: "length cs = length (rm_col ?rm1)"
    and nth: "\<forall>j < length cs.
           if c + 1 \<le> j \<and> j < unat (rm_scols ?rm1)
           then (\<exists>a. rc_abd (cs ! j) = Some a \<and> rc_size (cs ! j) = abd_get_size a
                  \<and> abd_get_size a =
                    (if rm_skipstart ?rm1 = 0 \<or> j < unat (rm_skipstart ?rm1)
                     then rc_size (rm_col ?rm1 ! j)
                     else if j < unat (rm_cols ?rm1) then rc_size (rm_col ?rm1 ! j) + sk
                     else sk))
           else cs ! j = rm_col ?rm1 ! j"
    using Suc.hyps(1) [OF k le] by blast
  have res: "vdev_draid_map_alloc_scrub_loop sk rm c off = Inr (rm\<lparr>rm_col := cs\<rparr>)"
    using lt inb run unfolding a_def si_def
    by (subst vdev_draid_map_alloc_scrub_loop.simps) (simp add: Let_def)
  have nth': "if c \<le> j \<and> j < unat (rm_scols rm)
           then (\<exists>a. rc_abd (cs ! j) = Some a \<and> rc_size (cs ! j) = abd_get_size a
                  \<and> abd_get_size a =
                    (if rm_skipstart rm = 0 \<or> j < unat (rm_skipstart rm)
                     then rc_size (rm_col rm ! j)
                     else if j < unat (rm_cols rm) then rc_size (rm_col rm ! j) + sk
                     else sk))
           else cs ! j = rm_col rm ! j" if "j < length cs" for j
  proof (cases "j = c")
    case True
    have "cs ! c = ?new" using nth that True inb by simp
    then show ?thesis using True lt asz by simp
  next
    case False
    have old: "rm_col ?rm1 ! j = rm_col rm ! j" using False by simp
    show ?thesis
    proof (cases "c + 1 \<le> j \<and> j < unat (rm_scols rm)")
      case True
      then show ?thesis using nth that old by auto
    next
      case F: False
      then have eq: "cs ! j = rm_col rm ! j" using nth that old by auto
      have neg: "\<not> (c \<le> j \<and> j < unat (rm_scols rm))" using F False by auto
      show ?thesis unfolding if_not_P [OF neg] by (rule eq)
    qed
  qed
  show ?case using res len nth' by (intro exI [of _ cs]) simp
qed

lemma map_alloc_init_fields:
  assumes ok: "draid_config_ok vd vdc"
    and init: "vdev_draid_map_alloc_init vd zio = Inr rm0"
    and defs: "a = unat (vdev_ashift vd)" "psize = drop_bit a (io_size zio)"
      "q = psize div vdc_ndata vdc" "r = psize - q * vdc_ndata vdc"
      "bc = (if r = 0 then 0 else r + vdc_nparity vdc)"
      "cols = (if q = 0 then bc else vdc_groupwidth vdc)"
  shows "rm_cols rm0 = cols" "rm_scols rm0 = vdc_groupwidth vdc" "rm_skipstart rm0 = bc"
    "rm_firstdatacol rm0 = vdc_nparity vdc" "length (rm_col rm0) = unat (vdc_groupwidth vdc)"
    "\<forall>j < unat (vdc_groupwidth vdc).
        rc_size (rm_col rm0 ! j) = (if unat cols \<le> j then 0
                                    else if j < unat bc then push_bit a (q + 1)
                                    else push_bit a q)"
proof -
  note w = config_ok_words [OF ok]
  define tot where "tot = psize + (vdc_nparity vdc * (q + (if r = 0 then 0 else 1)))"
  obtain rm0' where i0: "vdev_draid_map_alloc_init vd zio = Inr rm0'"
    "rm_cols rm0' = cols" "rm_scols rm0' = vdc_groupwidth vdc"
    "rm_skipstart rm0' = bc"
    "rm_firstdatacol rm0' = vdc_nparity vdc" "length (rm_col rm0') = unat (vdc_groupwidth vdc)"
    "\<forall>j < unat (vdc_groupwidth vdc).
           rc_size (rm_col rm0' ! j) = (if cols \<le> of_nat j then 0
                                 else if of_nat j < bc then push_bit a (q + 1)
                                 else push_bit a q)"
    using map_alloc_init_ok [OF ok defs(1-5) tot_def defs(6)] by blast
  have eq: "rm0' = rm0" using i0(1) init by simp
  show "rm_cols rm0 = cols" "rm_scols rm0 = vdc_groupwidth vdc" "rm_skipstart rm0 = bc"
    "rm_firstdatacol rm0 = vdc_nparity vdc" "length (rm_col rm0) = unat (vdc_groupwidth vdc)"
    using i0 eq by simp_all
  show "\<forall>j < unat (vdc_groupwidth vdc).
        rc_size (rm_col rm0 ! j) = (if unat cols \<le> j then 0
                                    else if j < unat bc then push_bit a (q + 1)
                                    else push_bit a q)"
  proof (intro allI impI)
    fix j assume j: "j < unat (vdc_groupwidth vdc)"
    then have "j < 2 ^ 64" using w(4) by simp
    then show "rc_size (rm_col rm0 ! j) = (if unat cols \<le> j then 0
                                    else if j < unat bc then push_bit a (q + 1)
                                    else push_bit a q)"
      using i0(7) j eq by (simp add: small_of_nat_cmp)
  qed
qed

lemma promoted_sizes:
  assumes ok: "draid_config_ok vd vdc"
    and init: "vdev_draid_map_alloc_init vd zio = Inr rm0"
    and j: "j < unat (vdc_groupwidth vdc)"
  shows "(if rm_skipstart rm0 = 0 \<or> j < unat (rm_skipstart rm0) then rc_size (rm_col rm0 ! j)
          else if j < unat (rm_cols rm0)
          then rc_size (rm_col rm0 ! j) + push_bit (unat (vdev_ashift vd)) 1
          else push_bit (unat (vdev_ashift vd)) 1) = rc_size (rm_col rm0 ! 0)"
    and "j < unat (rm_firstdatacol rm0) \<Longrightarrow> rc_size (rm_col rm0 ! j) = rc_size (rm_col rm0 ! 0)"
proof -
  note f = config_ok_facts [OF ok]
  note w = config_ok_words [OF ok]
  define a where "a = unat (vdev_ashift vd)"
  define psize where "psize = drop_bit a (io_size zio)"
  define q where "q = psize div vdc_ndata vdc"
  define r where "r = psize - q * vdc_ndata vdc"
  define bc where "bc = (if r = 0 then 0 else r + vdc_nparity vdc)"
  define cols where "cols = (if q = 0 then bc else vdc_groupwidth vdc)"
  define g where "g = unat (vdc_groupwidth vdc)"
  define p where "p = unat (vdc_nparity vdc)"
  note i = map_alloc_init_fields [OF ok init a_def psize_def q_def r_def bc_def cols_def]
  note c = stripe_cols_le [OF ok q_def r_def bc_def cols_def]
  have gpos: "0 < g" using w(3) by (simp add: g_def)
  have jg: "j < g" using j by (simp add: g_def)
  define sz where "sz j = (if unat cols \<le> j then 0
                          else if j < unat bc then push_bit a (q + 1)
                          else push_bit a q)" for j
  have sz: "rc_size (rm_col rm0 ! j) = sz j" if "j < g" for j
    using i(6) that by (simp add: sz_def g_def)
  have colsq: "unat cols = (if q = 0 then unat bc else g)" by (simp add: cols_def g_def)
  have bcp: "bc \<noteq> 0 \<longrightarrow> p < unat bc"
    using c(2) by (auto simp: p_def unat_eq_0 unat_gt_0 split: if_splits)
  have bc_cols: "unat bc \<le> unat cols" by (rule c(5))
  have bc0: "(bc = 0) = (unat bc = 0)" by (simp add: unat_eq_0)
  have big: "sz j = sz 0" if "bc = 0 \<or> j < unat bc"
    using that jg gpos bc_cols colsq bc0 by (auto simp: sz_def split: if_splits)
  have short: "sz j + push_bit a 1 = sz 0" if "bc \<noteq> 0" "\<not> j < unat bc" "j < unat cols"
    using that jg bc_cols bc0 by (auto simp: sz_def push_bit_succ)
  have empty: "push_bit a 1 = sz 0" if "bc \<noteq> 0" "\<not> j < unat bc" "\<not> j < unat cols"
    using that jg bc_cols colsq bc0 by (auto simp: sz_def split: if_splits)
  have "(if bc = 0 \<or> j < unat bc then sz j
          else if j < unat cols then sz j + push_bit a 1
          else push_bit a 1) = sz 0"
  proof (cases "bc = 0 \<or> j < unat bc")
    case True
    then show ?thesis using big by simp
  next
    case F: False
    show ?thesis
    proof (cases "j < unat cols")
      case True
      then show ?thesis using F short by simp
    next
      case False
      then show ?thesis using F empty by simp
    qed
  qed
  then show "(if rm_skipstart rm0 = 0 \<or> j < unat (rm_skipstart rm0) then rc_size (rm_col rm0 ! j)
          else if j < unat (rm_cols rm0)
          then rc_size (rm_col rm0 ! j) + push_bit (unat (vdev_ashift vd)) 1
          else push_bit (unat (vdev_ashift vd)) 1) = rc_size (rm_col rm0 ! 0)"
    unfolding i(1,3) sz [OF jg] sz [OF gpos] a_def [symmetric] .
  show "rc_size (rm_col rm0 ! j) = rc_size (rm_col rm0 ! 0)" if "j < unat (rm_firstdatacol rm0)"
  proof -
    have "j < p" using that i(4) by (simp add: p_def)
    then have "bc = 0 \<or> j < unat bc" using bcp by (cases "bc = 0") simp_all
    then show ?thesis using big sz [OF jg] sz [OF gpos] by simp
  qed
qed

lemma parity_buffers:
  assumes ok: "draid_config_ok vd vdc"
    and init: "vdev_draid_map_alloc_init vd zio = Inr rm0"
  shows "\<exists>cs1. vdev_draid_map_alloc_parity rm0 0 = Inr (rm0\<lparr>rm_col := cs1\<rparr>)
     \<and> length cs1 = unat (vdc_groupwidth vdc)
     \<and> (\<forall>j < unat (vdc_groupwidth vdc). rc_size (cs1 ! j) = rc_size (rm_col rm0 ! j))
     \<and> (\<forall>j < unat (vdc_nparity vdc).
           rc_abd (cs1 ! j) = Some (ABD_LINEAR (rc_size (rm_col rm0 ! j))))"
proof -
  note f = config_ok_facts [OF ok]
  note i = map_alloc_init_fields [OF ok init refl refl refl refl refl refl]
  have par_le: "unat (rm_firstdatacol rm0) \<le> length (rm_col rm0)" using i(4,5) f(4) by simp
  obtain cs1 where par: "vdev_draid_map_alloc_parity rm0 0 = Inr (rm0\<lparr>rm_col := cs1\<rparr>)"
    and len1: "length cs1 = length (rm_col rm0)"
    and nth1: "\<forall>j < length cs1. cs1 ! j =
           (if 0 \<le> j \<and> j < unat (rm_firstdatacol rm0)
            then (rm_col rm0 ! j)\<lparr>rc_abd := Some (ABD_LINEAR (rc_size (rm_col rm0 ! j)))\<rparr>
            else rm_col rm0 ! j)"
    using parity_loop_run [OF par_le, of 0] by blast
  have "rc_size (cs1 ! j) = rc_size (rm_col rm0 ! j)" if "j < unat (vdc_groupwidth vdc)" for j
    using nth1 len1 i(5) that by simp
  moreover have "rc_abd (cs1 ! j) = Some (ABD_LINEAR (rc_size (rm_col rm0 ! j)))"
    if "j < unat (vdc_nparity vdc)" for j
    using nth1 len1 i(4,5) that f(4) by simp
  ultimately show ?thesis using par len1 i(5) by (intro exI [of _ cs1]) simp
qed

lemma map_alloc_promoted_layout:
  assumes ok: "draid_config_ok vd vdc"
    and init: "vdev_draid_map_alloc_init vd zio = Inr rm0"
    and pr: "io_type zio = ZIO_TYPE_WRITE \<or>
       (rm_nskip rm0 > 0 \<and> (ZIO_FLAG_SCRUB \<in> io_flags zio \<or> ZIO_FLAG_RESILVER \<in> io_flags zio))"
  shows "\<exists>rm. vdev_draid_map_alloc vd zio = Inr rm
     \<and> rm_cols rm = rm_scols rm0 \<and> rm_scols rm = rm_scols rm0
     \<and> rm_bigcols rm = rm_bigcols rm0
     \<and> rm_asize rm = rm_asize rm0 \<and> rm_nskip rm = rm_nskip rm0
     \<and> rm_skipstart rm = rm_skipstart rm0 \<and> rm_firstdatacol rm = rm_firstdatacol rm0
     \<and> length (rm_col rm) = unat (vdc_groupwidth vdc)
     \<and> (\<forall>c < unat (vdc_groupwidth vdc).
           rc_size (rm_col rm ! c) = rc_size (rm_col rm0 ! 0)
         \<and> (\<exists>b. rc_abd (rm_col rm ! c) = Some b
               \<and> abd_get_size b = rc_size (rm_col rm0 ! 0)))"
proof -
  note f = config_ok_facts [OF ok]
  note w = config_ok_words [OF ok]
  define a where "a = unat (vdev_ashift vd)"
  define g where "g = unat (vdc_groupwidth vdc)"
  define p where "p = unat (vdc_nparity vdc)"
  define S0 where "S0 = rc_size (rm_col rm0 ! 0)"
  note i = map_alloc_init_fields [OF ok init refl refl refl refl refl refl]
  have gpos: "0 < g" using w(3) by (simp add: g_def)
  obtain cs1 where par: "vdev_draid_map_alloc_parity rm0 0 = Inr (rm0\<lparr>rm_col := cs1\<rparr>)"
    and len1: "length cs1 = g"
    and size1: "\<forall>j < g. rc_size (cs1 ! j) = rc_size (rm_col rm0 ! j)"
    and abd1: "\<forall>j < p. rc_abd (cs1 ! j) = Some (ABD_LINEAR (rc_size (rm_col rm0 ! j)))"
    using parity_buffers [OF ok init] unfolding g_def p_def by blast
  let ?rm1 = "rm0\<lparr>rm_col := cs1\<rparr>"
  have ne: "cs1 \<noteq> []" using len1 gpos by auto
  have par0: "rc_size (cs1 ! 0) = S0" using size1 gpos by (simp add: S0_def)
  \<comment> \<open>the size of the buffer that the write and the scrub layout attach to column \<open>j\<close>\<close>
  define F where "F j = (if rm_skipstart rm0 = 0 \<or> j < unat (rm_skipstart rm0)
          then rc_size (rm_col rm0 ! j)
          else if j < unat (rm_cols rm0) then rc_size (rm_col rm0 ! j) + push_bit a 1
          else push_bit a 1)" for j
  have F: "F j = S0" if "j < g" for j
    unfolding F_def S0_def a_def using that by (intro promoted_sizes(1) [OF ok init]) (simp add: g_def)
  have parity_col: "rc_size (cs1 ! j) = S0
      \<and> (\<exists>b. rc_abd (cs1 ! j) = Some b \<and> abd_get_size b = S0)" if "j < p" for j
  proof -
    have jg: "j < g" using that f(4) by (simp add: p_def g_def)
    have "j < unat (rm_firstdatacol rm0)" using that i(4) by (simp add: p_def)
    then have "rc_size (rm_col rm0 ! j) = S0"
      unfolding S0_def using jg by (intro promoted_sizes(2) [OF ok init]) (simp_all add: g_def)
    then show ?thesis using size1 abd1 jg that by simp
  qed
  have "\<exists>cs2 rm. vdev_draid_map_alloc vd zio = Inr rm
      \<and> rm_col rm = cs2 \<and> length cs2 = g
      \<and> rm_cols rm = rm_scols rm0 \<and> rm_scols rm = rm_scols rm0
      \<and> rm_bigcols rm = rm_bigcols rm0
      \<and> rm_asize rm = rm_asize rm0 \<and> rm_nskip rm = rm_nskip rm0
      \<and> rm_skipstart rm = rm_skipstart rm0 \<and> rm_firstdatacol rm = rm_firstdatacol rm0
      \<and> (\<forall>j < g. if p \<le> j
            then rc_size (cs2 ! j) = S0 \<and> (\<exists>b. rc_abd (cs2 ! j) = Some b \<and> abd_get_size b = S0)
            else cs2 ! j = cs1 ! j)"
  proof (cases "io_type zio = ZIO_TYPE_WRITE")
    case True
    have le: "unat (rm_scols ?rm1) \<le> length (rm_col ?rm1)" using i len1 by (simp add: g_def)
    obtain cs2 where run: "vdev_draid_map_alloc_write_loop (push_bit a 1) (rc_size (cs1 ! 0))
          ?rm1 (unat (rm_firstdatacol ?rm1)) 0 = Inr (?rm1\<lparr>rm_col := cs2\<rparr>)"
      and len2: "length cs2 = length (rm_col ?rm1)"
      and nth2: "\<forall>j < length cs2.
           if unat (rm_firstdatacol ?rm1) \<le> j \<and> j < unat (rm_scols ?rm1)
           then rc_devidx (cs2 ! j) = rc_devidx (rm_col ?rm1 ! j)
              \<and> rc_size (cs2 ! j) = rc_size (cs1 ! 0)
              \<and> (\<exists>a'. rc_abd (cs2 ! j) = Some a' \<and> abd_get_size a' =
                    (if rm_skipstart ?rm1 = 0 \<or> j < unat (rm_skipstart ?rm1)
                     then rc_size (rm_col ?rm1 ! j)
                     else if j < unat (rm_cols ?rm1) then rc_size (rm_col ?rm1 ! j) + push_bit a 1
                     else push_bit a 1))
           else cs2 ! j = rm_col ?rm1 ! j"
      using write_loop_run [OF le] by blast
    have l2: "length cs2 = g" using len2 len1 by simp
    have col: "if p \<le> j
            then rc_size (cs2 ! j) = S0 \<and> (\<exists>b. rc_abd (cs2 ! j) = Some b \<and> abd_get_size b = S0)
            else cs2 ! j = cs1 ! j" if j: "j < g" for j
    proof (cases "p \<le> j")
      case pj: True
      then have cond: "unat (rm_firstdatacol ?rm1) \<le> j \<and> j < unat (rm_scols ?rm1)"
        using j i by (simp add: p_def g_def)
      have jl: "j < length cs2" using j l2 by simp
      have d: "rc_size (cs2 ! j) = rc_size (cs1 ! 0)
          \<and> (\<exists>a'. rc_abd (cs2 ! j) = Some a' \<and> abd_get_size a' =
                    (if rm_skipstart ?rm1 = 0 \<or> j < unat (rm_skipstart ?rm1)
                     then rc_size (rm_col ?rm1 ! j)
                     else if j < unat (rm_cols ?rm1) then rc_size (rm_col ?rm1 ! j) + push_bit a 1
                     else push_bit a 1))"
        using nth2 [rule_format, OF jl] unfolding if_P [OF cond] by blast
      then obtain b where b: "rc_abd (cs2 ! j) = Some b" and bs: "abd_get_size b = F j"
        using size1 j by (auto simp: F_def)
      show ?thesis unfolding if_P [OF pj] using d b bs F [OF j] par0 by simp
    next
      case npj: False
      then have ncond: "\<not> (unat (rm_firstdatacol ?rm1) \<le> j \<and> j < unat (rm_scols ?rm1))"
        using i by (simp add: p_def)
      have jl: "j < length cs2" using j l2 by simp
      have same: "cs2 ! j = cs1 ! j"
        using nth2 [rule_format, OF jl] unfolding if_not_P [OF ncond] by simp
      show ?thesis unfolding if_not_P [OF npj] by (rule same)
    qed
    have res: "vdev_draid_map_alloc vd zio = Inr (?rm1\<lparr>rm_col := cs2, rm_cols := rm_scols rm0\<rparr>)"
      using init par True run ne w(1)
      by (simp add: vdev_draid_map_alloc_def vdev_draid_map_alloc_write_def Let_def not_le
          a_def [symmetric])
    show ?thesis
      using res l2 col
      by (intro exI [of _ cs2] exI [of _ "?rm1\<lparr>rm_col := cs2, rm_cols := rm_scols rm0\<rparr>"]) simp
  next
    case nw: False
    then have sc: "rm_nskip ?rm1 > 0 \<and>
        (ZIO_FLAG_SCRUB \<in> io_flags zio \<or> ZIO_FLAG_RESILVER \<in> io_flags zio)"
      using pr by simp
    let ?rm2 = "?rm1\<lparr>rm_abd_skip := Some (ABD_LINEAR (rm_nskip ?rm1 * push_bit a 1))\<rparr>"
    have le: "unat (rm_scols ?rm2) \<le> length (rm_col ?rm2)" using i len1 by (simp add: g_def)
    obtain cs2 where run: "vdev_draid_map_alloc_scrub_loop (push_bit a 1) ?rm2
            (unat (rm_firstdatacol ?rm2)) 0 = Inr (?rm2\<lparr>rm_col := cs2\<rparr>)"
      and len2: "length cs2 = length (rm_col ?rm2)"
      and nth2: "\<forall>j < length cs2.
           if unat (rm_firstdatacol ?rm2) \<le> j \<and> j < unat (rm_scols ?rm2)
           then (\<exists>a'. rc_abd (cs2 ! j) = Some a' \<and> rc_size (cs2 ! j) = abd_get_size a'
                  \<and> abd_get_size a' =
                    (if rm_skipstart ?rm2 = 0 \<or> j < unat (rm_skipstart ?rm2)
                     then rc_size (rm_col ?rm2 ! j)
                     else if j < unat (rm_cols ?rm2) then rc_size (rm_col ?rm2 ! j) + push_bit a 1
                     else push_bit a 1))
           else cs2 ! j = rm_col ?rm2 ! j"
      using scrub_loop_run [OF le] by blast
    have l2: "length cs2 = g" using len2 len1 by simp
    have col: "if p \<le> j
            then rc_size (cs2 ! j) = S0 \<and> (\<exists>b. rc_abd (cs2 ! j) = Some b \<and> abd_get_size b = S0)
            else cs2 ! j = cs1 ! j" if j: "j < g" for j
    proof (cases "p \<le> j")
      case pj: True
      then have cond: "unat (rm_firstdatacol ?rm2) \<le> j \<and> j < unat (rm_scols ?rm2)"
        using j i by (simp add: p_def g_def)
      have jl: "j < length cs2" using j l2 by simp
      have d: "\<exists>a'. rc_abd (cs2 ! j) = Some a' \<and> rc_size (cs2 ! j) = abd_get_size a'
                  \<and> abd_get_size a' =
                    (if rm_skipstart ?rm2 = 0 \<or> j < unat (rm_skipstart ?rm2)
                     then rc_size (rm_col ?rm2 ! j)
                     else if j < unat (rm_cols ?rm2) then rc_size (rm_col ?rm2 ! j) + push_bit a 1
                     else push_bit a 1)"
        using nth2 [rule_format, OF jl] unfolding if_P [OF cond] by blast
      then obtain b where b: "rc_abd (cs2 ! j) = Some b" "rc_size (cs2 ! j) = abd_get_size b"
        and bs: "abd_get_size b = F j"
        using size1 j by (auto simp: F_def)
      show ?thesis unfolding if_P [OF pj] using b bs F [OF j] by simp
    next
      case npj: False
      then have ncond: "\<not> (unat (rm_firstdatacol ?rm2) \<le> j \<and> j < unat (rm_scols ?rm2))"
        using i by (simp add: p_def)
      have jl: "j < length cs2" using j l2 by simp
      have same: "cs2 ! j = cs1 ! j"
        using nth2 [rule_format, OF jl] unfolding if_not_P [OF ncond] by simp
      show ?thesis unfolding if_not_P [OF npj] by (rule same)
    qed
    have res: "vdev_draid_map_alloc vd zio
        = Inr (?rm2\<lparr>rm_col := cs2, rm_cols := rm_scols rm0\<rparr>)"
      using init par nw sc run w(1)
      by (simp add: vdev_draid_map_alloc_def vdev_draid_map_alloc_scrub_def Let_def not_le
          a_def [symmetric])
    show ?thesis
      using res l2 col
      by (intro exI [of _ cs2] exI [of _ "?rm2\<lparr>rm_col := cs2, rm_cols := rm_scols rm0\<rparr>"]) simp
  qed
  then obtain cs2 rm where res: "vdev_draid_map_alloc vd zio = Inr rm"
    and flds: "rm_col rm = cs2" "length cs2 = g"
      "rm_cols rm = rm_scols rm0" "rm_scols rm = rm_scols rm0"
      "rm_bigcols rm = rm_bigcols rm0"
      "rm_asize rm = rm_asize rm0" "rm_nskip rm = rm_nskip rm0"
      "rm_skipstart rm = rm_skipstart rm0" "rm_firstdatacol rm = rm_firstdatacol rm0"
    and col: "\<forall>j < g. if p \<le> j
            then rc_size (cs2 ! j) = S0 \<and> (\<exists>b. rc_abd (cs2 ! j) = Some b \<and> abd_get_size b = S0)
            else cs2 ! j = cs1 ! j"
    by blast
  have "rc_size (cs2 ! j) = S0 \<and> (\<exists>b. rc_abd (cs2 ! j) = Some b \<and> abd_get_size b = S0)"
    if j: "j < g" for j
  proof (cases "p \<le> j")
    case True
    show ?thesis using col [rule_format, OF j] unfolding if_P [OF True] .
  next
    case False
    then have jp: "j < p" by simp
    have "cs2 ! j = cs1 ! j" using col [rule_format, OF j] unfolding if_not_P [OF False] .
    then show ?thesis using parity_col [OF jp] by simp
  qed
  then show ?thesis
    using res flds unfolding S0_def g_def by (intro exI [of _ rm]) simp
qed

lemma map_alloc_read_layout:
  assumes ok: "draid_config_ok vd vdc"
    and init: "vdev_draid_map_alloc_init vd zio = Inr rm0"
    and npr: "\<not> (io_type zio = ZIO_TYPE_WRITE \<or>
       (rm_nskip rm0 > 0 \<and> (ZIO_FLAG_SCRUB \<in> io_flags zio \<or> ZIO_FLAG_RESILVER \<in> io_flags zio)))"
  shows "\<exists>rm. vdev_draid_map_alloc vd zio = Inr rm
     \<and> rm_cols rm = rm_cols rm0 \<and> rm_scols rm = rm_scols rm0
     \<and> rm_bigcols rm = rm_bigcols rm0
     \<and> rm_asize rm = rm_asize rm0 \<and> rm_nskip rm = rm_nskip rm0
     \<and> rm_skipstart rm = rm_skipstart rm0 \<and> rm_firstdatacol rm = rm_firstdatacol rm0
     \<and> length (rm_col rm) = unat (vdc_groupwidth vdc)
     \<and> (\<forall>c < unat (vdc_groupwidth vdc). rc_size (rm_col rm ! c) = rc_size (rm_col rm0 ! c))
     \<and> (\<forall>c < unat (rm_cols rm0). \<exists>b. rc_abd (rm_col rm ! c) = Some b
               \<and> abd_get_size b = rc_size (rm_col rm0 ! c))"
proof -
  note f = config_ok_facts [OF ok]
  note w = config_ok_words [OF ok]
  define g where "g = unat (vdc_groupwidth vdc)"
  define p where "p = unat (vdc_nparity vdc)"
  note i = map_alloc_init_fields [OF ok init refl refl refl refl refl refl]
  note c = stripe_cols_le [OF ok refl refl refl refl]
  have cols_le: "unat (rm_cols rm0) \<le> g" unfolding i(1) g_def by (rule c(4))
  obtain cs1 where par: "vdev_draid_map_alloc_parity rm0 0 = Inr (rm0\<lparr>rm_col := cs1\<rparr>)"
    and len1: "length cs1 = g"
    and size1: "\<forall>j < g. rc_size (cs1 ! j) = rc_size (rm_col rm0 ! j)"
    and abd1: "\<forall>j < p. rc_abd (cs1 ! j) = Some (ABD_LINEAR (rc_size (rm_col rm0 ! j)))"
    using parity_buffers [OF ok init] unfolding g_def p_def by blast
  let ?rm1 = "rm0\<lparr>rm_col := cs1\<rparr>"
  have le: "unat (rm_cols ?rm1) \<le> length (rm_col ?rm1)" using cols_le len1 by simp
  obtain cs2 where run: "vdev_draid_map_alloc_read_loop ?rm1 (unat (rm_firstdatacol ?rm1)) 0
        = Inr (?rm1\<lparr>rm_col := cs2\<rparr>)"
    and len2: "length cs2 = length (rm_col ?rm1)"
    and nth2: "\<forall>j < length cs2.
           if unat (rm_firstdatacol ?rm1) \<le> j \<and> j < unat (rm_cols ?rm1)
           then rc_size (cs2 ! j) = rc_size (rm_col ?rm1 ! j)
              \<and> (\<exists>a. rc_abd (cs2 ! j) = Some a \<and> abd_get_size a = rc_size (rm_col ?rm1 ! j))
           else cs2 ! j = rm_col ?rm1 ! j"
    using read_loop_run [OF le] by blast
  have l2: "length cs2 = g" using len2 len1 by simp
  have col: "rc_size (cs2 ! j) = rc_size (rm_col rm0 ! j)
      \<and> (j < unat (rm_cols rm0) \<longrightarrow>
           (\<exists>b. rc_abd (cs2 ! j) = Some b \<and> abd_get_size b = rc_size (rm_col rm0 ! j)))"
    if j: "j < g" for j
  proof (cases "unat (rm_firstdatacol ?rm1) \<le> j \<and> j < unat (rm_cols ?rm1)")
    case True
    have jl: "j < length cs2" using j l2 by simp
    have "rc_size (cs2 ! j) = rc_size (rm_col ?rm1 ! j)
        \<and> (\<exists>a. rc_abd (cs2 ! j) = Some a \<and> abd_get_size a = rc_size (rm_col ?rm1 ! j))"
      using nth2 [rule_format, OF jl] unfolding if_P [OF True] .
    then show ?thesis using size1 j by simp
  next
    case False
    have jl: "j < length cs2" using j l2 by simp
    have same: "cs2 ! j = cs1 ! j"
      using nth2 [rule_format, OF jl] unfolding if_not_P [OF False] by simp
    have "\<exists>b. rc_abd (cs1 ! j) = Some b \<and> abd_get_size b = rc_size (rm_col rm0 ! j)"
      if "j < unat (rm_cols rm0)"
    proof -
      have "j < p" using False that i(4) by (simp add: p_def)
      then show ?thesis using abd1 by simp
    qed
    then show ?thesis using same size1 j by simp
  qed
  have res: "vdev_draid_map_alloc vd zio = Inr (?rm1\<lparr>rm_col := cs2\<rparr>)"
    using init par npr run
    by (auto simp add: vdev_draid_map_alloc_def vdev_draid_map_alloc_read_def)
  show ?thesis
    using res l2 col cols_le unfolding g_def
    by (intro exI [of _ "?rm1\<lparr>rm_col := cs2\<rparr>"]) simp
qed

lemma map_alloc_returned_map:
  assumes ok: "draid_config_ok vd vdc"
    and nz: "io_size zio \<noteq> 0"
    and al: "unat (io_size zio) mod 2 ^ unat (vdev_ashift vd) = 0"
    and grp: "io_in_one_group vd zio"
    and nat_defs: "a = unat (vdev_ashift vd)" "ps = unat (io_size zio) div 2 ^ a"
      "n = unat (vdc_ndata vdc)" "p = unat (vdc_nparity vdc)" "g = unat (vdc_groupwidth vdc)"
      "q = ps div n" "r = ps - q * n" "bc = (if r = 0 then 0 else r + p)"
      "tot = ps + p * (q + (if r = 0 then 0 else 1))"
  shows "\<exists>rm. vdev_draid_map_alloc vd zio = Inr rm
     \<and> unat (rm_scols rm) = g \<and> length (rm_col rm) = g
     \<and> unat (rm_bigcols rm) = bc \<and> unat (rm_skipstart rm) = bc
     \<and> unat (rm_firstdatacol rm) = p
     \<and> unat (rm_asize rm) = ((tot * 2 ^ a + g * 2 ^ a - 1) div (g * 2 ^ a)) * (g * 2 ^ a)
     \<and> unat (rm_nskip rm) = ((tot + g - 1) div g) * g - tot
     \<and> unat (rm_nskip rm) < n
     \<and> (if io_type zio = ZIO_TYPE_WRITE \<or>
            (0 < rm_nskip rm \<and>
             (ZIO_FLAG_SCRUB \<in> io_flags zio \<or> ZIO_FLAG_RESILVER \<in> io_flags zio))
         then unat (rm_cols rm) = g
            \<and> (\<forall>i < g. unat (rc_size (rm_col rm ! i)) = (if r = 0 then q else q + 1) * 2 ^ a
                  \<and> (\<exists>b. rc_abd (rm_col rm ! i) = Some b
                        \<and> unat (abd_get_size b) = (if r = 0 then q else q + 1) * 2 ^ a))
         else unat (rm_cols rm) = (if q = 0 then bc else g)
            \<and> (\<forall>i < g. unat (rc_size (rm_col rm ! i)) =
                  (if i < bc then (q + 1) * 2 ^ a
                   else if i < (if q = 0 then bc else g) then q * 2 ^ a else 0))
            \<and> (\<forall>i < (if q = 0 then bc else g).
                  \<exists>b. rc_abd (rm_col rm ! i) = Some b
                     \<and> abd_get_size b = rc_size (rm_col rm ! i)))"
proof -
  note w = config_ok_words [OF ok]
  define cols where "cols = (if q = 0 then bc else g)"
  obtain rm0 where init: "vdev_draid_map_alloc_init vd zio = Inr rm0"
    and i0: "unat (rm_scols rm0) = g" "length (rm_col rm0) = g"
      "unat (rm_cols rm0) = cols"
      "unat (rm_bigcols rm0) = bc" "unat (rm_skipstart rm0) = bc"
      "unat (rm_firstdatacol rm0) = p"
    and sz0: "\<forall>i < g. unat (rc_size (rm_col rm0 ! i)) =
            (if i < bc then (q + 1) * 2 ^ a
             else if i < unat (rm_cols rm0) then q * 2 ^ a else 0)"
    and as0: "unat (rm_asize rm0) = ((tot * 2 ^ a + g * 2 ^ a - 1) div (g * 2 ^ a)) * (g * 2 ^ a)"
    and ns0: "unat (rm_nskip rm0) = ((tot + g - 1) div g) * g - tot" "unat (rm_nskip rm0) < n"
    using map_alloc_init_sizes [OF ok nz al grp nat_defs] unfolding cols_def by blast
  have gpos: "0 < g" using w(3) by (simp add: nat_defs(5))
  have sz: "unat (rc_size (rm_col rm0 ! i)) =
            (if i < bc then (q + 1) * 2 ^ a else if i < cols then q * 2 ^ a else 0)"
    if "i < g" for i
    using sz0 that i0(3) by simp
  have first: "unat (rc_size (rm_col rm0 ! 0)) = (if r = 0 then q else q + 1) * 2 ^ a"
    using sz [OF gpos] gpos by (auto simp: cols_def nat_defs(8))
  define pr where "pr = (io_type zio = ZIO_TYPE_WRITE \<or>
       (rm_nskip rm0 > 0 \<and> (ZIO_FLAG_SCRUB \<in> io_flags zio \<or> ZIO_FLAG_RESILVER \<in> io_flags zio)))"
  show ?thesis
  proof (cases pr)
    case True
    obtain rm where res: "vdev_draid_map_alloc vd zio = Inr rm"
      and fl: "rm_cols rm = rm_scols rm0" "rm_scols rm = rm_scols rm0"
        "rm_bigcols rm = rm_bigcols rm0"
        "rm_asize rm = rm_asize rm0" "rm_nskip rm = rm_nskip rm0"
        "rm_skipstart rm = rm_skipstart rm0" "rm_firstdatacol rm = rm_firstdatacol rm0"
        "length (rm_col rm) = g"
      and col: "\<forall>c < g. rc_size (rm_col rm ! c) = rc_size (rm_col rm0 ! 0)
         \<and> (\<exists>b. rc_abd (rm_col rm ! c) = Some b
               \<and> abd_get_size b = rc_size (rm_col rm0 ! 0))"
      using map_alloc_promoted_layout [OF ok init True [unfolded pr_def]]
      unfolding nat_defs(5) by blast
    have cond: "io_type zio = ZIO_TYPE_WRITE \<or>
            (0 < rm_nskip rm \<and>
             (ZIO_FLAG_SCRUB \<in> io_flags zio \<or> ZIO_FLAG_RESILVER \<in> io_flags zio))"
      using True unfolding pr_def fl(5) .
    have cols: "\<forall>i < g. unat (rc_size (rm_col rm ! i)) = (if r = 0 then q else q + 1) * 2 ^ a
                  \<and> (\<exists>b. rc_abd (rm_col rm ! i) = Some b
                        \<and> unat (abd_get_size b) = (if r = 0 then q else q + 1) * 2 ^ a)"
      using col first by auto
    have body: "unat (rm_cols rm) = g
            \<and> (\<forall>i < g. unat (rc_size (rm_col rm ! i)) = (if r = 0 then q else q + 1) * 2 ^ a
                  \<and> (\<exists>b. rc_abd (rm_col rm ! i) = Some b
                        \<and> unat (abd_get_size b) = (if r = 0 then q else q + 1) * 2 ^ a))"
      using cols fl(1) i0(1) by simp
    have s: "unat (rm_scols rm) = g" "unat (rm_bigcols rm) = bc" "unat (rm_skipstart rm) = bc"
      "unat (rm_firstdatacol rm) = p"
      "unat (rm_asize rm) = ((tot * 2 ^ a + g * 2 ^ a - 1) div (g * 2 ^ a)) * (g * 2 ^ a)"
      "unat (rm_nskip rm) = ((tot + g - 1) div g) * g - tot" "unat (rm_nskip rm) < n"
      using fl i0 as0 ns0 by simp_all
    have final: "if io_type zio = ZIO_TYPE_WRITE \<or>
            (0 < rm_nskip rm \<and>
             (ZIO_FLAG_SCRUB \<in> io_flags zio \<or> ZIO_FLAG_RESILVER \<in> io_flags zio))
         then unat (rm_cols rm) = g
            \<and> (\<forall>i < g. unat (rc_size (rm_col rm ! i)) = (if r = 0 then q else q + 1) * 2 ^ a
                  \<and> (\<exists>b. rc_abd (rm_col rm ! i) = Some b
                        \<and> unat (abd_get_size b) = (if r = 0 then q else q + 1) * 2 ^ a))
         else unat (rm_cols rm) = (if q = 0 then bc else g)
            \<and> (\<forall>i < g. unat (rc_size (rm_col rm ! i)) =
                  (if i < bc then (q + 1) * 2 ^ a
                   else if i < (if q = 0 then bc else g) then q * 2 ^ a else 0))
            \<and> (\<forall>i < (if q = 0 then bc else g).
                  \<exists>b. rc_abd (rm_col rm ! i) = Some b
                     \<and> abd_get_size b = rc_size (rm_col rm ! i))"
      unfolding if_P [OF cond] by (rule body)
    show ?thesis
      by (intro exI [of _ rm] conjI) (rule res s fl(8) final)+
  next
    case False
    obtain rm where res: "vdev_draid_map_alloc vd zio = Inr rm"
      and fl: "rm_cols rm = rm_cols rm0" "rm_scols rm = rm_scols rm0"
        "rm_bigcols rm = rm_bigcols rm0"
        "rm_asize rm = rm_asize rm0" "rm_nskip rm = rm_nskip rm0"
        "rm_skipstart rm = rm_skipstart rm0" "rm_firstdatacol rm = rm_firstdatacol rm0"
        "length (rm_col rm) = g"
      and col: "\<forall>c < g. rc_size (rm_col rm ! c) = rc_size (rm_col rm0 ! c)"
      and buf: "\<forall>c < unat (rm_cols rm0). \<exists>b. rc_abd (rm_col rm ! c) = Some b
               \<and> abd_get_size b = rc_size (rm_col rm0 ! c)"
      using map_alloc_read_layout [OF ok init False [unfolded pr_def]]
      unfolding nat_defs(5) by blast
    have cond: "\<not> (io_type zio = ZIO_TYPE_WRITE \<or>
            (0 < rm_nskip rm \<and>
             (ZIO_FLAG_SCRUB \<in> io_flags zio \<or> ZIO_FLAG_RESILVER \<in> io_flags zio)))"
      using False unfolding pr_def fl(5) .
    have cols_le: "cols \<le> g"
    proof -
      have npos: "0 < n" using config_ok_facts(3) [OF ok] by (simp add: nat_defs(3))
      have gnp: "g = n + p" using config_ok_facts(4) [OF ok] by (simp add: nat_defs(3,4,5))
      have "r = ps mod n" unfolding nat_defs(7) nat_defs(6) by (metis minus_div_mult_eq_mod)
      then have "r < n" using npos by simp
      then have "bc \<le> g" using gnp by (simp add: nat_defs(8))
      then show ?thesis by (simp add: cols_def)
    qed
    have sizes: "\<forall>i < g. unat (rc_size (rm_col rm ! i)) =
                  (if i < bc then (q + 1) * 2 ^ a
                   else if i < (if q = 0 then bc else g) then q * 2 ^ a else 0)"
      using col sz by (simp add: cols_def)
    have bufs: "\<forall>i < (if q = 0 then bc else g).
                  \<exists>b. rc_abd (rm_col rm ! i) = Some b
                     \<and> abd_get_size b = rc_size (rm_col rm ! i)"
    proof (intro allI impI)
      fix i assume "i < (if q = 0 then bc else g)"
      then have ic: "i < unat (rm_cols rm0)" by (simp add: i0(3) cols_def)
      then have ig: "i < g" using cols_le i0(3) by simp
      show "\<exists>b. rc_abd (rm_col rm ! i) = Some b \<and> abd_get_size b = rc_size (rm_col rm ! i)"
        using buf [rule_format, OF ic] col [rule_format, OF ig] by simp
    qed
    have body: "unat (rm_cols rm) = (if q = 0 then bc else g)
            \<and> (\<forall>i < g. unat (rc_size (rm_col rm ! i)) =
                  (if i < bc then (q + 1) * 2 ^ a
                   else if i < (if q = 0 then bc else g) then q * 2 ^ a else 0))
            \<and> (\<forall>i < (if q = 0 then bc else g).
                  \<exists>b. rc_abd (rm_col rm ! i) = Some b
                     \<and> abd_get_size b = rc_size (rm_col rm ! i))"
      using sizes bufs fl(1) i0(3) by (simp add: cols_def)
    have s: "unat (rm_scols rm) = g" "unat (rm_bigcols rm) = bc" "unat (rm_skipstart rm) = bc"
      "unat (rm_firstdatacol rm) = p"
      "unat (rm_asize rm) = ((tot * 2 ^ a + g * 2 ^ a - 1) div (g * 2 ^ a)) * (g * 2 ^ a)"
      "unat (rm_nskip rm) = ((tot + g - 1) div g) * g - tot" "unat (rm_nskip rm) < n"
      using fl i0 as0 ns0 by simp_all
    have final: "if io_type zio = ZIO_TYPE_WRITE \<or>
            (0 < rm_nskip rm \<and>
             (ZIO_FLAG_SCRUB \<in> io_flags zio \<or> ZIO_FLAG_RESILVER \<in> io_flags zio))
         then unat (rm_cols rm) = g
            \<and> (\<forall>i < g. unat (rc_size (rm_col rm ! i)) = (if r = 0 then q else q + 1) * 2 ^ a
                  \<and> (\<exists>b. rc_abd (rm_col rm ! i) = Some b
                        \<and> unat (abd_get_size b) = (if r = 0 then q else q + 1) * 2 ^ a))
         else unat (rm_cols rm) = (if q = 0 then bc else g)
            \<and> (\<forall>i < g. unat (rc_size (rm_col rm ! i)) =
                  (if i < bc then (q + 1) * 2 ^ a
                   else if i < (if q = 0 then bc else g) then q * 2 ^ a else 0))
            \<and> (\<forall>i < (if q = 0 then bc else g).
                  \<exists>b. rc_abd (rm_col rm ! i) = Some b
                     \<and> abd_get_size b = rc_size (rm_col rm ! i))"
      unfolding if_not_P [OF cond] by (rule body)
    show ?thesis
      by (intro exI [of _ rm] conjI) (rule res s fl(8) final)+
  qed
qed

text \<open>
  Claim C2, as amended. For a well-formed dRAID configuration and an I/O whose size is a
  positive multiple of the sector size \<open>2^a\<close> and which lies within one group, let \<open>ps\<close> be the
  size in sectors, \<open>q = ps / ndata\<close>, \<open>r = ps - q * ndata\<close>, \<open>bc = (r = 0 ? 0 : r + nparity)\<close>
  and \<open>tot = ps + nparity * (q + (r = 0 ? 0 : 1))\<close>. Then \<open>vdev_draid_map_alloc\<close> returns a map
  of \<open>groupwidth\<close> columns with \<open>rm_scols = groupwidth\<close>, \<open>rm_bigcols = rm_skipstart = bc\<close> and
  \<open>rm_firstdatacol = nparity\<close>; \<open>rm_asize\<close> is \<open>tot * 2^a\<close> rounded up to a multiple of
  \<open>groupwidth * 2^a\<close>; \<open>rm_nskip\<close> is \<open>roundup(tot, groupwidth) - tot\<close> and is below \<open>ndata\<close>.

  For a normal read (not a write, and not a scrub or resilver read of a row with skip
  sectors) \<open>rm_cols\<close> is \<open>cols = (q = 0 ? bc : groupwidth)\<close>, column \<open>i\<close> has \<open>q + 1\<close> sectors for
  \<open>i < bc\<close>, \<open>q\<close> sectors for \<open>bc \<le> i < cols\<close> and size 0 beyond, and every column below \<open>cols\<close>
  has a buffer of its size.

  For a write, and for a scrub or resilver read of a row with skip sectors, \<open>rm_cols\<close> is
  \<open>groupwidth\<close>, and every one of the \<open>groupwidth\<close> columns has a buffer, its size and the size
  of its buffer being the parity size, which is \<open>q + 1\<close> sectors if \<open>r > 0\<close> and \<open>q\<close> sectors
  otherwise.
\<close>

theorem map_alloc_column_sizes:
  assumes ok: "draid_config_ok vd vdc"
    and nz: "io_size zio \<noteq> 0"
    and al: "unat (io_size zio) mod 2 ^ unat (vdev_ashift vd) = 0"
    and grp: "io_in_one_group vd zio"
    and nat_defs: "a = unat (vdev_ashift vd)" "ps = unat (io_size zio) div 2 ^ a"
      "n = unat (vdc_ndata vdc)" "p = unat (vdc_nparity vdc)" "g = unat (vdc_groupwidth vdc)"
      "q = ps div n" "r = ps - q * n" "bc = (if r = 0 then 0 else r + p)"
      "tot = ps + p * (q + (if r = 0 then 0 else 1))"
  shows "\<exists>rm. vdev_draid_map_alloc vd zio = Inr rm
     \<and> unat (rm_scols rm) = g \<and> length (rm_col rm) = g
     \<and> unat (rm_bigcols rm) = bc \<and> unat (rm_skipstart rm) = bc
     \<and> unat (rm_firstdatacol rm) = p
     \<and> unat (rm_asize rm) = ((tot * 2 ^ a + g * 2 ^ a - 1) div (g * 2 ^ a)) * (g * 2 ^ a)
     \<and> unat (rm_nskip rm) = ((tot + g - 1) div g) * g - tot
     \<and> unat (rm_nskip rm) < n
     \<and> (if io_type zio = ZIO_TYPE_WRITE \<or>
            (0 < rm_nskip rm \<and>
             (ZIO_FLAG_SCRUB \<in> io_flags zio \<or> ZIO_FLAG_RESILVER \<in> io_flags zio))
         then unat (rm_cols rm) = g
            \<and> (\<forall>i < g. unat (rc_size (rm_col rm ! i)) = (if r = 0 then q else q + 1) * 2 ^ a
                  \<and> (\<exists>b. rc_abd (rm_col rm ! i) = Some b
                        \<and> unat (abd_get_size b) = (if r = 0 then q else q + 1) * 2 ^ a))
         else unat (rm_cols rm) = (if q = 0 then bc else g)
            \<and> (\<forall>i < g. unat (rc_size (rm_col rm ! i)) =
                  (if i < bc then (q + 1) * 2 ^ a
                   else if i < (if q = 0 then bc else g) then q * 2 ^ a else 0))
            \<and> (\<forall>i < (if q = 0 then bc else g).
                  \<exists>b. rc_abd (rm_col rm ! i) = Some b
                     \<and> abd_get_size b = rc_size (rm_col rm ! i)))"
  using assms by (rule map_alloc_returned_map)

lemma zio_write_fields:
  "io_type (zio_write off sz) = ZIO_TYPE_WRITE" "io_offset (zio_write off sz) = off"
  "io_size (zio_write off sz) = sz" "io_flags (zio_write off sz) = {}"
  by (simp_all add: zio_write_def)

lemma zio_read_fields:
  "io_type (zio_read off sz) = ZIO_TYPE_READ" "io_offset (zio_read off sz) = off"
  "io_size (zio_read off sz) = sz" "io_flags (zio_read off sz) = {}"
  by (simp_all add: zio_read_def)

lemma draid_14_one_group: "io_in_one_group draid_14 (zio_write 0 4096)"
  by (simp add: io_in_one_group_def vdev_draid_offset_to_group_def zio_write_fields
      draid_14_fields vdc_14_fields)

lemma draid_14_read_one_group: "io_in_one_group draid_14 (zio_read 0 4096)"
  by (simp add: io_in_one_group_def vdev_draid_offset_to_group_def zio_read_fields
      draid_14_fields vdc_14_fields)

lemma draid_14_sector_numbers:
  "(12::nat) = unat (vdev_ashift draid_14)"
  "(8::nat) = unat (vdc_ndata vdc_14)" "(1::nat) = unat (vdc_nparity vdc_14)"
  "(9::nat) = unat (vdc_groupwidth vdc_14)"
  "(0::nat) = 1 div 8" "(1::nat) = 1 - 0 * 8" "(2::nat) = (if (1::nat) = 0 then 0 else 1 + 1)"
  "(2::nat) = 1 + 1 * (0 + (if (1::nat) = 0 then 0 else 1))"
  by (simp_all add: draid_14_fields vdc_14_fields)

text \<open>
  One 4 KiB sector at offset 0 of the 8+1 dRAID (\<open>q = 0\<close>, \<open>r = 1\<close>, \<open>bc = cols = 2\<close>): seven
  skip sectors and 36864 bytes allocated. The map of a read has two columns of 4096 bytes
  and nothing in column 2; the map of a write has nine columns, column 8 too being 4096
  bytes long.
\<close>

theorem map_alloc_column_sizes_witness:
  "draid_config_ok draid_14 vdc_14 \<and> io_size (zio_write 0 4096) \<noteq> 0
   \<and> unat (io_size (zio_write 0 4096)) mod 2 ^ unat (vdev_ashift draid_14) = 0
   \<and> io_in_one_group draid_14 (zio_write 0 4096)
   \<and> io_in_one_group draid_14 (zio_read 0 4096)
   \<and> (\<exists>rm. vdev_draid_map_alloc draid_14 (zio_write 0 4096) = Inr rm
        \<and> unat (rm_cols rm) = 9 \<and> unat (rm_asize rm) = 36864 \<and> unat (rm_nskip rm) = 7
        \<and> length (rm_col rm) = 9 \<and> unat (rc_size (rm_col rm ! 8)) = 4096)
   \<and> (\<exists>rm. vdev_draid_map_alloc draid_14 (zio_read 0 4096) = Inr rm
        \<and> unat (rm_cols rm) = 2 \<and> unat (rm_asize rm) = 36864 \<and> unat (rm_nskip rm) = 7
        \<and> length (rm_col rm) = 9 \<and> unat (rc_size (rm_col rm ! 1)) = 4096
        \<and> unat (rc_size (rm_col rm ! 2)) = 0)"
proof -
  have nz: "io_size (zio_write 0 4096) \<noteq> 0" by (simp add: zio_write_fields)
  have al: "unat (io_size (zio_write 0 4096)) mod 2 ^ unat (vdev_ashift draid_14) = 0"
    by (simp add: zio_write_fields draid_14_fields)
  have ps: "(1::nat) = unat (io_size (zio_write 0 4096)) div 2 ^ 12"
    by (simp add: zio_write_fields)
  note d = draid_14_sector_numbers
  have "\<exists>rm. vdev_draid_map_alloc draid_14 (zio_write 0 4096) = Inr rm
       \<and> length (rm_col rm) = 9
       \<and> unat (rm_asize rm) = ((2 * 2 ^ 12 + 9 * 2 ^ 12 - 1) div (9 * 2 ^ 12)) * (9 * 2 ^ 12)
       \<and> unat (rm_nskip rm) = ((2 + 9 - 1) div 9) * 9 - 2
       \<and> unat (rm_cols rm) = 9
       \<and> (\<forall>i < 9. unat (rc_size (rm_col rm ! i)) = (if (1::nat) = 0 then 0 else 0 + 1) * 2 ^ 12
            \<and> (\<exists>b. rc_abd (rm_col rm ! i) = Some b
                 \<and> unat (abd_get_size b) = (if (1::nat) = 0 then 0 else 0 + 1) * 2 ^ 12))"
    using map_alloc_column_sizes [OF draid_14_ok nz al draid_14_one_group d(1) ps d(2-8)]
    unfolding zio_write_fields by (simp only: simp_thms if_True) blast
  then obtain rm where w: "vdev_draid_map_alloc draid_14 (zio_write 0 4096) = Inr rm"
      "length (rm_col rm) = 9" "unat (rm_asize rm) = 36864" "unat (rm_nskip rm) = 7"
      "unat (rm_cols rm) = 9"
    and wc: "\<forall>i < 9. unat (rc_size (rm_col rm ! i)) = (if (1::nat) = 0 then 0 else 0 + 1) * 2 ^ 12
            \<and> (\<exists>b. rc_abd (rm_col rm ! i) = Some b
                 \<and> unat (abd_get_size b) = (if (1::nat) = 0 then 0 else 0 + 1) * 2 ^ 12)"
    by auto
  have w8: "unat (rc_size (rm_col rm ! 8)) = 4096" using wc [rule_format, of 8] by simp
  have nz': "io_size (zio_read 0 4096) \<noteq> 0" by (simp add: zio_read_fields)
  have al': "unat (io_size (zio_read 0 4096)) mod 2 ^ unat (vdev_ashift draid_14) = 0"
    by (simp add: zio_read_fields draid_14_fields)
  have ps': "(1::nat) = unat (io_size (zio_read 0 4096)) div 2 ^ 12"
    by (simp add: zio_read_fields)
  have rd: "\<not> (io_type (zio_read 0 4096) = ZIO_TYPE_WRITE \<or>
            (0 < rm_nskip x \<and>
             (ZIO_FLAG_SCRUB \<in> io_flags (zio_read 0 4096)
              \<or> ZIO_FLAG_RESILVER \<in> io_flags (zio_read 0 4096))))" for x :: raidz_map
    by (simp add: zio_read_fields)
  have "\<exists>rm. vdev_draid_map_alloc draid_14 (zio_read 0 4096) = Inr rm
       \<and> length (rm_col rm) = 9
       \<and> unat (rm_asize rm) = ((2 * 2 ^ 12 + 9 * 2 ^ 12 - 1) div (9 * 2 ^ 12)) * (9 * 2 ^ 12)
       \<and> unat (rm_nskip rm) = ((2 + 9 - 1) div 9) * 9 - 2
       \<and> unat (rm_cols rm) = (if (0::nat) = 0 then 2 else 9)
       \<and> (\<forall>i < 9. unat (rc_size (rm_col rm ! i)) =
                  (if i < 2 then (0 + 1) * 2 ^ 12
                   else if i < (if (0::nat) = 0 then 2 else 9) then 0 * 2 ^ 12 else 0))"
    using map_alloc_column_sizes [OF draid_14_ok nz' al' draid_14_read_one_group d(1) ps' d(2-8)]
    unfolding if_not_P [OF rd] by blast
  then obtain rm' where r: "vdev_draid_map_alloc draid_14 (zio_read 0 4096) = Inr rm'"
      "length (rm_col rm') = 9" "unat (rm_asize rm') = 36864" "unat (rm_nskip rm') = 7"
      "unat (rm_cols rm') = 2"
    and rc: "\<forall>i < 9. unat (rc_size (rm_col rm' ! i)) =
                  (if i < 2 then (0 + 1) * 2 ^ 12
                   else if i < (if (0::nat) = 0 then 2 else 9) then 0 * 2 ^ 12 else 0)"
    by auto
  have r1: "unat (rc_size (rm_col rm' ! 1)) = 4096" using rc [rule_format, of 1] by simp
  have r2: "unat (rc_size (rm_col rm' ! 2)) = 0" using rc [rule_format, of 2] by simp
  have W: "\<exists>rm. vdev_draid_map_alloc draid_14 (zio_write 0 4096) = Inr rm
        \<and> unat (rm_cols rm) = 9 \<and> unat (rm_asize rm) = 36864 \<and> unat (rm_nskip rm) = 7
        \<and> length (rm_col rm) = 9 \<and> unat (rc_size (rm_col rm ! 8)) = 4096"
    using w w8 by blast
  have R: "\<exists>rm. vdev_draid_map_alloc draid_14 (zio_read 0 4096) = Inr rm
        \<and> unat (rm_cols rm) = 2 \<and> unat (rm_asize rm) = 36864 \<and> unat (rm_nskip rm) = 7
        \<and> length (rm_col rm) = 9 \<and> unat (rc_size (rm_col rm ! 1)) = 4096
        \<and> unat (rc_size (rm_col rm ! 2)) = 0"
    using r r1 r2 by blast
  show ?thesis
    by (intro conjI) (rule draid_14_ok nz al draid_14_one_group draid_14_read_one_group W R)+
qed

text \<open>
  Claim C2 as stated fails for the map of a write. For one 4 KiB sector on the 8+1 dRAID
  the decomposition is \<open>q = 0\<close>, \<open>r = 1\<close>, \<open>bc = 2\<close> and \<open>cols = 2\<close>, so the claim gives column 2
  the size 0. In the map that \<open>vdev_draid_map_alloc\<close> returns for the write, \<open>rm_cols\<close> is 9
  and column 2 is 4096 bytes long: the write layout has set every column to the parity size.
\<close>

theorem map_alloc_write_sizes_counterexample:
  "\<exists>rm. vdev_draid_map_alloc draid_14 (zio_write 0 4096) = Inr rm
     \<and> unat (rm_bigcols rm) = 2 \<and> unat (rm_cols rm) = 9
     \<and> unat (rc_size (rm_col rm ! 2)) = 4096"
proof -
  have nz: "io_size (zio_write 0 4096) \<noteq> 0" by (simp add: zio_write_fields)
  have al: "unat (io_size (zio_write 0 4096)) mod 2 ^ unat (vdev_ashift draid_14) = 0"
    by (simp add: zio_write_fields draid_14_fields)
  have ps: "(1::nat) = unat (io_size (zio_write 0 4096)) div 2 ^ 12"
    by (simp add: zio_write_fields)
  note d = draid_14_sector_numbers
  have "\<exists>rm. vdev_draid_map_alloc draid_14 (zio_write 0 4096) = Inr rm
       \<and> unat (rm_bigcols rm) = 2
       \<and> unat (rm_cols rm) = 9
       \<and> (\<forall>i < 9. unat (rc_size (rm_col rm ! i)) = (if (1::nat) = 0 then 0 else 0 + 1) * 2 ^ 12
            \<and> (\<exists>b. rc_abd (rm_col rm ! i) = Some b
                 \<and> unat (abd_get_size b) = (if (1::nat) = 0 then 0 else 0 + 1) * 2 ^ 12))"
    using map_alloc_returned_map [OF draid_14_ok nz al draid_14_one_group d(1) ps d(2-8)]
    unfolding zio_write_fields by (simp only: simp_thms if_True) blast
  then obtain rm where w: "vdev_draid_map_alloc draid_14 (zio_write 0 4096) = Inr rm"
      "unat (rm_bigcols rm) = 2" "unat (rm_cols rm) = 9"
    and wc: "\<forall>i < 9. unat (rc_size (rm_col rm ! i)) = (if (1::nat) = 0 then 0 else 0 + 1) * 2 ^ 12
            \<and> (\<exists>b. rc_abd (rm_col rm ! i) = Some b
                 \<and> unat (abd_get_size b) = (if (1::nat) = 0 then 0 else 0 + 1) * 2 ^ 12)"
    by auto
  have "unat (rc_size (rm_col rm ! 2)) = 4096" using wc [rule_format, of 2] by simp
  then show ?thesis using w by blast
qed

section \<open>Properties of map validation and generation\<close>

declare check_map_row.simps [simp del]
declare check_map_rows.simps [simp del]

lemma unat_u16_less: "unat (x :: u16) < 65536"
  using unsigned_less [of x] by simp

lemma u16_succ_neq:
  assumes "i < 65536"
  shows "unat (of_nat i :: u16) = i" and "unat (of_nat i + 1 :: u16) \<noteq> i"
proof -
  show a: "unat (of_nat i :: u16) = i" using assms by (simp add: unat_of_nat)
  have "unat (of_nat i + 1 :: u16) = (i + 1) mod 65536"
    using a by (simp add: unat_word_ariths)
  then show "unat (of_nat i + 1 :: u16) \<noteq> i" using assms
    by (cases "i = 65535") simp_all
qed

lemma map_row_nth:
  assumes len: "length (dm_perms m) = unat (dm_children m) * unat (dm_nperms m)"
    and r: "r < unat (dm_nperms m)" and c: "c < unat (dm_children m)"
  shows "r * unat (dm_children m) + c < length (dm_perms m)"
    and "perm_row m r ! c = unat (dm_perms m ! (r * unat (dm_children m) + c))"
    and "length (perm_row m r) = unat (dm_children m)"
proof -
  define C where "C = unat (dm_children m)"
  define N where "N = unat (dm_nperms m)"
  have len': "length (dm_perms m) = C * N" using len by (simp add: C_def N_def)
  have "r * C + c < r * C + C" using c by (simp add: C_def)
  also have "\<dots> = C * Suc r" by simp
  also have "\<dots> \<le> C * N" using r by (intro mult_le_mono2) (simp add: N_def)
  finally have lt: "r * C + c < C * N" .
  then show "r * unat (dm_children m) + c < length (dm_perms m)"
    by (simp add: len' C_def)
  have "C * Suc r \<le> C * N" using r by (intro mult_le_mono2) (simp add: N_def)
  then have room: "C \<le> C * N - r * C" by (simp add: mult.commute)
  then show "length (perm_row m r) = unat (dm_children m)"
    by (simp add: perm_row_def len' C_def [symmetric])
  show "perm_row m r ! c = unat (dm_perms m ! (r * unat (dm_children m) + c))"
  proof -
    have "r * C \<le> r * C + c" by simp
    also have "\<dots> \<le> C * N" using lt by (rule less_imp_le)
    finally have "r * C \<le> length (dm_perms m)" by (simp only: len')
    then have "drop (r * C) (dm_perms m) ! c = dm_perms m ! (r * C + c)"
      by (rule nth_drop)
    then show ?thesis using c room
      by (simp add: perm_row_def len' C_def [symmetric])
  qed
qed

lemma map_row_index:
  fixes m :: draid_map
  assumes len: "length (dm_perms m) = unat (dm_children m) * unat (dm_nperms m)"
    and fit: "unat (dm_children m) * unat (dm_nperms m) < 2 ^ 64"
    and r: "r < unat (dm_nperms m)" and c: "c < unat (dm_children m)"
  shows "unat (of_nat r * dm_children m + of_nat c :: u64) = r * unat (dm_children m) + c"
proof -
  define C where "C = unat (dm_children m)"
  have lt: "r * C + c < 2 ^ 64"
    using map_row_nth(1) [OF len r c] len fit by (simp add: C_def)
  have r64: "r < 2 ^ 64" using r unat_u64_less [of "dm_nperms m"] by simp
  have c64: "c < 2 ^ 64" using c unat_u64_less [of "dm_children m"] by simp
  have ur: "unat (of_nat r :: u64) = r" using r64 by (rule unat_of_nat_u64)
  have uc: "unat (of_nat c :: u64) = c" using c64 by (rule unat_of_nat_u64)
  have "r * C \<le> r * C + c" by simp
  then have "r * C < 2 ^ 64" using lt by (rule le_less_trans)
  then have "unat (of_nat r * dm_children m) = r * C"
    by (simp add: unat_mult_u64 ur C_def)
  then show ?thesis using lt by (simp add: unat_add_u64 uc C_def)
qed

lemma distinct_full_range:
  assumes "distinct (row :: nat list)" "\<forall>v \<in> set row. v < C" "length row = C"
  shows "set row = {..< C}"
proof -
  have "set row \<subseteq> {..< C}" using assms(2) by auto
  moreover have "card (set row) = card {..< C}"
    using assms(1,3) by (simp add: distinct_card)
  ultimately show ?thesis by (intro card_subset_eq) simp_all
qed

lemma perm_row_bytes: "v \<in> set (perm_row m r) \<Longrightarrow> v < 256"
  by (auto simp: perm_row_def unat_u8_less dest!: in_set_takeD in_set_dropD)

lemma distinct_bytes_length:
  assumes "distinct (xs :: nat list)" "\<forall>v \<in> set xs. v < 256"
  shows "length xs \<le> 256"
proof -
  have "card (set xs) \<le> card {..< 256 :: nat}"
    using assms(2) by (intro card_mono) auto
  then show ?thesis using distinct_card [OF assms(1)] by simp
qed

lemma check_map_row_inv:
  fixes m :: draid_map
  assumes len: "length (dm_perms m) = unat (dm_children m) * unat (dm_nperms m)"
    and fit: "unat (dm_children m) * unat (dm_nperms m) < 2 ^ 64"
    and i: "i < unat (dm_nperms m)" "i < 65536"
    and j: "j \<le> unat (dm_children m)"
    and cl: "length counts = unat (dm_children m)"
    and seen: "distinct (take j (perm_row m i))"
      "\<forall>v \<in> set (take j (perm_row m i)). v < unat (dm_children m)"
    and inv: "\<forall>v < unat (dm_children m).
        counts ! v = of_nat i + (if v \<in> set (take j (perm_row m i)) then 1 else 0)"
  shows "check_map_row m i j counts =
     (if (\<forall>v \<in> set (perm_row m i). v < unat (dm_children m)) \<and> distinct (perm_row m i)
      then Inr (replicate (unat (dm_children m)) (of_nat i + 1)) else Inl EINVAL)"
  using j cl seen inv
proof (induction "unat (dm_children m) - j" arbitrary: j counts)
  case 0
  define C where "C = unat (dm_children m)"
  define row where "row = perm_row m i"
  have jC: "j = C" using 0 by (simp add: C_def)
  have rl: "length row = C"
  proof (cases "C = 0")
    case True
    then show ?thesis by (simp add: row_def perm_row_def C_def)
  next
    case False
    then show ?thesis using map_row_nth(3) [OF len i(1), of 0] by (simp add: row_def C_def)
  qed
  have tk: "take j row = row" using jC rl by simp
  have d: "distinct row" and b: "\<forall>v \<in> set row. v < C"
    using 0(4,5) tk by (simp_all add: row_def C_def)
  have full: "set row = {..< C}" using d b rl by (rule distinct_full_range)
  have "counts ! v = of_nat i + 1" if "v < C" for v
    using 0(6) that tk full by (simp add: row_def C_def)
  then have "counts = replicate C (of_nat i + 1)"
    using 0(3) by (intro nth_equalityI) (simp_all add: C_def)
  moreover have "check_map_row m i j counts = Inr counts"
    using jC by (subst check_map_row.simps) (simp add: C_def)
  ultimately show ?case using d b by (simp add: row_def C_def)
next
  case (Suc k)
  define C where "C = unat (dm_children m)"
  define row where "row = perm_row m i"
  have jC: "j < C" using Suc.hyps(2) by (simp add: C_def)
  note rn = map_row_nth [OF len i(1) jC [unfolded C_def]]
  have rl: "length row = C" using rn(3) by (simp add: row_def C_def)
  have idx: "unat (of_nat i * dm_children m + of_nat j :: u64) = i * C + j"
    using map_row_index [OF len fit i(1) jC [unfolded C_def]] by (simp add: C_def)
  define val where "val = dm_perms m ! (i * C + j)"
  have uv: "unat val = row ! j" using rn(2) by (simp add: val_def row_def C_def)
  have inb: "\<not> length (dm_perms m) \<le> i * C + j" using rn(1) by (simp add: C_def)
  have ge: "(ucast val \<ge> dm_children m) = (C \<le> row ! j)"
    by (simp add: word_le_nat_alt unat_ucast_u8 uv C_def)
  have tk: "take (j + 1) row = take j row @ [row ! j]"
    using jC rl by (simp add: take_Suc_conv_app_nth)
  have mem: "row ! j \<in> set row" using jC rl by simp
  have unfold: "check_map_row m i j counts =
      (if C \<le> row ! j \<or> unat (counts ! (row ! j)) \<noteq> i then Inl EINVAL
       else if j = INT_MAX then Inl INT_OVERFLOW
       else check_map_row m i (j + 1) (counts[row ! j := counts ! (row ! j) + 1]))"
    using jC inb ge
    by (subst check_map_row.simps) (simp add: Let_def idx C_def [symmetric] val_def [symmetric] uv)
  show ?case
  proof (cases "C \<le> row ! j")
    case True
    then have "\<not> row ! j < C" by simp
    then have "\<not> (\<forall>v \<in> set row. v < C)" using mem by blast
    then show ?thesis using unfold True by (simp add: row_def C_def)
  next
    case small: False
    then have vC: "row ! j < C" by simp
    show ?thesis
    proof (cases "row ! j \<in> set (take j row)")
      case True
      then have "counts ! (row ! j) = of_nat i + 1"
        using Suc.prems(5) vC by (simp add: row_def C_def)
      then have "unat (counts ! (row ! j)) \<noteq> i" using u16_succ_neq(2) [OF i(2)] by simp
      moreover have "\<not> distinct row"
      proof
        assume dr: "distinct row"
        obtain k where k: "k < j" "row ! k = row ! j"
          using True jC rl by (auto simp: in_set_conv_nth)
        then show False using dr jC rl by (simp add: nth_eq_iff_index_eq)
      qed
      ultimately show ?thesis using unfold by (simp add: row_def C_def)
    next
      case new: False
      then have "counts ! (row ! j) = of_nat i"
        using Suc.prems(5) vC by (simp add: row_def C_def)
      then have ci: "unat (counts ! (row ! j)) = i" using u16_succ_neq(1) [OF i(2)] by simp
      let ?counts = "counts[row ! j := counts ! (row ! j) + 1]"
      have k: "k = unat (dm_children m) - (j + 1)" using Suc.hyps(2) by simp
      have j1: "j + 1 \<le> unat (dm_children m)" using jC by (simp add: C_def)
      have cl1: "length ?counts = unat (dm_children m)" using Suc.prems(2) by simp
      have d1: "distinct (take (j + 1) (perm_row m i))"
        using Suc.prems(3) new tk by (simp add: row_def)
      have b1: "\<forall>v \<in> set (take (j + 1) (perm_row m i)). v < unat (dm_children m)"
        using Suc.prems(4) vC tk by (simp add: row_def C_def)
      have inv1: "\<forall>v < unat (dm_children m).
          ?counts ! v = of_nat i + (if v \<in> set (take (j + 1) (perm_row m i)) then 1 else 0)"
      proof (intro allI impI)
        fix v assume v: "v < unat (dm_children m)"
        show "?counts ! v = of_nat i + (if v \<in> set (take (j + 1) (perm_row m i)) then 1 else 0)"
        proof (cases "v = row ! j")
          case True
          then show ?thesis
            using v Suc.prems(2) \<open>counts ! (row ! j) = of_nat i\<close> tk by (simp add: row_def)
        next
          case False
          then show ?thesis using v Suc.prems(5) tk by (simp add: row_def)
        qed
      qed
      have "check_map_row m i (j + 1) ?counts =
         (if (\<forall>v \<in> set (perm_row m i). v < unat (dm_children m)) \<and> distinct (perm_row m i)
          then Inr (replicate (unat (dm_children m)) (of_nat i + 1)) else Inl EINVAL)"
        using Suc.hyps(1) [OF k j1 cl1 d1 b1 inv1] .
      moreover have "j \<noteq> INT_MAX"
      proof -
        have "\<forall>v \<in> set (take (j + 1) (perm_row m i)). v < 256"
          by (auto dest!: in_set_takeD perm_row_bytes)
        then have "length (take (j + 1) (perm_row m i)) \<le> 256"
          using d1 by (intro distinct_bytes_length)
        then show ?thesis using jC rl by (simp add: row_def INT_MAX_def)
      qed
      ultimately show ?thesis using unfold small ci by simp
    qed
  qed
qed

lemma row_is_permutation_iff:
  fixes m :: draid_map
  assumes len: "length (dm_perms m) = unat (dm_children m) * unat (dm_nperms m)"
    and r: "r < unat (dm_nperms m)"
  shows "(set (perm_row m r) = {..< unat (dm_children m)} \<and> distinct (perm_row m r))
       = ((\<forall>v \<in> set (perm_row m r). v < unat (dm_children m)) \<and> distinct (perm_row m r))"
proof -
  have rl: "length (perm_row m r) = unat (dm_children m)"
  proof (cases "unat (dm_children m) = 0")
    case True
    then show ?thesis by (simp add: perm_row_def)
  next
    case False
    then show ?thesis using map_row_nth(3) [OF len r, of 0] by simp
  qed
  show ?thesis using distinct_full_range [OF _ _ rl] by auto
qed

lemma check_map_row_start:
  fixes m :: draid_map
  assumes len: "length (dm_perms m) = unat (dm_children m) * unat (dm_nperms m)"
    and fit: "unat (dm_children m) * unat (dm_nperms m) < 2 ^ 64"
    and i: "i < unat (dm_nperms m)" "i < 65536"
  shows "check_map_row m i 0 (replicate (unat (dm_children m)) (of_nat i)) =
     (if set (perm_row m i) = {..< unat (dm_children m)} \<and> distinct (perm_row m i)
      then Inr (replicate (unat (dm_children m)) (of_nat (i + 1))) else Inl EINVAL)"
proof -
  have "check_map_row m i 0 (replicate (unat (dm_children m)) (of_nat i)) =
     (if (\<forall>v \<in> set (perm_row m i). v < unat (dm_children m)) \<and> distinct (perm_row m i)
      then Inr (replicate (unat (dm_children m)) (of_nat i + 1)) else Inl EINVAL)"
    by (rule check_map_row_inv [OF len fit i]) simp_all
  then show ?thesis by (simp only: row_is_permutation_iff [OF len i(1)]) simp
qed

lemma check_map_rows_prefix:
  fixes m :: draid_map
  assumes len: "length (dm_perms m) = unat (dm_children m) * unat (dm_nperms m)"
    and fit: "unat (dm_children m) * unat (dm_nperms m) < 2 ^ 64"
    and k: "i \<le> k" "k \<le> unat (dm_nperms m)" "k \<le> 65536"
    and ok: "\<forall>r. i \<le> r \<and> r < k \<longrightarrow>
        set (perm_row m r) = {..< unat (dm_children m)} \<and> distinct (perm_row m r)"
  shows "check_map_rows m i (replicate (unat (dm_children m)) (of_nat i))
       = check_map_rows m k (replicate (unat (dm_children m)) (of_nat k))"
  using k(1) ok
proof (induction "k - i" arbitrary: i)
  case 0
  then show ?case by simp
next
  case (Suc d)
  then have lt: "i < k" by simp
  then have i: "i < unat (dm_nperms m)" "i < 65536" using k(2,3) by simp_all
  have "set (perm_row m i) = {..< unat (dm_children m)} \<and> distinct (perm_row m i)"
    using Suc.prems(2) lt by simp
  then have row: "check_map_row m i 0 (replicate (unat (dm_children m)) (of_nat i))
      = Inr (replicate (unat (dm_children m)) (of_nat (i + 1)))"
    using check_map_row_start [OF len fit i] by simp
  have d: "d = k - (i + 1)" using Suc.hyps(2) by simp
  have "check_map_rows m (i + 1) (replicate (unat (dm_children m)) (of_nat (i + 1)))
       = check_map_rows m k (replicate (unat (dm_children m)) (of_nat k))"
    using Suc.hyps(1) [OF d] lt Suc.prems(2) by simp
  moreover have "i \<noteq> INT_MAX" using i(2) by (simp add: INT_MAX_def)
  ultimately show ?case using i(1) row by (subst check_map_rows.simps) simp
qed

lemma check_map_rows_bad_row:
  fixes m :: draid_map
  assumes len: "length (dm_perms m) = unat (dm_children m) * unat (dm_nperms m)"
    and fit: "unat (dm_children m) * unat (dm_nperms m) < 2 ^ 64"
    and r: "r < unat (dm_nperms m)" "r < 65536"
    and bad: "\<not> (set (perm_row m r) = {..< unat (dm_children m)} \<and> distinct (perm_row m r))"
    and ok: "\<forall>s. 0 \<le> s \<and> s < r \<longrightarrow>
        set (perm_row m s) = {..< unat (dm_children m)} \<and> distinct (perm_row m s)"
  shows "check_map_rows m 0 (replicate (unat (dm_children m)) 0) = Inl EINVAL"
proof -
  have "check_map_rows m 0 (replicate (unat (dm_children m)) (of_nat 0))
       = check_map_rows m r (replicate (unat (dm_children m)) (of_nat r))"
    using r by (intro check_map_rows_prefix [OF len fit _ _ _ ok]) simp_all
  also have "\<dots> = Inl EINVAL"
  proof -
    have "check_map_row m r 0 (replicate (unat (dm_children m)) (of_nat r)) = Inl EINVAL"
      using check_map_row_start [OF len fit r] bad by (simp only: if_False)
    then show ?thesis using r(1) by (subst check_map_rows.simps) simp
  qed
  finally show ?thesis by simp
qed

lemma first_bad_row:
  assumes "\<exists>r < n. bad r"
  obtains r :: nat where "r < n" "bad r" "\<forall>s. 0 \<le> s \<and> s < r \<longrightarrow> \<not> bad s"
proof -
  obtain r where r: "r < n \<and> bad r" and least: "\<forall>s < r. \<not> (s < n \<and> bad s)"
    using assms exists_least_iff [of "\<lambda>r. r < n \<and> bad r"] by blast
  have "\<forall>s. 0 \<le> s \<and> s < r \<longrightarrow> \<not> bad s" using r least by auto
  then show ?thesis using r that by blast
qed

lemma check_map_rows_all:
  fixes m :: draid_map
  assumes len: "length (dm_perms m) = unat (dm_children m) * unat (dm_nperms m)"
    and fit: "unat (dm_children m) * unat (dm_nperms m) < 2 ^ 64"
    and n: "unat (dm_nperms m) \<le> 65536"
  shows "check_map_rows m 0 (replicate (unat (dm_children m)) 0) =
     (if rows_are_permutations m
      then Inr (replicate (unat (dm_children m)) (of_nat (unat (dm_nperms m))))
      else Inl EINVAL)"
proof (cases "rows_are_permutations m")
  case True
  then have ok: "\<forall>r. 0 \<le> r \<and> r < unat (dm_nperms m) \<longrightarrow>
        set (perm_row m r) = {..< unat (dm_children m)} \<and> distinct (perm_row m r)"
    by (simp add: rows_are_permutations_def list_all_iff)
  have "check_map_rows m 0 (replicate (unat (dm_children m)) (of_nat 0))
       = check_map_rows m (unat (dm_nperms m))
           (replicate (unat (dm_children m)) (of_nat (unat (dm_nperms m))))"
    by (rule check_map_rows_prefix [OF len fit _ _ n ok]) simp_all
  also have "\<dots> = Inr (replicate (unat (dm_children m)) (of_nat (unat (dm_nperms m))))"
    by (subst check_map_rows.simps) simp
  finally show ?thesis using True by simp
next
  case False
  define bad where "bad r = (\<not> (set (perm_row m r) = {..< unat (dm_children m)}
      \<and> distinct (perm_row m r)))" for r
  have "\<exists>r < unat (dm_nperms m). bad r"
    using False by (auto simp: rows_are_permutations_def list_all_iff bad_def)
  then obtain r where r: "r < unat (dm_nperms m)" "bad r"
    and ok: "\<forall>s. 0 \<le> s \<and> s < r \<longrightarrow> \<not> bad s"
    by (rule first_bad_row)
  have r16: "r < 65536" using r n by simp
  have "check_map_rows m 0 (replicate (unat (dm_children m)) 0) = Inl EINVAL"
    using check_map_rows_bad_row [OF len fit r(1) r16] r(2) ok unfolding bad_def by blast
  then show ?thesis using False by simp
qed

lemma check_map_rows_many:
  fixes m :: draid_map
  assumes len: "length (dm_perms m) = unat (dm_children m) * unat (dm_nperms m)"
    and fit: "unat (dm_children m) * unat (dm_nperms m) < 2 ^ 64"
    and n: "65536 < unat (dm_nperms m)"
    and c: "0 < unat (dm_children m)"
  shows "check_map_rows m 0 (replicate (unat (dm_children m)) 0) = Inl EINVAL"
proof -
  define bad where "bad r = (\<not> (set (perm_row m r) = {..< unat (dm_children m)}
      \<and> distinct (perm_row m r)))" for r
  show ?thesis
  proof (cases "\<exists>r < 65536. bad r")
    case True
    then obtain r where r: "r < 65536" "bad r"
      and ok: "\<forall>s. 0 \<le> s \<and> s < r \<longrightarrow> \<not> bad s"
      by (rule first_bad_row)
    have rn: "r < unat (dm_nperms m)" using r(1) n by simp
    show ?thesis
      using check_map_rows_bad_row [OF len fit rn r(1)] r(2) ok unfolding bad_def by blast
  next
    case False
    then have ok: "\<forall>r. 0 \<le> r \<and> r < 65536 \<longrightarrow>
        set (perm_row m r) = {..< unat (dm_children m)} \<and> distinct (perm_row m r)"
      by (auto simp: bad_def)
    have "check_map_rows m 0 (replicate (unat (dm_children m)) (of_nat 0))
        = check_map_rows m 65536 (replicate (unat (dm_children m)) (of_nat 65536))"
      using n by (intro check_map_rows_prefix [OF len fit _ _ _ ok]) simp_all
    also have "\<dots> = Inl EINVAL"
    proof -
      have rn: "65536 < unat (dm_nperms m)" by (rule n)
      have inb: "\<not> length (dm_perms m) \<le> unat (of_nat 65536 * dm_children m + of_nat 0 :: u64)"
        using map_row_index [OF len fit rn c] map_row_nth(1) [OF len rn c] by simp
      have cnt: "unat (x :: u16) \<noteq> 65536" for x
        using unat_u16_less [of x] by simp
      have "check_map_row m 65536 0 (replicate (unat (dm_children m)) (of_nat 65536)) = Inl EINVAL"
        using c inb by (subst check_map_row.simps) (simp add: Let_def cnt)
      then show ?thesis using rn by (subst check_map_rows.simps) simp
    qed
    finally show ?thesis by simp
  qed
qed

lemma check_map_rows_no_children:
  assumes c: "unat (dm_children m) = 0" and i: "i \<le> INT_MAX"
  shows "check_map_rows m i counts =
     (if INT_MAX < unat (dm_nperms m) then Inl INT_OVERFLOW else Inr counts)"
  using i
proof (induction "unat (dm_nperms m) - i" arbitrary: i)
  case 0
  then show ?case by (subst check_map_rows.simps) simp
next
  case (Suc d)
  have row: "check_map_row m i 0 counts = Inr counts"
    using c by (subst check_map_row.simps) simp
  have lt: "i < unat (dm_nperms m)" using Suc.hyps(2) by simp
  show ?case
  proof (cases "i = INT_MAX")
    case True
    then show ?thesis using lt row by (subst check_map_rows.simps) simp
  next
    case False
    have d: "d = unat (dm_nperms m) - (i + 1)" using Suc.hyps(2) by simp
    have "i + 1 \<le> INT_MAX" using False Suc.prems by simp
    then have "check_map_rows m (i + 1) counts =
        (if INT_MAX < unat (dm_nperms m) then Inl INT_OVERFLOW else Inr counts)"
      by (rule Suc.hyps(1) [OF d])
    then show ?thesis using lt row False by (subst check_map_rows.simps) simp
  qed
qed

lemma check_map_verdict:
  fixes m :: draid_map
  assumes len: "length (dm_perms m) = unat (dm_children m) * unat (dm_nperms m)"
    and fit: "unat (dm_children m) * unat (dm_nperms m) < 2 ^ 64"
  shows "check_map fl m =
     (if dm_children m = 0 then
        (if INT_MAX < unat (dm_nperms m) then Inl INT_OVERFLOW
         else if dm_checksum m \<noteq> 0 \<and> dm_checksum m \<noteq> fl (dm_perms m) then Inl ECKSUM
         else Inr ())
      else if \<not> rows_are_permutations m \<or> 65536 < unat (dm_nperms m) then Inl EINVAL
      else if dm_checksum m \<noteq> 0 \<and> dm_checksum m \<noteq> fl (dm_perms m) then Inl ECKSUM
      else Inr ())"
proof -
  have "unat (dm_children m * dm_nperms m) = length (dm_perms m)"
    using fit len by (simp add: unat_mult_lem [THEN iffD1])
  then have tk: "take (unat (dm_children m * dm_nperms m)) (dm_perms m) = dm_perms m"
    by simp
  show ?thesis
  proof (cases "dm_children m = 0")
    case True
    then have c0: "unat (dm_children m) = 0" by simp
    show ?thesis
      unfolding check_map_def check_map_rows_no_children [OF c0 le0] tk
      using True by simp
  next
    case False
    then have c: "0 < unat (dm_children m)" by (simp add: unat_gt_0)
    show ?thesis
    proof (cases "65536 < unat (dm_nperms m)")
      case True
      show ?thesis
        unfolding check_map_def check_map_rows_many [OF len fit True c]
        using False True by simp
    next
      case small: False
      then have n: "unat (dm_nperms m) \<le> 65536" by simp
      show ?thesis
        unfolding check_map_def check_map_rows_all [OF len fit n] tk
        using False small by simp
    qed
  qed
qed

lemma shuffle_row_length:
  "shuffle_row rand j row seed = (row', seed') \<Longrightarrow> length row' = length row"
proof (induction j arbitrary: row seed)
  case 0
  then show ?case by simp
next
  case (Suc j)
  then show ?case by (auto simp: Let_def split: prod.splits)
qed

lemma generate_rows_length:
  "length previous_row = children \<Longrightarrow>
   length (generate_rows rand children n previous_row seed) = n * children"
proof (induction n arbitrary: previous_row seed)
  case 0
  then show ?case by simp
next
  case (Suc n)
  then show ?case by (auto split: prod.splits dest: shuffle_row_length)
qed

lemma generated_map_fields:
  "dm_children (generated_map rand c s k n) = c"
  "dm_nperms (generated_map rand c s k n) = n"
  "dm_seed (generated_map rand c s k n) = s"
  "dm_checksum (generated_map rand c s k n) = k"
  "length (dm_perms (generated_map rand c s k n)) = unat c * unat n"
  by (simp_all add: generated_map_def generate_rows_length)

lemma generate_map_verdict:
  "vdev_draid_generate_map in_kernel rand fl c s k n =
     (if in_kernel \<and> (c < 2 \<or> VDEV_DRAID_MAX_CHILDREN < c \<or> s = 0 \<or> k = 0) then Inl PANIC
      else if INT_MAX < unat c \<or> INT_MAX < unat n then Inl INT_OVERFLOW
      else if c \<noteq> 0 \<and> (\<not> rows_are_permutations (generated_map rand c s k n) \<or> 65536 < unat n)
      then Inl EINVAL
      else if k \<noteq> 0 \<and> k \<noteq> fl (dm_perms (generated_map rand c s k n)) then Inl ECKSUM
      else Inr (generated_map rand c s k n))"
proof (cases "in_kernel \<and> (c < 2 \<or> VDEV_DRAID_MAX_CHILDREN < c \<or> s = 0 \<or> k = 0)")
  case True
  show ?thesis unfolding vdev_draid_generate_map_def if_P [OF True] by (rule refl)
next
  case nopanic: False
  show ?thesis
  proof (cases "INT_MAX < unat c \<or> INT_MAX < unat n")
    case True
    show ?thesis
      unfolding vdev_draid_generate_map_def if_not_P [OF nopanic] if_P [OF True] by (rule refl)
  next
    case False
    define G where "G = generated_map rand c s k n"
    have "unat c * unat n \<le> INT_MAX * INT_MAX" using False by (intro mult_le_mono) simp_all
    then have fit: "unat c * unat n < 2 ^ 64" by (simp add: INT_MAX_def)
    have small: "\<not> INT_MAX < unat n" using False by simp
    have v: "check_map fl G =
       (if c \<noteq> 0 \<and> (\<not> rows_are_permutations G \<or> 65536 < unat n) then Inl EINVAL
        else if k \<noteq> 0 \<and> k \<noteq> fl (dm_perms G) then Inl ECKSUM
        else Inr ())"
      using check_map_verdict [of G fl] fit small
      by (simp add: G_def generated_map_fields)
    have "vdev_draid_generate_map in_kernel rand fl c s k n =
        (case check_map fl G of Inl e \<Rightarrow> Inl e | Inr u \<Rightarrow> Inr G)"
      unfolding vdev_draid_generate_map_def G_def Let_def if_not_P [OF nopanic] if_not_P [OF False]
      by (rule refl)
    also have "\<dots> =
       (if c \<noteq> 0 \<and> (\<not> rows_are_permutations G \<or> 65536 < unat n) then Inl EINVAL
        else if k \<noteq> 0 \<and> k \<noteq> fl (dm_perms G) then Inl ECKSUM
        else Inr G)"
      unfolding v by simp
    finally show ?thesis
      unfolding G_def if_not_P [OF nopanic] if_not_P [OF False] .
  qed
qed

lemma drop_concat_replicate:
  "r \<le> n \<Longrightarrow>
   drop (r * length xs) (concat (replicate n xs)) = concat (replicate (n - r) xs)"
proof (induction r arbitrary: n)
  case 0
  then show ?case by simp
next
  case (Suc r)
  then obtain n' where n': "n = Suc n'" "r \<le> n'" by (cases n) auto
  show ?case using Suc.IH [OF n'(2)] by (simp add: n'(1))
qed

lemma map_identity_2_fields:
  "dm_children (map_identity_2 n) = 2"
  "dm_nperms (map_identity_2 n) = of_nat n"
  "dm_checksum (map_identity_2 n) = 0"
  "dm_perms (map_identity_2 n) = concat (replicate n [0, 1])"
  by (simp_all add: map_identity_2_def)

lemma map_identity_2_length: "length (dm_perms (map_identity_2 n)) = 2 * n"
  by (induction n) (simp_all add: map_identity_2_fields)

lemma map_identity_2_row:
  assumes "r < n"
  shows "perm_row (map_identity_2 n) r = [0, 1]"
proof -
  obtain d where d: "n - r = Suc d" using assms by (cases "n - r") auto
  have "drop (r * length [0, 1 :: u8]) (concat (replicate n [0, 1 :: u8]))
      = concat (replicate (n - r) [0, 1])"
    using assms by (intro drop_concat_replicate) simp
  moreover have "r * length [0, 1 :: u8] = r * 2" by simp
  ultimately have "drop (r * 2) (concat (replicate n [0, 1 :: u8]))
      = [0, 1] @ concat (replicate d [0, 1])"
    by (simp only: d replicate_Suc concat.simps)
  then show ?thesis by (simp add: perm_row_def map_identity_2_fields)
qed

lemma map_identity_2_rows:
  assumes "n < 2 ^ 64"
  shows "rows_are_permutations (map_identity_2 n)"
proof -
  have u: "unat (of_nat n :: u64) = n" using assms by (simp add: unat_of_nat_u64)
  have s: "{..< (2::nat)} = {0, 1}" by auto
  show ?thesis
    unfolding rows_are_permutations_def list_all_iff
    by (auto simp: map_identity_2_fields u map_identity_2_row s)
qed

lemma map_identity_2_rejected:
  assumes n: "65536 < n" "n < 2 ^ 63"
  shows "check_map fl (map_identity_2 n) = Inl EINVAL"
proof -
  let ?m = "map_identity_2 n"
  have u: "unat (dm_nperms ?m) = n" "unat (dm_children ?m) = 2"
    using n by (simp_all add: map_identity_2_fields unat_of_nat_u64)
  have len: "length (dm_perms ?m) = unat (dm_children ?m) * unat (dm_nperms ?m)"
    by (simp add: u map_identity_2_length)
  have fit: "unat (dm_children ?m) * unat (dm_nperms ?m) < 2 ^ 64"
    using n by (simp add: u)
  have ok: "\<forall>r. 0 \<le> r \<and> r < 65536 \<longrightarrow>
        set (perm_row ?m r) = {..< unat (dm_children ?m)} \<and> distinct (perm_row ?m r)"
    using n map_identity_2_rows [of n]
    by (simp add: rows_are_permutations_def list_all_iff u)
  have "check_map_rows ?m 0 (replicate (unat (dm_children ?m)) (of_nat 0))
      = check_map_rows ?m 65536 (replicate (unat (dm_children ?m)) (of_nat 65536))"
    using n by (intro check_map_rows_prefix [OF len fit _ _ _ ok]) (simp_all add: u)
  also have "\<dots> = Inl EINVAL"
  proof -
    have idx: "unat (of_nat 65536 * dm_children ?m + of_nat 0 :: u64) = 65536 * 2 + 0"
      using map_row_index [OF len fit, of 65536 0] n by (simp add: u)
    have nth: "perm_row ?m 65536 ! 0 = unat (dm_perms ?m ! (65536 * 2 + 0))"
      "65536 * 2 + 0 < length (dm_perms ?m)"
      using map_row_nth [OF len, of 65536 0] n by (simp_all add: u)
    have val: "dm_perms ?m ! (65536 * 2 + 0) = 0"
    proof -
      have "unat (dm_perms ?m ! (65536 * 2 + 0)) = 0"
        using nth(1) n by (simp add: map_identity_2_row)
      then show ?thesis by (simp add: unat_eq_0)
    qed
    have cnt: "unat (c :: u16) \<noteq> 65536" for c
      using unat_u16_less [of c] by simp
    have "check_map_row ?m 65536 0 (replicate (unat (dm_children ?m)) (of_nat 65536)) = Inl EINVAL"
      apply (subst check_map_row.simps)
      using nth(2) apply (simp only: idx val Let_def u)
      apply (simp add: cnt)
      done
    then show ?thesis using n by (subst check_map_rows.simps) (simp add: u)
  qed
  finally show ?thesis by (simp add: check_map_def)
qed


text \<open>
  Claim C4, as amended. For a map that holds \<open>children * nperms\<close> bytes and has at least one
  child, \<open>check_map\<close> returns \<open>EINVAL\<close> exactly when some row is not a permutation of
  \<open>0..children-1\<close> or there are more than 65536 rows; otherwise it returns \<open>ECKSUM\<close> exactly
  when the recorded checksum is non-zero and differs from the one computed over the
  \<open>children * nperms\<close> bytes; otherwise it succeeds. So up to 65536 rows the single pass with
  the tally accepts exactly the maps whose rows are all permutations. A map without children
  has no entry to check: only the checksum decides, unless the \<open>int\<close> row counter runs past
  \<open>INT_MAX\<close>. \<open>vdev_draid_generate_map\<close> returns the verdict of \<open>check_map\<close> on the map it has
  generated, and the map itself on success, whenever its \<open>VERIFY\<close>s hold (in the kernel) and
  \<open>children\<close> and \<open>nperms\<close> fit in an \<open>int\<close>.
\<close>

theorem check_map_accepts_permutation_maps:
  fixes m :: draid_map
  assumes "length (dm_perms m) = unat (dm_children m) * unat (dm_nperms m)"
    and "unat (dm_children m) * unat (dm_nperms m) < 2 ^ 64"
  shows "check_map fl m =
     (if dm_children m = 0 then
        (if INT_MAX < unat (dm_nperms m) then Inl INT_OVERFLOW
         else if dm_checksum m \<noteq> 0 \<and> dm_checksum m \<noteq> fl (dm_perms m) then Inl ECKSUM
         else Inr ())
      else if \<not> rows_are_permutations m \<or> 65536 < unat (dm_nperms m) then Inl EINVAL
      else if dm_checksum m \<noteq> 0 \<and> dm_checksum m \<noteq> fl (dm_perms m) then Inl ECKSUM
      else Inr ())
   \<and> vdev_draid_generate_map in_kernel rand fl c s k n =
     (if in_kernel \<and> (c < 2 \<or> VDEV_DRAID_MAX_CHILDREN < c \<or> s = 0 \<or> k = 0) then Inl PANIC
      else if INT_MAX < unat c \<or> INT_MAX < unat n then Inl INT_OVERFLOW
      else if c \<noteq> 0 \<and> (\<not> rows_are_permutations (generated_map rand c s k n) \<or> 65536 < unat n)
      then Inl EINVAL
      else if k \<noteq> 0 \<and> k \<noteq> fl (dm_perms (generated_map rand c s k n)) then Inl ECKSUM
      else Inr (generated_map rand c s k n))"
  using check_map_verdict [OF assms] generate_map_verdict by (rule conjI)

text \<open>
  The layout of the source's picture passes the check; and outside the kernel, for two
  children, one row and a generator that always draws 0, the generated map is the single
  row \<open>1, 0\<close>.
\<close>

theorem check_map_accepts_permutation_maps_witness:
  "check_map (\<lambda>bs. 0) map_14 = Inr ()
   \<and> vdev_draid_generate_map False (Pair 0) (\<lambda>bs. 0) 2 1 0 1 =
       Inr \<lparr>dm_children = 2, dm_nperms = 1, dm_seed = 1, dm_checksum = 0, dm_perms = [1, 0]\<rparr>"
proof -
  have two: "[0 ..< 2] = [0, Suc 0]" by (simp add: upt_rec)
  have gm: "generated_map (Pair 0) 2 1 0 1 =
      \<lparr>dm_children = 2, dm_nperms = 1, dm_seed = 1, dm_checksum = 0, dm_perms = [1, 0]\<rparr>"
    by (simp add: generated_map_def two)
  have s: "{..< (2::nat)} = {0, 1}" by auto
  have rp: "rows_are_permutations
      \<lparr>dm_children = 2, dm_nperms = 1, dm_seed = 1, dm_checksum = 0, dm_perms = [1, 0]\<rparr>"
    by (auto simp: rows_are_permutations_def perm_row_def s)
  show ?thesis
    using check_map_accepts_permutation_maps [of map_14 "\<lambda>bs. 0" False "Pair 0" 2 1 0 1]
      map_14_rows rp
    by (simp add: map_14_fields gm INT_MAX_def)
qed

text \<open>
  Claim C4 as stated fails for a map of more than 65536 rows: the tally \<open>counts\<close> is an array
  of 16-bit counters, so in row 65536 every counter has wrapped to 0 and differs from the row
  index. The map of 65537 rows \<open>0, 1\<close> for two children, with no checksum recorded, has only
  permutation rows and is rejected with \<open>EINVAL\<close>.
\<close>

theorem check_map_tally_wraps_counterexample:
  "rows_are_permutations (map_identity_2 65537)
   \<and> dm_checksum (map_identity_2 65537) = 0
   \<and> check_map (\<lambda>bs. 0) (map_identity_2 65537) = Inl EINVAL"
  using map_identity_2_rows [of 65537] map_identity_2_rejected [of 65537 "\<lambda>bs. 0"]
  by (simp add: map_identity_2_fields)

section \<open>Properties of the I/O to a distributed spare\<close>

lemma params_ex_fields:
  "VDEV_OFFSET_IS_LABEL params_ex vd off = (off < 4194304 \<or> off \<ge> vdev_psize vd - 524288)"
  "VDEV_LABEL_START_SIZE params_ex = 4194304" "VDEV_LABEL_END_SIZE params_ex = 524288"
  "vdev_readable params_ex vd = True" "vdev_writeable params_ex vd = True"
  by (simp_all add: params_ex_def)

lemma spare_14_fields:
  "vdev_tsd spare_14 = TSD_SPARE \<lparr>vds_draid_vdev = 0, vds_spare_id = 0\<rparr>"
  "vdev_psize spare_14 = 1073741824" "vdev_child spare_14 = []"
  "vdev_ops spare_14 = VDEV_DRAID_SPARE_OPS"
  by (simp_all add: spare_14_def vdev_zero_def)

lemma zio_sector_fields:
  "io_type (zio_sector t fl off) = t" "io_flags (zio_sector t fl off) = fl"
  "io_offset (zio_sector t fl off) = off" "io_size (zio_sector t fl off) = 4096"
  "io_abd (zio_sector t fl off) = replicate 4096 1" "io_cmd (zio_sector t fl off) = DKIOC_OTHER 0"
  "io_error (zio_sector t fl off) = None"
  by (simp_all add: zio_sector_def)





text \<open>
  Claim C7, as amended. For an I/O to an open distributed spare whose offset lies in a
  label range: a read ends with error 0 if the probe flag is set and with \<open>EIO\<close> otherwise;
  a write ends with error 0 if the probe or the config-writer flag is set and with \<open>EIO\<close>
  otherwise. In all these cases no child I/O is issued, the I/O is handed to
  \<open>zio_execute\<close>, and nothing but \<open>io_error\<close> is changed: the buffer of a read is left as it
  was.
\<close>

theorem spare_label_io:
  assumes "vdev_tsd vd = TSD_SPARE vds"
    and "VDEV_OFFSET_IS_LABEL env vd (io_offset zio)"
  shows "(io_type zio = ZIO_TYPE_READ \<longrightarrow>
            vdev_draid_spare_io_start env st vd zio =
              Some (Inr (zio\<lparr>io_error :=
                           (if ZIO_FLAG_PROBE \<in> io_flags zio then None else Some EIO)\<rparr>,
                         [], ZIO_EXECUTE)))
       \<and> (io_type zio = ZIO_TYPE_WRITE \<longrightarrow>
            vdev_draid_spare_io_start env st vd zio =
              Some (Inr (zio\<lparr>io_error :=
                           (if ZIO_FLAG_PROBE \<in> io_flags zio
                               \<or> ZIO_FLAG_CONFIG_WRITER \<in> io_flags zio
                            then None else Some EIO)\<rparr>,
                         [], ZIO_EXECUTE)))"
  using assms by (simp add: vdev_draid_spare_io_start_def)

text \<open>
  Offset 0 of the first spare of the 14-disk dRAID is in the front label: a probe read, a
  plain read, a config write and a plain write.
\<close>

theorem spare_label_io_witness:
  "vdev_tsd spare_14 = TSD_SPARE \<lparr>vds_draid_vdev = 0, vds_spare_id = 0\<rparr>
   \<and> VDEV_OFFSET_IS_LABEL params_ex spare_14 0
   \<and> vdev_draid_spare_io_start params_ex store_14 spare_14
        (zio_sector ZIO_TYPE_READ {ZIO_FLAG_PROBE} 0) =
      Some (Inr ((zio_sector ZIO_TYPE_READ {ZIO_FLAG_PROBE} 0)\<lparr>io_error := None\<rparr>,
                 [], ZIO_EXECUTE))
   \<and> vdev_draid_spare_io_start params_ex store_14 spare_14
        (zio_sector ZIO_TYPE_READ {} 0) =
      Some (Inr ((zio_sector ZIO_TYPE_READ {} 0)\<lparr>io_error := Some EIO\<rparr>, [], ZIO_EXECUTE))
   \<and> vdev_draid_spare_io_start params_ex store_14 spare_14
        (zio_sector ZIO_TYPE_WRITE {ZIO_FLAG_CONFIG_WRITER} 0) =
      Some (Inr ((zio_sector ZIO_TYPE_WRITE {ZIO_FLAG_CONFIG_WRITER} 0)\<lparr>io_error := None\<rparr>,
                 [], ZIO_EXECUTE))
   \<and> vdev_draid_spare_io_start params_ex store_14 spare_14
        (zio_sector ZIO_TYPE_WRITE {} 0) =
      Some (Inr ((zio_sector ZIO_TYPE_WRITE {} 0)\<lparr>io_error := Some EIO\<rparr>, [], ZIO_EXECUTE))"
proof -
  have lab: "VDEV_OFFSET_IS_LABEL params_ex spare_14 (io_offset (zio_sector t fl 0))" for t fl
    by (simp add: params_ex_fields zio_sector_fields)
  note t = spare_label_io [OF spare_14_fields(1) lab, of _ _ store_14]
  show ?thesis
    using t [of ZIO_TYPE_READ "{ZIO_FLAG_PROBE}"] t [of ZIO_TYPE_READ "{}"]
      t [of ZIO_TYPE_WRITE "{ZIO_FLAG_CONFIG_WRITER}"] t [of ZIO_TYPE_WRITE "{}"]
    by (simp add: zio_sector_fields spare_14_fields params_ex_fields)
qed

text \<open>
  Claim C7 as stated fails on the data of a probe read: the code sets \<open>io_error\<close> to 0 and
  does not write to the buffer. A probe read of the front label into a buffer of ones
  succeeds, and the buffer still holds the ones.
\<close>

theorem spare_label_read_counterexample:
  "\<exists>z. vdev_draid_spare_io_start params_ex store_14 spare_14
          (zio_sector ZIO_TYPE_READ {ZIO_FLAG_PROBE} 0) = Some (Inr (z, [], ZIO_EXECUTE))
      \<and> io_error z = None \<and> io_abd z = replicate 4096 1"
  by (simp add: vdev_draid_spare_io_start_def spare_14_fields params_ex_fields
      zio_sector_fields)




section \<open>Properties of opening a top-level dRAID vdev\<close>

lemma those_Cons:
  "those (map st (p # ps)) = Some cvds \<Longrightarrow>
   \<exists>cvd rest. st p = Some cvd \<and> those (map st ps) = Some rest \<and> cvds = cvd # rest"
  by (auto split: option.splits)

lemma open_errors_loop:
  assumes "those (map st ps) = Some cvds"
    and "c + length ps \<le> INT_MAX"
    and "e + length ps < 2 ^ 64"
    and "e \<le> unat nparity"
  shows "vdev_draid_open_errors nparity st ps c e =
     Inr (unat nparity < e + length (filter (\<lambda>cvd. vdev_open_error cvd \<noteq> 0) cvds))"
  using assms
proof (induction ps arbitrary: c e cvds)
  case Nil
  then show ?case by simp
next
  case (Cons p ps)
  obtain cvd rest where st: "st p = Some cvd" and rest: "those (map st ps) = Some rest"
    and cvds: "cvds = cvd # rest"
    using those_Cons [OF Cons.prems(1)] by blast
  have c: "c \<noteq> INT_MAX" "c + 1 + length ps \<le> INT_MAX" using Cons.prems(2) by simp_all
  have e64: "e + 1 < 2 ^ 64" using Cons.prems(3) by simp
  have cmp: "(nparity < of_nat (e + 1)) = (unat nparity < e + 1)"
    using unat_of_nat_u64 [OF e64] by (simp add: word_less_nat_alt)
  show ?case
  proof (cases "vdev_open_error cvd \<noteq> 0")
    case True
    show ?thesis
    proof (cases "unat nparity < e + 1")
      case over: True
      then show ?thesis using st True cmp cvds by simp
    next
      case False
      then have inv: "e + 1 \<le> unat nparity" by simp
      have fit: "e + 1 + length ps < 2 ^ 64" using Cons.prems(3) by simp
      have "vdev_draid_open_errors nparity st ps (c + 1) (e + 1) =
          Inr (unat nparity < e + 1 + length (filter (\<lambda>cvd. vdev_open_error cvd \<noteq> 0) rest))"
        by (rule Cons.IH [OF rest c(2) fit inv])
      then show ?thesis using st True False cmp cvds c(1) by simp
    qed
  next
    case False
    have fit: "e + length ps < 2 ^ 64" using Cons.prems(3) by simp
    have "vdev_draid_open_errors nparity st ps (c + 1) e =
        Inr (unat nparity < e + length (filter (\<lambda>cvd. vdev_open_error cvd \<noteq> 0) rest))"
      by (rule Cons.IH [OF rest c(2) fit Cons.prems(4)])
    then show ?thesis using st False cvds c(1) by simp
  qed
qed

text \<open>
  Claim C6. For the first open of a top-level dRAID vdev whose configuration is valid
  (the parity is at most \<open>VDEV_RAIDZ_MAXPARITY\<close>, there are more children than parity
  devices, at most 255 of them, \<open>vdev_draid_config_create\<close> returns a configuration, with a
  group size that is not 0) and whose child pointers are valid: let \<open>failed\<close> be the number
  of children that report an open error once the children and the spares have been opened.
  If \<open>failed > nparity\<close>, \<open>vdev_draid_open\<close> returns \<open>ENXIO\<close> with \<open>vs_aux\<close> set to
  \<open>VDEV_AUX_NO_REPLICAS\<close>. Otherwise it succeeds and returns the sizes computed from the
  children, leaving \<open>vs_aux\<close> as it was.
\<close>

theorem draid_open_no_replicas:
  assumes first: "vdev_tsd vd = TSD_NULL"
    and par: "vdev_nparity vd \<le> VDEV_RAIDZ_MAXPARITY" "vdev_nparity vd + 1 \<le> vdev_children vd"
    and kids: "length (vdev_child vd) \<le> 255"
    and cfg: "vdev_draid_config_create in_kernel rand fletcher vd = Inr (Some vdc)"
    and gsz: "vdc_groupsz vdc \<noteq> 0"
    and vd1: "vd1 = vd\<lparr>vdev_nspares := vdc_nspares vdc, vdev_ngroups := vdc_ngroups vdc,
                        vdev_tsd := TSD_DRAID vdc\<rparr>"
    and st1: "st1 = open_subset (open_subset st vd1 vdev_draid_open_children) vd1
                      vdev_draid_open_spares"
    and ptrs: "vdev_child_list st1 vd = Some cvds"
    and failed: "failed = length (filter (\<lambda>cvd. vdev_open_error cvd \<noteq> 0) cvds)"
  shows "vdev_draid_open in_kernel rand fletcher open_subset st vd =
     (if unat (vdev_nparity vd) < failed
      then (vd1\<lparr>vs_aux := VDEV_AUX_NO_REPLICAS\<rparr>, st1, Inl ENXIO)
      else
        (case vdev_draid_calculate_asize_loop cvds (0, 0, 0) of
           (child_asize, child_max_asize, ashift) \<Rightarrow>
             (vd1, st1,
              Inr (((((child_asize div VDEV_DRAID_ROWSIZE) * VDEV_DRAID_ROWSIZE)
                       * vdc_ndisks vdc) div vdc_groupsz vdc) * vdc_groupsz vdc,
                   ((((child_max_asize div VDEV_DRAID_ROWSIZE) * VDEV_DRAID_ROWSIZE)
                       * vdc_ndisks vdc) div vdc_groupsz vdc) * vdc_groupsz vdc,
                   ashift))))"
proof -
  have chk: "\<not> (vdev_nparity vd > VDEV_RAIDZ_MAXPARITY \<or> vdev_children vd < vdev_nparity vd + 1)"
    using par by (simp add: not_less)
  have those: "those (map st1 (vdev_child vd1)) = Some cvds"
    using ptrs by (simp add: vdev_child_list_def vd1)
  have loop: "vdev_draid_open_errors (vdev_nparity vd) st1 (vdev_child vd1) 0 0 =
      Inr (unat (vdev_nparity vd) < failed)"
    using open_errors_loop [OF those, of 0 0 "vdev_nparity vd"] kids
    by (simp add: vd1 failed INT_MAX_def)
  have calc: "vdev_draid_calculate_asize st1 vd1 =
      Inr (vdev_draid_calculate_asize_loop cvds (0, 0, 0))"
    using ptrs by (simp add: vdev_draid_calculate_asize_def vdev_child_list_def vd1)
  have pre: "(case vdev_tsd vd of
                 TSD_DRAID vdc \<Rightarrow> Inr (vd, vdc)
               | TSD_SPARE x \<Rightarrow> Inl (vd, BAD_POINTER)
               | TSD_NULL \<Rightarrow>
                   if vdev_nparity vd > VDEV_RAIDZ_MAXPARITY
                      \<or> vdev_children vd < vdev_nparity vd + 1
                   then Inl (vd\<lparr>vs_aux := VDEV_AUX_BAD_LABEL\<rparr>, EINVAL)
                   else
                     (case vdev_draid_config_create in_kernel rand fletcher vd of
                        Inl e \<Rightarrow> Inl (vd, e)
                      | Inr None \<Rightarrow> Inl (vd, EINVAL)
                      | Inr (Some vdc) \<Rightarrow>
                          Inr (vd\<lparr>vdev_nspares := vdc_nspares vdc,
                                  vdev_ngroups := vdc_ngroups vdc,
                                  vdev_tsd := TSD_DRAID vdc\<rparr>, vdc))) = Inr (vd1, vdc)"
    unfolding first if_not_P [OF chk] cfg vd1 by simp
  show ?thesis
  proof (cases "unat (vdev_nparity vd) < failed")
    case True
    show ?thesis
      unfolding vdev_draid_open_def Let_def pre
      using True loop by (simp add: st1 [symmetric])
  next
    case False
    show ?thesis
      unfolding vdev_draid_open_def Let_def pre
      using False loop calc gsz by (simp add: st1 [symmetric] split: prod.splits)
  qed
qed

lemma shuffle_row_permutes:
  assumes "shuffle_row rand j row seed = (row', seed')"
    and "j = 0 \<or> j < length row" and "length row \<le> 256"
  shows "set row' = set row \<and> distinct row' = distinct row \<and> length row' = length row"
  using assms
proof (induction j arbitrary: row seed)
  case 0
  then show ?case by simp
next
  case (Suc j)
  obtain x s1 where r: "rand seed = (x, s1)" by (cases "rand seed") auto
  define k where "k = unat (x mod (of_nat (Suc j) + 1))"
  define row1 where "row1 = row[Suc j := row ! k, k := row ! Suc j]"
  have jl: "Suc j < length row" using Suc.prems(2) by simp
  have "Suc j + 1 < 2 ^ 64" using jl Suc.prems(3) by simp
  then have "unat (of_nat (Suc j + 1) :: u64) = Suc j + 1" by (rule unat_of_nat_u64)
  then have m: "unat (of_nat (Suc j) + 1 :: u64) = Suc j + 1" by simp
  have "unat (x mod (of_nat (Suc j) + 1)) = unat x mod unat (of_nat (Suc j) + 1 :: u64)"
    by (rule unat_mod)
  then have "k < Suc j + 1" unfolding k_def m by simp
  then have kl: "k < length row" using jl by simp
  have s: "set row1 = set row" unfolding row1_def using jl kl by (rule set_swap)
  have d: "distinct row1 = distinct row" unfolding row1_def using jl kl by (rule distinct_swap)
  have l: "length row1 = length row" by (simp add: row1_def)
  have run: "shuffle_row rand j row1 s1 = (row', seed')"
    using Suc.prems(1) r by (simp add: Let_def k_def row1_def)
  have "j = 0 \<or> j < length row1" using jl l by simp
  then have "set row' = set row1 \<and> distinct row' = distinct row1 \<and> length row' = length row1"
    using Suc.IH [OF run] Suc.prems(3) l by simp
  then show ?case using s d l by simp
qed

lemma generate_rows_permutations:
  assumes "length prev = c" and "c \<le> 256"
    and "distinct prev" and "unat ` set prev = {..< c}"
    and "r < n"
  shows "distinct (take c (drop (r * c) (generate_rows rand c n prev seed)))
       \<and> unat ` set (take c (drop (r * c) (generate_rows rand c n prev seed))) = {..< c}"
  using assms
proof (induction n arbitrary: prev seed r)
  case 0
  then show ?case by simp
next
  case (Suc n)
  obtain cur s1 where sh: "shuffle_row rand (c - 1) prev seed = (cur, s1)"
    by (cases "shuffle_row rand (c - 1) prev seed") auto
  have j: "c - 1 = 0 \<or> c - 1 < length prev" using Suc.prems(1) by (cases c) simp_all
  have le: "length prev \<le> 256" using Suc.prems(1,2) by simp
  have cur: "set cur = set prev \<and> distinct cur = distinct prev \<and> length cur = length prev"
    using shuffle_row_permutes [OF sh j le] .
  have gen: "generate_rows rand c (Suc n) prev seed = cur @ generate_rows rand c n cur s1"
    using sh by simp
  have lc: "length cur = c" using cur Suc.prems(1) by simp
  show ?case
  proof (cases r)
    case 0
    then show ?thesis using gen lc cur Suc.prems(3,4) by simp
  next
    case (Suc r')
    have r': "r' < n" using Suc Suc.prems(5) by simp
    have "drop (r * c) (cur @ generate_rows rand c n cur s1)
        = drop (r' * c) (generate_rows rand c n cur s1)"
      using lc Suc by simp
    moreover have "distinct (take c (drop (r' * c) (generate_rows rand c n cur s1)))
       \<and> unat ` set (take c (drop (r' * c) (generate_rows rand c n cur s1))) = {..< c}"
      using Suc.IH [OF lc Suc.prems(2) _ _ r'] cur Suc.prems(3,4) by simp
    ultimately show ?thesis using gen by simp
  qed
qed

lemma initial_row_permutation:
  assumes "c \<le> 256"
  shows "distinct (map of_nat [0 ..< c] :: u8 list)"
    and "unat ` set (map of_nat [0 ..< c] :: u8 list) = {..< c}"
proof -
  have u: "unat (of_nat i :: u8) = i" if "i < c" for i
    using that assms by (simp add: unat_of_nat)
  have m: "map unat (map of_nat [0 ..< c] :: u8 list) = [0 ..< c]"
    using u by (intro nth_equalityI) simp_all
  have "distinct (map unat (map of_nat [0 ..< c] :: u8 list))" unfolding m by simp
  then show "distinct (map of_nat [0 ..< c] :: u8 list)" by (simp only: distinct_map)
  have "set (map unat (map of_nat [0 ..< c] :: u8 list)) = {..< c}" unfolding m by auto
  then show "unat ` set (map of_nat [0 ..< c] :: u8 list) = {..< c}"
    by (simp only: set_map)
qed

lemma generated_map_rows:
  assumes "unat c \<le> 256"
  shows "rows_are_permutations (generated_map rand c s k n)"
proof -
  have "set (perm_row (generated_map rand c s k n) r) = {..< unat c}
      \<and> distinct (perm_row (generated_map rand c s k n) r)" if r: "r < unat n" for r
  proof -
    let ?rows = "generate_rows rand (unat c) (unat n) (map of_nat [0 ..< unat c])
        (VDEV_DRAID_SEED, s)"
    have g: "distinct (take (unat c) (drop (r * unat c) ?rows))
       \<and> unat ` set (take (unat c) (drop (r * unat c) ?rows)) = {..< unat c}"
      using initial_row_permutation [OF assms] r assms
      by (intro generate_rows_permutations) simp_all
    have inj: "inj_on unat (set (take (unat c) (drop (r * unat c) ?rows)))"
      by (rule inj_onI) (simp add: word_unat_eq_iff)
    show ?thesis
      using g inj by (simp add: perm_row_def generated_map_def distinct_map)
  qed
  then show ?thesis
    by (simp add: rows_are_permutations_def list_all_iff generated_map_fields)
qed

lemma draid_3_fields:
  "vdev_tsd draid_3 = TSD_NULL" "vdev_nparity draid_3 = 1" "vdev_ndata draid_3 = 2"
  "vdev_nspares draid_3 = 0" "vdev_ngroups draid_3 = 1" "vdev_child draid_3 = [1, 2, 3]"
  "vdev_children draid_3 = 3" "vs_aux draid_3 = VDEV_AUX_NONE"
  by (simp_all add: draid_3_def top_3_def vdev_zero_def vdev_children_def)

lemma draid_3_config:
  "vdev_draid_config_create True (Pair 0) (\<lambda>bs. 0xa8bfd5c4) draid_3 =
     Inr (Some (vdc_3 (generated_map (Pair 0) 3 0x625f944e90fc7b1f 0xa8bfd5c4 256)))"
proof -
  have lk: "vdev_draid_lookup_map 3 = Inr (0x625f944e90fc7b1f, 0xa8bfd5c4, 256)"
    using lookup_map_in_table [of 3] by (simp add: draid_maps_def dm_def)
  have rows: "rows_are_permutations (generated_map (Pair 0) 3 0x625f944e90fc7b1f 0xa8bfd5c4 256)"
    by (rule generated_map_rows) simp
  have gen: "vdev_draid_generate_map True (Pair 0) (\<lambda>bs. 0xa8bfd5c4) 3
        0x625f944e90fc7b1f 0xa8bfd5c4 256 =
      Inr (generated_map (Pair 0) 3 0x625f944e90fc7b1f 0xa8bfd5c4 256)"
    unfolding generate_map_verdict using rows
    by (simp add: VDEV_DRAID_MAX_CHILDREN_def INT_MAX_def)
  show ?thesis
    unfolding vdev_draid_config_create_def draid_3_fields lk
    by (simp add: gen vdc_3_def VDEV_DRAID_ROWSIZE_def VDEV_DRAID_ROWSHIFT_def)
qed

lemma draid_3_children:
  "vdev_child_list store_one_failed draid_3 = Some [disk_failed, disk_1g, disk_1g]"
  "vdev_child_list store_two_failed draid_3 = Some [disk_failed, disk_failed, disk_1g]"
  by (simp_all add: vdev_child_list_def store_one_failed_def store_two_failed_def
      draid_3_fields)

text \<open>
  The dRAID of two data disks and one parity disk, in the kernel, with a generator that
  always draws 0 and a checksum function that returns the checksum of the table. With one
  child that failed to open the open succeeds with 3 GiB; with two such children it fails.
\<close>

theorem draid_open_no_replicas_witness:
  "vdev_tsd draid_3 = TSD_NULL
   \<and> vdev_nparity draid_3 \<le> VDEV_RAIDZ_MAXPARITY
   \<and> vdev_nparity draid_3 + 1 \<le> vdev_children draid_3
   \<and> vdev_draid_config_create True (Pair 0) (\<lambda>bs. 0xa8bfd5c4) draid_3 =
       Inr (Some (vdc_3 (generated_map (Pair 0) 3 0x625f944e90fc7b1f 0xa8bfd5c4 256)))
   \<and> snd (snd (vdev_draid_open True (Pair 0) (\<lambda>bs. 0xa8bfd5c4) (\<lambda>st vd sel. st)
                  store_one_failed draid_3)) = Inr (3221225472, 6442450944, 12)
   \<and> vs_aux (fst (vdev_draid_open True (Pair 0) (\<lambda>bs. 0xa8bfd5c4) (\<lambda>st vd sel. st)
                  store_one_failed draid_3)) = VDEV_AUX_NONE
   \<and> snd (snd (vdev_draid_open True (Pair 0) (\<lambda>bs. 0xa8bfd5c4) (\<lambda>st vd sel. st)
                  store_two_failed draid_3)) = Inl ENXIO
   \<and> vs_aux (fst (vdev_draid_open True (Pair 0) (\<lambda>bs. 0xa8bfd5c4) (\<lambda>st vd sel. st)
                  store_two_failed draid_3)) = VDEV_AUX_NO_REPLICAS"
proof -
  let ?G = "generated_map (Pair 0) 3 0x625f944e90fc7b1f 0xa8bfd5c4 256"
  have p: "vdev_nparity draid_3 \<le> VDEV_RAIDZ_MAXPARITY"
    "vdev_nparity draid_3 + 1 \<le> vdev_children draid_3"
    by (simp_all add: draid_3_fields VDEV_RAIDZ_MAXPARITY_def)
  have k: "length (vdev_child draid_3) \<le> 255" by (simp add: draid_3_fields)
  have g: "vdc_groupsz (vdc_3 ?G) \<noteq> 0" by (simp add: vdc_3_def)
  note t = draid_open_no_replicas [OF draid_3_fields(1) p k draid_3_config g refl refl _ refl,
      where open_subset = "\<lambda>st vd sel. st"]
  have a: "snd (snd (vdev_draid_open True (Pair 0) (\<lambda>bs. 0xa8bfd5c4) (\<lambda>st vd sel. st)
                  store_one_failed draid_3)) = Inr (3221225472, 6442450944, 12)"
    "vs_aux (fst (vdev_draid_open True (Pair 0) (\<lambda>bs. 0xa8bfd5c4) (\<lambda>st vd sel. st)
                  store_one_failed draid_3)) = VDEV_AUX_NONE"
    unfolding t [of store_one_failed, OF draid_3_children(1)]
    by (simp_all add: disk_1g_fields disk_failed_fields draid_3_fields vdc_3_def
        VDEV_DRAID_ROWSIZE_def VDEV_DRAID_ROWSHIFT_def MIN_u64_def MAX_u64_def)
  have b: "snd (snd (vdev_draid_open True (Pair 0) (\<lambda>bs. 0xa8bfd5c4) (\<lambda>st vd sel. st)
                  store_two_failed draid_3)) = Inl ENXIO"
    "vs_aux (fst (vdev_draid_open True (Pair 0) (\<lambda>bs. 0xa8bfd5c4) (\<lambda>st vd sel. st)
                  store_two_failed draid_3)) = VDEV_AUX_NO_REPLICAS"
    unfolding t [of store_two_failed, OF draid_3_children(2)]
    by (simp_all add: disk_1g_fields disk_failed_fields draid_3_fields)
  show ?thesis
    by (intro conjI) (rule draid_3_fields(1) p draid_3_config a b)+
qed

section \<open>Properties of the names of distributed spares\<close>

declare dec.simps [simp del]

lemma digit_char:
  assumes "d < 10"
  shows "is_digit (char_of (48 + d))" and "(of_char (char_of (48 + d)) :: nat) - 48 = d"
    and "\<not> is_space (char_of (48 + d))"
    and "char_of (48 + d) \<noteq> CHR ''-''" and "char_of (48 + d) \<noteq> CHR ''+''"
proof -
  have m: "(48 + d) mod 256 = 48 + d" using assms by simp
  have v: "(of_char (char_of (48 + d)) :: nat) = 48 + d" using assms by simp
  show "is_digit (char_of (48 + d))" using assms by (simp add: is_digit_def m)
  show "(of_char (char_of (48 + d)) :: nat) - 48 = d" by (simp add: m)
  show "\<not> is_space (char_of (48 + d))" using assms by (simp add: is_space_def m)
  have "(of_char (char_of (48 + d)) :: nat) \<noteq> of_char CHR ''-''" unfolding v by simp
  then show "char_of (48 + d) \<noteq> CHR ''-''" by (simp only: of_char_eq_iff not_False_eq_True)
  have "(of_char (char_of (48 + d)) :: nat) \<noteq> of_char CHR ''+''" unfolding v by simp
  then show "char_of (48 + d) \<noteq> CHR ''+''" by (simp only: of_char_eq_iff not_False_eq_True)
qed

lemma dec_digits: "c \<in> set (dec n) \<Longrightarrow> is_digit c"
proof (induction n arbitrary: c rule: dec.induct)
  case (1 n)
  show ?case
  proof (cases "n < 10")
    case True
    then show ?thesis using "1.prems" digit_char(1) [of n] by (subst (asm) dec.simps) simp
  next
    case False
    have "c \<in> set (dec (n div 10)) \<or> c = char_of (48 + n mod 10)"
      using "1.prems" False by (subst (asm) dec.simps) auto
    then show ?thesis using "1.IH" [OF False] digit_char(1) [of "n mod 10"] by auto
  qed
qed

lemma dec_first: "\<exists>d ds. dec n = d # ds \<and> is_digit d \<and> \<not> is_space d \<and> d \<noteq> CHR ''-'' \<and> d \<noteq> CHR ''+''"
proof (induction n rule: dec.induct)
  case (1 n)
  show ?case
  proof (cases "n < 10")
    case True
    then show ?thesis using digit_char [of n] by (subst dec.simps) simp
  next
    case False
    obtain d ds where "dec (n div 10) = d # ds" "is_digit d" "\<not> is_space d" "d \<noteq> CHR ''-''"
      "d \<noteq> CHR ''+''"
      using "1.IH" [OF False] by blast
    then show ?thesis using False by (subst dec.simps) simp
  qed
qed

lemma digits_value_snoc:
  "digits_value (ds @ [c]) = digits_value ds * 10 + ((of_char c :: nat) - 48)"
  by (simp add: digits_value_def)

lemma digits_value_dec: "digits_value (dec n) = n"
proof (induction n rule: dec.induct)
  case (1 n)
  show ?case
  proof (cases "n < 10")
    case True
    then show ?thesis using digit_char(2) [of n]
      by (subst dec.simps) (simp add: digits_value_def)
  next
    case False
    have "digits_value (dec (n div 10) @ [char_of (48 + n mod 10)]) = n div 10 * 10 + n mod 10"
      unfolding digits_value_snoc using "1.IH" [OF False] digit_char(2) [of "n mod 10"] by simp
    then show ?thesis using False by (subst dec.simps) simp
  qed
qed

lemma dec_length: "n < 10 ^ k \<Longrightarrow> 0 < k \<Longrightarrow> length (dec n) \<le> k"
proof (induction k arbitrary: n)
  case 0
  then show ?case by simp
next
  case (Suc k)
  show ?case
  proof (cases "n < 10")
    case True
    then show ?thesis by (subst dec.simps) simp
  next
    case False
    then have k: "0 < k" using Suc.prems(1) by (cases k) simp_all
    have "n div 10 < 10 ^ k" using Suc.prems(1) by (simp add: less_mult_imp_div_less)
    then have "length (dec (n div 10)) \<le> k" using Suc.IH k by simp
    then show ?thesis using False by (subst dec.simps) simp
  qed
qed

lemma dec_length_u64: "length (dec (unat (x :: u64))) \<le> 20"
proof -
  have "unat x < 2 ^ 64" by (rule unat_u64_less)
  also have "(2::nat) ^ 64 < 10 ^ 20" by simp
  finally show ?thesis by (intro dec_length) simp_all
qed

lemma scan_llu_dec:
  assumes "rest = [] \<or> \<not> is_digit (hd rest)"
  shows "scan_llu (dec (unat (x :: u64)) @ rest) = Some (Inr (x, rest))"
proof -
  obtain d ds where d: "dec (unat x) = d # ds" "is_digit d" "\<not> is_space d" "d \<noteq> CHR ''-''"
      "d \<noteq> CHR ''+''"
    using dec_first by blast
  have sp: "dropWhile is_space (dec (unat x) @ rest) = dec (unat x) @ rest"
    using d by simp
  have r: "takeWhile is_digit rest = []" "dropWhile is_digit rest = rest"
    using assms by (cases rest; simp)+
  have tk: "takeWhile is_digit (dec (unat x) @ rest) = dec (unat x)"
    using takeWhile_append2 [of "dec (unat x)" is_digit rest] dec_digits r by simp
  have dr: "dropWhile is_digit (dec (unat x) @ rest) = rest"
    using dropWhile_append2 [of "dec (unat x)" is_digit rest] dec_digits r by simp
  have hd: "hd (dec (unat x) @ rest) = d" "dec (unat x) @ rest \<noteq> []" using d by simp_all
  have small: "\<not> 2 ^ 64 \<le> unat x" using unat_u64_less [of x] by simp
  have ne: "dec (unat x) \<noteq> []" using d(1) by simp
  show ?thesis
    unfolding scan_llu_def Let_def sp hd
    using d(4,5) small ne by (simp add: tk dr digits_value_dec)
qed

lemma dec_small: "dec 0 = ''0''" "dec (Suc 0) = ''1''" "dec 2 = ''2''"
  by (simp_all add: dec.simps char_of_def bit_Suc_0_iff)

lemma spare_values_of_name:
  assumes "tail = [] \<or> \<not> is_digit (hd tail)"
  shows "vdev_draid_spare_values
           (VDEV_TYPE_DRAID @ dec (unat parity) @ ''-'' @ dec (unat vdev_id) @ ''-''
              @ dec (unat spare_id) @ tail) = Inr (spare_id, parity, vdev_id)"
proof -
  have minus: "\<not> is_digit CHR ''-''" by (simp add: is_digit_def)
  have s1: "scan_llu (dec (unat parity) @ (''-'' @ dec (unat vdev_id) @ ''-''
              @ dec (unat spare_id) @ tail))
      = Some (Inr (parity, ''-'' @ dec (unat vdev_id) @ ''-'' @ dec (unat spare_id) @ tail))"
    by (rule scan_llu_dec) (simp add: minus)
  have s2: "scan_llu (dec (unat vdev_id) @ (''-'' @ dec (unat spare_id) @ tail))
      = Some (Inr (vdev_id, ''-'' @ dec (unat spare_id) @ tail))"
    by (rule scan_llu_dec) (simp add: minus)
  have s3: "scan_llu (dec (unat spare_id) @ tail) = Some (Inr (spare_id, tail))"
    using assms by (rule scan_llu_dec)
  show ?thesis
    unfolding vdev_draid_spare_values_def
    using s1 s2 s3 by simp
qed

lemma spare_values_two_fields:
  fixes parity vdev_id :: u64
  shows "vdev_draid_spare_values
           (VDEV_TYPE_DRAID @ dec (unat parity) @ ''-'' @ dec (unat vdev_id)) = Inl EINVAL"
proof -
  have minus: "\<not> is_digit CHR ''-''" by (simp add: is_digit_def)
  have s1: "scan_llu (dec (unat parity) @ (''-'' @ dec (unat vdev_id)))
      = Some (Inr (parity, ''-'' @ dec (unat vdev_id)))"
    by (rule scan_llu_dec) (simp add: minus)
  have s2: "scan_llu (dec (unat vdev_id) @ []) = Some (Inr (vdev_id, []))"
    by (rule scan_llu_dec) simp
  show ?thesis
    unfolding vdev_draid_spare_values_def
    using s1 s2 by simp
qed

lemma spare_name_fits:
  assumes "69 \<le> len"
  shows "vdev_draid_spare_name len spare_id parity vdev_id =
     Inr (VDEV_TYPE_DRAID @ dec (unat parity) @ ''-'' @ dec (unat vdev_id) @ ''-''
            @ dec (unat spare_id))"
proof -
  have "length (VDEV_TYPE_DRAID @ dec (unat parity) @ ''-'' @ dec (unat vdev_id) @ ''-''
            @ dec (unat spare_id)) \<le> 67"
    using dec_length_u64 [of parity] dec_length_u64 [of vdev_id] dec_length_u64 [of spare_id]
    by (simp add: VDEV_TYPE_DRAID_def)
  also have "67 \<le> nat (len - 2)" using assms by simp
  finally show ?thesis using assms by (simp add: vdev_draid_spare_name_def)
qed

text \<open>
  Claim C9, as amended. For every triple \<open>(parity, vdev_id, spare_id)\<close> of 64-bit numbers
  and a buffer of at least 69 bytes, \<open>vdev_draid_spare_name\<close> produces
  \<open>draid<parity>-<vdev_id>-<spare_id>\<close> in decimal, and \<open>vdev_draid_spare_values\<close> recovers the
  triple from it. It recovers the same triple when the name is followed by any characters
  that do not begin with a digit: what follows the third number is not looked at. A name
  that does not begin with \<open>draid\<close>, and a name \<open>draid<P>-<V>\<close> with two numbers only, give
  \<open>EINVAL\<close>.
\<close>

theorem spare_name_round_trip:
  "(69 \<le> len \<longrightarrow>
      (\<exists>name. vdev_draid_spare_name len spare_id parity vdev_id = Inr name
         \<and> name = VDEV_TYPE_DRAID @ dec (unat parity) @ ''-'' @ dec (unat vdev_id) @ ''-''
                    @ dec (unat spare_id)
         \<and> vdev_draid_spare_values name = Inr (spare_id, parity, vdev_id)
         \<and> (tail = [] \<or> \<not> is_digit (hd tail) \<longrightarrow>
              vdev_draid_spare_values (name @ tail) = Inr (spare_id, parity, vdev_id))))
   \<and> vdev_draid_spare_values (VDEV_TYPE_DRAID @ dec (unat parity) @ ''-'' @ dec (unat vdev_id))
       = Inl EINVAL
   \<and> (take (length VDEV_TYPE_DRAID) other \<noteq> VDEV_TYPE_DRAID \<longrightarrow>
        vdev_draid_spare_values other = Inl EINVAL)"
proof -
  have a: "vdev_draid_spare_values
           (VDEV_TYPE_DRAID @ dec (unat parity) @ ''-'' @ dec (unat vdev_id) @ ''-''
              @ dec (unat spare_id)) = Inr (spare_id, parity, vdev_id)"
    using spare_values_of_name [of "[]" parity vdev_id spare_id] by simp
  have b: "vdev_draid_spare_values
           ((VDEV_TYPE_DRAID @ dec (unat parity) @ ''-'' @ dec (unat vdev_id) @ ''-''
              @ dec (unat spare_id)) @ tail) = Inr (spare_id, parity, vdev_id)"
    if "tail = [] \<or> \<not> is_digit (hd tail)"
    using spare_values_of_name [OF that, of parity vdev_id spare_id] by simp
  have c: "vdev_draid_spare_values other = Inl EINVAL"
    if "take (length VDEV_TYPE_DRAID) other \<noteq> VDEV_TYPE_DRAID"
    using that by (simp add: vdev_draid_spare_values_def)
  show ?thesis
    using spare_name_fits [of len spare_id parity vdev_id] a b c spare_values_two_fields
    by blast
qed

text \<open>
  Parity 1, top-level vdev 0, spare 2 in a buffer of 128 bytes; the name of the example of
  the claim, \<open>draid1-0\<close>; and a name of another kind.
\<close>

theorem spare_name_round_trip_witness:
  "vdev_draid_spare_name 128 2 1 0 = Inr ''draid1-0-2''
   \<and> vdev_draid_spare_values ''draid1-0-2'' = Inr (2, 1, 0)
   \<and> \<not> is_digit (hd ''s0'')
   \<and> vdev_draid_spare_values ''draid1-0-2s0'' = Inr (2, 1, 0)
   \<and> vdev_draid_spare_values ''draid1-0'' = Inl EINVAL
   \<and> take (length VDEV_TYPE_DRAID) ''raidz1-0'' \<noteq> VDEV_TYPE_DRAID
   \<and> vdev_draid_spare_values ''raidz1-0'' = Inl EINVAL"
proof -
  note d = dec_small
  have nd: "\<not> is_digit (hd ''s0'')" by (simp add: is_digit_def)
  have o: "take (length VDEV_TYPE_DRAID) ''raidz1-0'' \<noteq> VDEV_TYPE_DRAID"
    by (simp add: VDEV_TYPE_DRAID_def)
  show ?thesis
    using spare_name_round_trip [of 128 2 1 0 "''s0''" "''raidz1-0''"] nd o
    by (simp add: d VDEV_TYPE_DRAID_def)
qed

text \<open>
  Claim C9 as stated fails for names with something after the third number: \<open>sscanf\<close>
  stops after the third conversion. \<open>draid1-0-0x\<close> and \<open>draid1-0-0-5\<close> are not of the form
  \<open>draid<P>-<V>-<S>\<close>, and are parsed as parity 1, top-level vdev 0 and spare 0.
\<close>

theorem spare_values_trailing_counterexample:
  "vdev_draid_spare_values ''draid1-0-0x'' = Inr (0, 1, 0)
   \<and> vdev_draid_spare_values ''draid1-0-0-5'' = Inr (0, 1, 0)"
proof -
  note d = dec_small
  have "\<not> is_digit (hd ''x'')" "\<not> is_digit (hd ''-5'')" by (simp_all add: is_digit_def)
  then show ?thesis
    using spare_values_of_name [of "''x''" 1 0 0] spare_values_of_name [of "''-5''" 1 0 0]
    by (simp add: d VDEV_TYPE_DRAID_def)
qed

end
